(* ===== verification/Kernel_Prelude.thy ===== *)
theory Kernel_Prelude
  imports Main "HOL-Library.Word"
begin

unbundle bit_operations_syntax

text \<open>
  Shared vocabulary of the development: the outcome of a kernel function, loops with a fixed
  number of iterations, byte blocks and their exclusive-or algebra.
\<close>

section \<open>Outcomes of kernel functions\<close>

text \<open>
  A kernel function either returns, or stops the machine in \<open>panic\<close>, or goes to sleep (or spins)
  on a condition that no step of the calling thread can change, or leaves what the sources define
  (an array index out of range, a null pointer, an access beyond the end of a device).
\<close>

datatype 'a result = Ok 'a | Panic string | Blocked | Fault

primrec bindR :: "'a result \<Rightarrow> ('a \<Rightarrow> 'b result) \<Rightarrow> 'b result" where
  "bindR (Ok x) f = f x"
| "bindR (Panic m) f = Panic m"
| "bindR Blocked f = Blocked"
| "bindR Fault f = Fault"

lemma bindR_assoc: "bindR (bindR m f) g = bindR m (\<lambda>x. bindR (f x) g)"
  by (cases m) auto

lemma bindR_Ok_iff: "bindR m f = Ok y \<longleftrightarrow> (\<exists>x. m = Ok x \<and> f x = Ok y)"
  by (cases m) auto

lemma bindR_step: "m = Ok x \<Longrightarrow> f x = r \<Longrightarrow> bindR m f = r"
  by simp

named_theorems kernel_defs \<open>definitions of straight-line kernel functions\<close>

section \<open>Loops\<close>

text \<open>\<open>for (i in xs) body\<close>, where the body updates the state and may fail.\<close>

primrec for_each :: "('i \<Rightarrow> 's \<Rightarrow> 's result) \<Rightarrow> 'i list \<Rightarrow> 's \<Rightarrow> 's result" where
  "for_each f [] s = Ok s"
| "for_each f (i # is) s = bindR (f i s) (for_each f is)"

lemma bindR_cong [fundef_cong]:
  "m = m' \<Longrightarrow> (\<And>x. m' = Ok x \<Longrightarrow> f x = f' x) \<Longrightarrow> bindR m f = bindR m' f'"
  by (cases m') auto

lemma for_each_append: "for_each f (xs @ ys) s = bindR (for_each f xs s) (for_each f ys)"
proof (induction xs arbitrary: s)
  case (Cons x xs)
  then show ?case by (cases "f x s") auto
qed simp

lemma for_each_upt_rule:
  assumes init: "I a s" and le: "a \<le> n"
    and step: "\<And>k s. a \<le> k \<Longrightarrow> k < n \<Longrightarrow> I k s \<Longrightarrow> \<exists>s'. f k s = Ok s' \<and> I (Suc k) s'"
  shows "\<exists>s'. for_each f [a..<n] s = Ok s' \<and> I n s'"
  using le step
proof (induction n)
  case 0
  with init show ?case by simp
next
  case (Suc n)
  show ?case
  proof (cases "a \<le> n")
    case True
    from True Suc obtain s1 where s1: "for_each f [a..<n] s = Ok s1" "I n s1"
      by (metis less_Suc_eq)
    from True Suc.prems(2)[OF True _ s1(2)] obtain s2 where s2: "f n s1 = Ok s2" "I (Suc n) s2"
      by auto
    with True s1 show ?thesis by (auto simp: for_each_append)
  next
    case False
    with Suc.prems have "a = Suc n" by simp
    with init show ?thesis by simp
  qed
qed

section \<open>Blocks of bytes\<close>

type_synonym byte = "8 word"
type_synonym block = "byte list"
type_synonym u64 = "64 word"

text \<open>\<open>#define BSIZE 1024\<close>, the size of a disk block.\<close>

definition BSIZE :: nat where "BSIZE = 1024"

definition is_block :: "block \<Rightarrow> bool" where "is_block b \<longleftrightarrow> length b = BSIZE"

text \<open>The loops \<open>for (i = 0; i < BSIZE; i++) parity[i] = 0\<close> and
  \<open>for (i = 0; i < BSIZE; i++) parity[i] ^= data[i]\<close>.\<close>

definition zero_block :: block where "zero_block = replicate BSIZE 0"

definition xor_block :: "block \<Rightarrow> block \<Rightarrow> block" where
  "xor_block p q = map (\<lambda>i. p ! i XOR q ! i) [0..<BSIZE]"

lemma is_block_zero [simp, intro]: "is_block zero_block"
  by (simp add: is_block_def zero_block_def)

lemma is_block_xor [simp, intro]: "is_block (xor_block p q)"
  by (simp add: is_block_def xor_block_def)

lemma block_eqI: "is_block p \<Longrightarrow> is_block q \<Longrightarrow> (\<And>i. i < BSIZE \<Longrightarrow> p ! i = q ! i) \<Longrightarrow> p = q"
  by (simp add: is_block_def list_eq_iff_nth_eq)

lemma nth_xor_block [simp]: "i < BSIZE \<Longrightarrow> xor_block p q ! i = p ! i XOR q ! i"
  by (simp add: xor_block_def)

lemma nth_zero_block [simp]: "i < BSIZE \<Longrightarrow> zero_block ! i = 0"
  by (simp add: zero_block_def)

lemma xor_block_commute: "xor_block p q = xor_block q p"
  by (rule block_eqI) (auto simp: xor.commute)

lemma xor_block_assoc: "xor_block (xor_block p q) r = xor_block p (xor_block q r)"
  by (rule block_eqI) (auto simp: xor.assoc)

lemma xor_block_left_commute: "xor_block p (xor_block q r) = xor_block q (xor_block p r)"
  by (rule block_eqI) (auto simp: xor.left_commute)

lemmas xor_block_ac = xor_block_assoc xor_block_commute xor_block_left_commute

lemma xor_block_self [simp]: "xor_block p p = zero_block"
  by (rule block_eqI) auto

lemma xor_block_zero [simp]: "is_block p \<Longrightarrow> xor_block p zero_block = p"
  by (rule block_eqI) auto

lemma xor_block_zero_left [simp]: "is_block p \<Longrightarrow> xor_block zero_block p = p"
  by (rule block_eqI) auto

lemma xor_block_cancel [simp]: "is_block q \<Longrightarrow> xor_block p (xor_block p q) = q"
  by (rule block_eqI) (auto simp: xor.assoc [symmetric])

lemma xor_block_eq_zero_iff: "is_block p \<Longrightarrow> is_block q \<Longrightarrow> xor_block p q = zero_block \<longleftrightarrow> p = q"
  by (metis xor_block_cancel xor_block_self xor_block_zero)

text \<open>The accumulation loop \<open>parity = 0; for (i in xs) parity ^= f(i)\<close>.\<close>

definition xsum :: "('i \<Rightarrow> block) \<Rightarrow> 'i list \<Rightarrow> block" where
  "xsum f xs = fold (\<lambda>i p. xor_block p (f i)) xs zero_block"

lemma is_block_fold_xor: "is_block a \<Longrightarrow> is_block (fold (\<lambda>i p. xor_block p (f i)) xs a)"
  by (induction xs arbitrary: a) auto

lemma is_block_xsum [simp, intro]: "is_block (xsum f xs)"
  by (simp add: xsum_def is_block_fold_xor)

lemma xsum_Nil [simp]: "xsum f [] = zero_block"
  by (simp add: xsum_def)

lemma fold_xor_shift:
  "is_block a \<Longrightarrow> fold (\<lambda>i p. xor_block p (f i)) xs a = xor_block a (xsum f xs)"
proof (induction xs arbitrary: a)
  case Nil
  then show ?case by simp
next
  case (Cons x xs)
  have "xsum f (x # xs) = xor_block (xor_block zero_block (f x)) (xsum f xs)"
    using Cons.IH [of "xor_block zero_block (f x)"] by (simp add: xsum_def)
  moreover have "fold (\<lambda>i p. xor_block p (f i)) (x # xs) a = xor_block (xor_block a (f x)) (xsum f xs)"
    using Cons.IH [of "xor_block a (f x)"] by simp
  moreover have "xor_block a zero_block = a" using Cons.prems by simp
  ultimately show ?case by (metis xor_block_assoc)
qed

lemma xsum_Cons [simp]: "xsum f (x # xs) = xor_block (f x) (xsum f xs)"
proof -
  have "xsum f (x # xs) = xor_block (xor_block zero_block (f x)) (xsum f xs)"
    using fold_xor_shift [of "xor_block zero_block (f x)" f xs] by (simp add: xsum_def)
  also have "\<dots> = xor_block (f x) (xor_block zero_block (xsum f xs))"
    by (simp only: xor_block_ac)
  finally show ?thesis by simp
qed

lemma xsum_append: "xsum f (xs @ ys) = xor_block (xsum f xs) (xsum f ys)"
  by (induction xs) (auto simp: xor_block_assoc)

lemma xsum_snoc [simp]: "xsum f (xs @ [x]) = xor_block (xsum f xs) (f x)"
  by (simp add: xsum_def)

lemma xsum_cong: "(\<And>i. i \<in> set xs \<Longrightarrow> f i = g i) \<Longrightarrow> xsum f xs = xsum g xs"
  by (induction xs) auto

lemma xsum_remove:
  "i \<in> set xs \<Longrightarrow> distinct xs \<Longrightarrow> xsum f xs = xor_block (f i) (xsum f [j \<leftarrow> xs. j \<noteq> i])"
proof (induction xs)
  case Nil
  then show ?case by simp
next
  case (Cons x xs)
  show ?case
  proof (cases "x = i")
    case True
    with Cons.prems have "[j \<leftarrow> xs. j \<noteq> i] = xs"
      by (auto simp: filter_id_conv)
    with True show ?thesis by simp
  next
    case False
    with Cons show ?thesis by (simp add: xor_block_left_commute)
  qed
qed

lemma xsum_upd:
  assumes "distinct xs" "i \<in> set xs"
  shows "xsum (f(i := y)) xs = xor_block (xsum f xs) (xor_block (f i) y)"
proof -
  have "xsum (f(i := y)) [j \<leftarrow> xs. j \<noteq> i] = xsum f [j \<leftarrow> xs. j \<noteq> i]"
    by (rule xsum_cong) auto
  then show ?thesis
    using xsum_remove [OF assms(2,1), of f] xsum_remove [OF assms(2,1), of "f(i := y)"]
    by (auto intro!: block_eqI simp: xor.assoc xor.commute xor.left_commute)
qed

lemma xsum_upd_out: "i \<notin> set xs \<Longrightarrow> xsum (f(i := y)) xs = xsum f xs"
  by (rule xsum_cong) auto

lemma xsum_xor: "xsum (\<lambda>i. xor_block (f i) (g i)) xs = xor_block (xsum f xs) (xsum g xs)"
  by (induction xs) (auto simp: xor_block_ac)

text \<open>Loop ranges are handled by \<open>for_each_upt_rule\<close>, not by unrolling.\<close>

declare upt_Suc [simp del]

end
