(* ===== verification/Locks.thy ===== *)
theory Locks
  imports Kernel_Prelude
begin

text \<open>
  Spin locks (kernel/spinlock.c) and sleep locks (kernel/sleeplock.c) as one kernel thread
  executes them. The debugging field \<open>name\<close> of both locks is left out; the memory fences have no
  effect on a single thread. A lock that is held by somebody else makes the caller spin or sleep:
  the outcome is \<open>Blocked\<close>.
\<close>

section \<open>Interrupt nesting (struct cpu, push_off, pop_off)\<close>

text \<open>\<open>cid\<close> identifies the cpu (the value of \<open>mycpu()\<close>), \<open>intr\<close> is the interrupt enable bit of the
  hart that \<open>intr_get\<close>, \<open>intr_off\<close> and \<open>intr_on\<close> read and write.\<close>

record cpu =
  cid :: nat
  noff :: int
  intena :: bool
  intr :: bool

definition push_off :: "cpu \<Rightarrow> cpu" where
  "push_off c =
     (let old = intr c;
          c = c\<lparr>intr := False\<rparr>;
          c = (if noff c = 0 then c\<lparr>intena := old\<rparr> else c)
      in c\<lparr>noff := noff c + 1\<rparr>)"

definition pop_off :: "cpu \<Rightarrow> cpu result" where
  "pop_off c =
     (if intr c then Panic ''pop_off - interruptible''
      else if noff c < 1 then Panic ''pop_off''
      else let c = c\<lparr>noff := noff c - 1\<rparr>
           in Ok (if noff c = 0 \<and> intena c then c\<lparr>intr := True\<rparr> else c))"

section \<open>Spin locks\<close>

record spinlock =
  locked :: bool
  lcpu :: "nat option"

definition initlock :: "spinlock" where
  "initlock = \<lparr>locked = False, lcpu = None\<rparr>"

definition holding :: "spinlock \<Rightarrow> cpu \<Rightarrow> bool" where
  "holding l c \<longleftrightarrow> locked l \<and> lcpu l = Some (cid c)"

definition acquire :: "spinlock \<Rightarrow> cpu \<Rightarrow> (spinlock \<times> cpu) result" where
  "acquire l c =
     (let c = push_off c
      in if holding l c then Panic ''acquire''
         else if locked l then Blocked
         else Ok (l\<lparr>locked := True, lcpu := Some (cid c)\<rparr>, c))"

definition release :: "spinlock \<Rightarrow> cpu \<Rightarrow> (spinlock \<times> cpu) result" where
  "release l c =
     (if \<not> holding l c then Panic ''release''
      else let l = l\<lparr>lcpu := None, locked := False\<rparr>
           in bindR (pop_off c) (\<lambda>c. Ok (l, c)))"

section \<open>Sleep locks\<close>

record sleeplock =
  slocked :: bool
  lk :: spinlock
  spid :: int

definition initsleeplock :: sleeplock where
  "initsleeplock = \<lparr>slocked = False, lk = initlock, spid = 0\<rparr>"

definition acquiresleep :: "sleeplock \<Rightarrow> int \<Rightarrow> cpu \<Rightarrow> (sleeplock \<times> cpu) result" where
  "acquiresleep l pid c =
     bindR (acquire (lk l) c) (\<lambda>(k, c).
       if slocked l then Blocked
       else bindR (release k c) (\<lambda>(k, c).
         Ok (l\<lparr>slocked := True, spid := pid, lk := k\<rparr>, c)))"

definition releasesleep :: "sleeplock \<Rightarrow> cpu \<Rightarrow> (sleeplock \<times> cpu) result" where
  "releasesleep l c =
     bindR (acquire (lk l) c) (\<lambda>(k, c).
       bindR (release k c) (\<lambda>(k, c).
         Ok (l\<lparr>slocked := False, spid := 0, lk := k\<rparr>, c)))"

definition holdingsleep :: "sleeplock \<Rightarrow> int \<Rightarrow> cpu \<Rightarrow> (bool \<times> sleeplock \<times> cpu) result" where
  "holdingsleep l pid c =
     bindR (acquire (lk l) c) (\<lambda>(k, c).
       let r = (slocked l \<and> spid l = pid)
       in bindR (release k c) (\<lambda>(k, c). Ok (r, l\<lparr>lk := k\<rparr>, c)))"

section \<open>Facts the clients use\<close>

text \<open>
  A thread that runs a system call and holds no spin lock: interrupts are on, and the last
  outermost \<open>push_off\<close> (the one in \<open>myproc\<close>) saw them on.
\<close>

definition cpu_idle :: "cpu \<Rightarrow> bool" where
  "cpu_idle c \<longleftrightarrow> noff c = 0 \<and> intr c \<and> intena c"

definition spin_held :: "cpu \<Rightarrow> spinlock" where
  "spin_held c = \<lparr>locked = True, lcpu = Some (cid c)\<rparr>"

definition held_sleep :: "int \<Rightarrow> sleeplock" where
  "held_sleep pid = \<lparr>slocked = True, lk = initlock, spid = pid\<rparr>"

lemma pop_push_off:
  assumes "noff c \<ge> 0" "noff c = 0 \<or> \<not> intr c"
  shows "pop_off (push_off c) = Ok (c\<lparr>intena := (if noff c = 0 then intr c else intena c)\<rparr>)"
  using assms by (auto simp: pop_off_def push_off_def Let_def)

lemma pop_push_idle [simp]: "cpu_idle c \<Longrightarrow> pop_off (push_off c) = Ok c"
  by (simp add: pop_push_off cpu_idle_def)

lemma cid_push_off [simp]: "cid (push_off c) = cid c"
  by (simp add: push_off_def Let_def)

lemma acquire_free [simp]: "acquire initlock c = Ok (spin_held c, push_off c)"
  by (simp add: acquire_def initlock_def holding_def spin_held_def Let_def)

lemma release_held [simp]: "cpu_idle c \<Longrightarrow> release (spin_held c) (push_off c) = Ok (initlock, c)"
  by (simp add: release_def holding_def initlock_def spin_held_def Let_def)

lemma acquiresleep_free [simp]:
  "cpu_idle c \<Longrightarrow> acquiresleep initsleeplock pid c = Ok (held_sleep pid, c)"
  by (simp add: acquiresleep_def initsleeplock_def held_sleep_def)

lemma acquiresleep_held [simp]: "slocked l \<Longrightarrow> lk l = initlock \<Longrightarrow> acquiresleep l pid c = Blocked"
  by (simp add: acquiresleep_def)

lemma releasesleep_held [simp]:
  "cpu_idle c \<Longrightarrow> releasesleep (held_sleep pid) c = Ok (initsleeplock, c)"
  by (simp add: releasesleep_def initsleeplock_def held_sleep_def)

lemma holdingsleep_held [simp]:
  "cpu_idle c \<Longrightarrow> holdingsleep (held_sleep pid) pid' c = Ok (pid = pid', held_sleep pid, c)"
  by (simp add: holdingsleep_def held_sleep_def)

lemma holdingsleep_free [simp]:
  "cpu_idle c \<Longrightarrow> holdingsleep initsleeplock pid c = Ok (False, initsleeplock, c)"
  by (simp add: holdingsleep_def initsleeplock_def)

section \<open>Balanced interrupt nesting\<close>

text \<open>\<open>n\<close> nested \<open>push_off\<close> calls followed by \<open>n\<close> calls of \<open>pop_off\<close>.\<close>

primrec pop_offs :: "nat \<Rightarrow> cpu \<Rightarrow> cpu result" where
  "pop_offs 0 c = Ok c"
| "pop_offs (Suc n) c = bindR (pop_off c) (pop_offs n)"

lemma push_offs_fields:
  assumes "noff c = 0"
  shows "(push_off ^^ Suc n) c = c\<lparr>noff := int (Suc n), intena := intr c, intr := False\<rparr>"
  using assms by (induction n) (auto simp: push_off_def Let_def)

lemma pop_offs_nested:
  "pop_offs (Suc n) (c\<lparr>noff := int (Suc n), intena := b, intr := False\<rparr>)
     = Ok (c\<lparr>noff := 0, intena := b, intr := b\<rparr>)"
proof (induction n)
  case 0
  then show ?case by (simp add: pop_off_def Let_def)
next
  case (Suc n)
  have "pop_off (c\<lparr>noff := int (Suc (Suc n)), intena := b, intr := False\<rparr>)
          = Ok (c\<lparr>noff := int (Suc n), intena := b, intr := False\<rparr>)"
    by (simp add: pop_off_def Let_def)
  with Suc show ?case by simp
qed

text \<open>Interrupt nesting is balanced: \<open>n\<close> calls of \<open>push_off\<close> followed by \<open>n\<close> calls of \<open>pop_off\<close> (\<open>n > 0\<close>) never panic
  and give back the interrupt enable bit the hart had before the first one; in between interrupts are off.\<close>

theorem push_pop_balanced:
  assumes "noff c = 0"
  shows "pop_offs (Suc n) ((push_off ^^ Suc n) c) = Ok (c\<lparr>intena := intr c\<rparr>) \<and> \<not> intr ((push_off ^^ Suc n) c)"
proof -
  have "c\<lparr>noff := 0, intena := intr c, intr := intr c\<rparr> = c\<lparr>intena := intr c\<rparr>" using assms by simp
  then show ?thesis
    unfolding push_offs_fields [OF assms] using pop_offs_nested [where n = n and c = c and b = "intr c"] by simp
qed

theorem push_pop_balanced_witness:
  "pop_offs 3 ((push_off ^^ 3) \<lparr>cid = 0, noff = 0, intena = False, intr = True\<rparr>) =
     Ok \<lparr>cid = 0, noff = 0, intena = True, intr = True\<rparr>"
  using push_pop_balanced [of "\<lparr>cid = 0, noff = 0, intena = False, intr = True\<rparr>" 2]
  by (simp add: eval_nat_numeral)

text \<open>A sleep lock is exclusive: \<open>acquiresleep\<close> succeeds only on a free lock, records the owner, makes every further
  \<open>acquiresleep\<close> wait, leaves the hart as it was, and \<open>releasesleep\<close> frees the lock again.\<close>

theorem sleeplock_exclusive:
  assumes "cpu_idle c" "lk l = initlock" "acquiresleep l p c = Ok (l', c')"
  shows "\<not> slocked l \<and> c' = c \<and> slocked l' \<and> spid l' = p \<and> acquiresleep l' q c = Blocked \<and>
    releasesleep l' c = Ok (l\<lparr>slocked := False, spid := 0\<rparr>, c)"
proof -
  have free: "\<not> slocked l" using assms by (auto simp: acquiresleep_def split: if_splits)
  then have "l' = l\<lparr>slocked := True, spid := p\<rparr>" "c' = c"
    using assms by (auto simp: acquiresleep_def)
  with free assms(1,2) show ?thesis by (simp add: acquiresleep_def releasesleep_def)
qed

theorem sleeplock_exclusive_witness:
  "\<exists>l. acquiresleep initsleeplock 7 \<lparr>cid = 1, noff = 0, intena = True, intr = True\<rparr> =
     Ok (l, \<lparr>cid = 1, noff = 0, intena = True, intr = True\<rparr>) \<and> spid l = 7 \<and>
     acquiresleep l 8 \<lparr>cid = 1, noff = 0, intena = True, intr = True\<rparr> = Blocked"
proof -
  let ?c = "\<lparr>cid = 1, noff = 0, intena = True, intr = True\<rparr>"
  have c: "cpu_idle ?c" by (simp add: cpu_idle_def)
  then have a: "acquiresleep initsleeplock 7 ?c = Ok (held_sleep 7, ?c)" by simp
  show ?thesis
    using sleeplock_exclusive [OF c _ a, of 8] a by (auto simp: initsleeplock_def)
qed

end
