(* ===== verification/Kalloc.thy ===== *)
theory Kalloc
  imports Locks
begin

text \<open>
  The physical page allocator (kernel/kalloc.c). The free list is threaded through the free pages:
  \<open>nextp\<close> gives the first word of a page, the \<open>next\<close> field of its \<open>struct run\<close>. The rest of the
  page contents is not modelled; \<open>memset\<close> with a junk byte overwrites that first word.
  The address \<open>end\<close> is placed by the linker and is the argument \<open>kend\<close>.
\<close>

section \<open>Definitions\<close>

record kmem =
  klock :: spinlock
  freelist :: nat
  nextp :: "nat \<Rightarrow> nat"

definition PGSIZE :: nat where "PGSIZE = 4096"

definition PHYSTOP :: nat where "PHYSTOP = 0x80000000 + 32 * 1024 * 1024"

definition PGROUNDUP :: "nat \<Rightarrow> nat" where
  "PGROUNDUP sz = (sz + PGSIZE - 1) div PGSIZE * PGSIZE"

text \<open>The first word of a page filled with the byte \<open>c\<close>.\<close>

definition junk_word :: "nat \<Rightarrow> nat" where
  "junk_word c = c * 0x0101010101010101"

definition kfree :: "nat \<Rightarrow> nat \<Rightarrow> kmem \<Rightarrow> cpu \<Rightarrow> (kmem \<times> cpu) result" where
  "kfree kend pa k c =
     (if pa mod PGSIZE \<noteq> 0 \<or> pa < kend \<or> pa \<ge> PHYSTOP then Panic ''kfree''
      else let k = k\<lparr>nextp := (nextp k)(pa := junk_word 1)\<rparr>
           in bindR (acquire (klock k) c) (\<lambda>(l, c).
              let k = k\<lparr>nextp := (nextp k)(pa := freelist k), freelist := pa\<rparr>
              in bindR (release l c) (\<lambda>(l, c). Ok (k\<lparr>klock := l\<rparr>, c))))"

definition kalloc :: "kmem \<Rightarrow> cpu \<Rightarrow> (nat \<times> kmem \<times> cpu) result" where
  "kalloc k c =
     bindR (acquire (klock k) c) (\<lambda>(l, c).
       let r = freelist k;
           k = (if r \<noteq> 0 then k\<lparr>freelist := nextp k r\<rparr> else k)
       in bindR (release l c) (\<lambda>(l, c).
          let k = (if r \<noteq> 0 then k\<lparr>nextp := (nextp k)(r := junk_word 5)\<rparr> else k)
          in Ok (r, k\<lparr>klock := l\<rparr>, c)))"

function freerange_loop :: "nat \<Rightarrow> nat \<Rightarrow> nat \<Rightarrow> kmem \<times> cpu \<Rightarrow> (kmem \<times> cpu) result" where
  "freerange_loop kend p pa_end kc =
     (if p + PGSIZE \<le> pa_end
      then bindR (kfree kend p (fst kc) (snd kc)) (freerange_loop kend (p + PGSIZE) pa_end)
      else Ok kc)"
  by pat_completeness auto
termination
  by (relation "measure (\<lambda>(kend, p, pa_end, kc). pa_end - p)") (auto simp: PGSIZE_def)

declare freerange_loop.simps [simp del]

definition freerange :: "nat \<Rightarrow> nat \<Rightarrow> nat \<Rightarrow> kmem \<Rightarrow> cpu \<Rightarrow> (kmem \<times> cpu) result" where
  "freerange kend pa_start pa_end k c = freerange_loop kend (PGROUNDUP pa_start) pa_end (k, c)"

definition kinit :: "nat \<Rightarrow> kmem \<Rightarrow> cpu \<Rightarrow> (kmem \<times> cpu) result" where
  "kinit kend k c = freerange kend kend PHYSTOP (k\<lparr>klock := initlock\<rparr>) c"

section \<open>The free list as a list of pages\<close>

primrec run_list :: "(nat \<Rightarrow> nat) \<Rightarrow> nat \<Rightarrow> nat list \<Rightarrow> bool" where
  "run_list h p [] \<longleftrightarrow> p = 0"
| "run_list h p (x # xs) \<longleftrightarrow> p = x \<and> x \<noteq> 0 \<and> run_list h (h x) xs"

definition page_ok :: "nat \<Rightarrow> nat \<Rightarrow> bool" where
  "page_ok kend p \<longleftrightarrow> p mod PGSIZE = 0 \<and> kend \<le> p \<and> p < PHYSTOP \<and> 0 < p"

definition kmem_inv :: "nat \<Rightarrow> kmem \<Rightarrow> nat list \<Rightarrow> bool" where
  "kmem_inv kend k ps \<longleftrightarrow>
     klock k = initlock \<and> run_list (nextp k) (freelist k) ps \<and> distinct ps \<and>
     (\<forall>p \<in> set ps. page_ok kend p)"

lemma run_list_upd [simp]: "a \<notin> set ps \<Longrightarrow> run_list (h(a := v)) p ps = run_list h p ps"
  by (induction ps arbitrary: p) auto

lemma run_list_unique: "run_list h p xs \<Longrightarrow> run_list h p ys \<Longrightarrow> xs = ys"
proof (induction xs arbitrary: p ys)
  case Nil
  then show ?case by (cases ys) auto
next
  case (Cons x xs)
  then show ?case by (cases ys) auto
qed

text \<open>Allocation takes the first page; with an empty list it returns a null pointer.\<close>

definition kmem_taken :: "kmem \<Rightarrow> kmem" where
  "kmem_taken k = k\<lparr>freelist := nextp k (freelist k), nextp := (nextp k)(freelist k := junk_word 5)\<rparr>"

lemma kalloc_Cons:
  assumes "kmem_inv kend k (p # ps)" "cpu_idle c"
  shows "kalloc k c = Ok (p, kmem_taken k, c)" "kmem_inv kend (kmem_taken k) ps"
  using assms by (auto simp: kalloc_def kmem_inv_def kmem_taken_def Let_def)

lemma kalloc_Nil:
  assumes "kmem_inv kend k []" "cpu_idle c"
  shows "kalloc k c = Ok (0, k, c)"
  using assms by (auto simp: kalloc_def kmem_inv_def Let_def)

lemma kfree_push:
  assumes "kmem_inv kend k ps" "cpu_idle c" "page_ok kend p" "p \<notin> set ps"
  shows "\<exists>k'. kfree kend p k c = Ok (k', c) \<and> kmem_inv kend k' (p # ps)"
  using assms by (auto simp: kfree_def kmem_inv_def Let_def page_ok_def)

text \<open>Freeing the page that was allocated last gives back the allocator it was taken from.\<close>

lemma kfree_taken:
  assumes "kmem_inv kend k (p # ps)" "cpu_idle c"
  shows "kfree kend p (kmem_taken k) c = Ok (k, c)"
proof -
  have p: "freelist k = p" "page_ok kend p" "klock k = initlock"
    using assms by (auto simp: kmem_inv_def)
  then show ?thesis
    using assms(2) by (simp add: kfree_def kmem_taken_def Let_def page_ok_def)
qed

lemma kfree_double:
  assumes "pa mod PGSIZE \<noteq> 0 \<or> pa < kend \<or> PHYSTOP \<le> pa"
  shows "kfree kend pa k c = Panic ''kfree''"
  using assms by (auto simp: kfree_def)

text \<open>\<open>freerange\<close> pushes the pages from \<open>p\<close> up to \<open>PHYSTOP\<close>.\<close>

definition page_range :: "nat \<Rightarrow> nat list" where
  "page_range p = map (\<lambda>i. p + i * PGSIZE) [0..<(PHYSTOP - p) div PGSIZE]"

lemma page_range_step:
  assumes "p + PGSIZE \<le> PHYSTOP"
  shows "page_range p = p # page_range (p + PGSIZE)"
proof -
  let ?n = "(PHYSTOP - (p + PGSIZE)) div PGSIZE"
  have "PHYSTOP - (p + PGSIZE) + PGSIZE = PHYSTOP - p" using assms by simp
  moreover have "(PHYSTOP - (p + PGSIZE) + PGSIZE) div PGSIZE = Suc ?n" by (simp add: PGSIZE_def)
  ultimately have n: "(PHYSTOP - p) div PGSIZE = Suc ?n" by (simp only:)
  have "[0..<Suc ?n] = 0 # map Suc [0..<?n]" by (simp add: upt_conv_Cons map_Suc_upt)
  then show ?thesis by (simp add: page_range_def n comp_def add.assoc)
qed

lemma page_range_last: "\<not> p + PGSIZE \<le> PHYSTOP \<Longrightarrow> page_range p = []"
  by (simp add: page_range_def PGSIZE_def)

lemma freerange_loop_Ok:
  assumes "kmem_inv kend k ps" "cpu_idle c" "p mod PGSIZE = 0" "kend \<le> p" "0 < p" "\<And>q. q \<in> set ps \<Longrightarrow> q < p"
  shows "\<exists>k'. freerange_loop kend p PHYSTOP (k, c) = Ok (k', c) \<and> kmem_inv kend k' (rev (page_range p) @ ps)"
  using assms
proof (induction "PHYSTOP - p" arbitrary: p k ps rule: less_induct)
  case less
  show ?case
  proof (cases "p + PGSIZE \<le> PHYSTOP")
    case False
    with less.prems show ?thesis by (simp add: freerange_loop.simps page_range_last)
  next
    case True
    have pg: "page_ok kend p" using True less.prems by (simp add: page_ok_def PGSIZE_def)
    have "p \<notin> set ps" using less.prems(6) by blast
    with kfree_push [OF less.prems(1,2) pg] obtain k' where k': "kfree kend p k c = Ok (k', c)" "kmem_inv kend k' (p # ps)"
      by blast
    have "\<exists>k''. freerange_loop kend (p + PGSIZE) PHYSTOP (k', c) = Ok (k'', c) \<and>
        kmem_inv kend k'' (rev (page_range (p + PGSIZE)) @ p # ps)"
      using True less.prems k'(2)
      by (intro less.hyps) (auto simp: PGSIZE_def less_Suc_eq dest!: less.prems(6))
    then show ?thesis
      using True k'(1) by (subst freerange_loop.simps) (auto simp: page_range_step)
  qed
qed

lemma PGROUNDUP_props: "PGROUNDUP x mod PGSIZE = 0" "x \<le> PGROUNDUP x"
proof -
  show "PGROUNDUP x mod PGSIZE = 0" by (simp add: PGROUNDUP_def)
  have "x + PGSIZE - 1 < (x + PGSIZE - 1) div PGSIZE * PGSIZE + PGSIZE"
    using dividend_less_div_times [of PGSIZE "x + PGSIZE - 1"] by (simp add: PGSIZE_def)
  then show "x \<le> PGROUNDUP x" by (simp add: PGROUNDUP_def PGSIZE_def)
qed

section \<open>Properties\<close>



text \<open>\<open>kalloc\<close> hands out a page of the free list, aligned and inside the memory of the machine, which is then no longer
  on the list; freeing it again puts it back. With an empty list \<open>kalloc\<close> returns a null pointer and changes nothing.\<close>

theorem kalloc_kfree:
  assumes "kmem_inv kend k ps" "cpu_idle c"
  shows "case ps of [] \<Rightarrow> kalloc k c = Ok (0, k, c)
     | p # qs \<Rightarrow> (\<exists>k'. kalloc k c = Ok (p, k', c) \<and> page_ok kend p \<and> p \<notin> set qs \<and> kmem_inv kend k' qs \<and>
                     kfree kend p k' c = Ok (k, c))"
proof (cases ps)
  case Nil
  with assms show ?thesis by (simp add: kalloc_Nil)
next
  case (Cons p qs)
  have inv: "kmem_inv kend k (p # qs)" using assms(1) Cons by simp
  then have "page_ok kend p" "p \<notin> set qs" by (auto simp: kmem_inv_def)
  with kalloc_Cons [OF inv assms(2)] kfree_taken [OF inv assms(2)] Cons show ?thesis by auto
qed

theorem kalloc_kfree_witness:
  "\<exists>k'. kalloc \<lparr>klock = initlock, freelist = 0x80030000, nextp = (\<lambda>_. 0)\<rparr> \<lparr>cid = 0, noff = 0, intena = True, intr = True\<rparr>
     = Ok (0x80030000, k', \<lparr>cid = 0, noff = 0, intena = True, intr = True\<rparr>) \<and> kmem_inv 0x80021000 k' []"
proof -
  have "kmem_inv 0x80021000 \<lparr>klock = initlock, freelist = 0x80030000, nextp = (\<lambda>_. 0)\<rparr> [0x80030000]"
    by (simp add: kmem_inv_def page_ok_def PGSIZE_def PHYSTOP_def)
  moreover have "cpu_idle \<lparr>cid = 0, noff = 0, intena = True, intr = True\<rparr>" by (simp add: cpu_idle_def)
  ultimately show ?thesis using kalloc_kfree by fastforce
qed

end
