(* ===== verification/Raid_Meta.thy ===== *)
theory Raid_Meta
  imports Kalloc
begin

text \<open>
  The data of the RAID layer (kernel/raid.h), the kernel state its functions work on, block
  transfers (\<open>read_block\<close>, \<open>write_block\<close> of kernel/virtio_disk.c), the locks of single disks, the
  capacity of an array and the metadata block (\<open>writeraidmeta\<close> of kernel/raid.c).
\<close>

section \<open>struct RAIDMeta\<close>

datatype RAID_TYPE = RAID0 | RAID1 | RAID0_1 | RAID4 | RAID5

record DiskInfo =
  valid :: bool
  diskn :: nat
  dlock :: sleeplock

text \<open>A pointer to a \<open>struct DiskInfo\<close> of the array \<open>raidmeta.diskinfo\<close> is its index.\<close>

record DiskPair =
  mutex :: spinlock
  pdisk :: "nat \<Rightarrow> nat"
  writing :: bool
  reading :: "nat \<Rightarrow> bool"

text \<open>\<open>struct RAID4Data\<close> and \<open>struct RAID5Data\<close> have the same fields.\<close>

record ParityData =
  cluster_loaded :: "nat \<Rightarrow> bool"
  clusterlock :: sleeplock
  repairlock :: spinlock
  writecount :: int
  repairing :: int

text \<open>The union \<open>data\<close>; reading it as a variant it does not hold is outside the model.\<close>

datatype RAIDData =
    RAID0Data
  | RAID1Data "nat \<Rightarrow> DiskPair"
  | RAID0_1Data "nat \<Rightarrow> DiskPair"
  | RAID4Data ParityData
  | RAID5Data ParityData

text \<open>The function pointers \<open>read\<close> and \<open>write\<close> are entries of \<open>readtable\<close> and \<open>writetable\<close>, named by
  their index, or null.\<close>

record RAIDMeta =
  rtype :: RAID_TYPE
  diskinfo :: "nat \<Rightarrow> DiskInfo"
  isDestroyed :: bool
  rdata :: RAIDData
  mread :: "RAID_TYPE option"
  mwrite :: "RAID_TYPE option"

section \<open>Platform and kernel state\<close>

text \<open>
  What the build and the compiler fix: the macro \<open>DISKS\<close> (Makefile), the bytes of a
  \<open>struct RAIDMeta\<close> in memory and back (the layout of the struct is the ABI's, the addresses of the
  functions and names it points to are the linker's), and the address \<open>end\<close>.
\<close>

record platform =
  DISKS :: nat
  meta_bytes :: "RAIDMeta \<Rightarrow> byte list"
  meta_of_bytes :: "byte list \<Rightarrow> RAIDMeta"
  kernel_end :: nat

record tbuffer =
  blockno :: nat
  bdata :: block

record kstate =
  hart :: cpu
  pid :: int
  kmem :: kmem
  raidmeta :: RAIDMeta
  disks :: "nat \<Rightarrow> nat \<Rightarrow> block"
  tbuf :: "nat \<Rightarrow> tbuffer"

definition DISK_SIZE_BYTES :: nat where "DISK_SIZE_BYTES = 8 * 1024 * 1024"

definition CLUSTER_SIZE :: nat where "CLUSTER_SIZE = 128"

definition NCLUSTERS :: nat where "NCLUSTERS = DISK_SIZE_BYTES div BSIZE div CLUSTER_SIZE"

definition diskblockn :: nat where "diskblockn = DISK_SIZE_BYTES div BSIZE - 1"

section \<open>Block transfers\<close>

text \<open>
  The device side of a request: a disk is an array of \<open>DISK_SIZE_BYTES / BSIZE\<close> blocks that
  keeps what was written last. There are transfer buffers for the disks 1 to \<open>DISKS\<close> only.
\<close>

definition device_ok :: "platform \<Rightarrow> nat \<Rightarrow> nat \<Rightarrow> bool" where
  "device_ok E d b \<longleftrightarrow> 1 \<le> d \<and> d \<le> DISKS E \<and> b < DISK_SIZE_BYTES div BSIZE"

definition write_block :: "platform \<Rightarrow> nat \<Rightarrow> nat \<Rightarrow> block \<Rightarrow> kstate \<Rightarrow> kstate result" where
  "write_block E d b data s =
     (if \<not> device_ok E d b then Fault
      else let s = s\<lparr>tbuf := (tbuf s)(d := \<lparr>blockno = b, bdata = take BSIZE data\<rparr>)\<rparr>
           in Ok (s\<lparr>disks := (disks s)(d := (disks s d)(b := bdata (tbuf s d)))\<rparr>))"

definition read_block :: "platform \<Rightarrow> nat \<Rightarrow> nat \<Rightarrow> kstate \<Rightarrow> (block \<times> kstate) result" where
  "read_block E d b s =
     (if \<not> device_ok E d b then Fault
      else let s = s\<lparr>tbuf := (tbuf s)(d := \<lparr>blockno = b, bdata = disks s d b\<rparr>)\<rparr>
           in Ok (bdata (tbuf s d), s))"

section \<open>Disk locks\<close>

definition set_disk :: "nat \<Rightarrow> DiskInfo \<Rightarrow> kstate \<Rightarrow> kstate" where
  "set_disk i d s = s\<lparr>raidmeta := (raidmeta s)\<lparr>diskinfo := (diskinfo (raidmeta s))(i := d)\<rparr>\<rparr>"

definition acquire_disk :: "nat \<Rightarrow> kstate \<Rightarrow> kstate result" where
  "acquire_disk i s =
     bindR (acquiresleep (dlock (diskinfo (raidmeta s) i)) (pid s) (hart s)) (\<lambda>(l, c).
       Ok ((set_disk i ((diskinfo (raidmeta s) i)\<lparr>dlock := l\<rparr>) s)\<lparr>hart := c\<rparr>))"

definition release_disk :: "nat \<Rightarrow> kstate \<Rightarrow> kstate result" where
  "release_disk i s =
     bindR (releasesleep (dlock (diskinfo (raidmeta s) i)) (hart s)) (\<lambda>(l, c).
       Ok ((set_disk i ((diskinfo (raidmeta s) i)\<lparr>dlock := l\<rparr>) s)\<lparr>hart := c\<rparr>))"

text \<open>The loops \<open>for (int i = 0; i < DISKS; i++) acquiresleep(&raidmeta.diskinfo[i].lock)\<close> and
  \<open>releasesleep\<close>, which many functions contain.\<close>

definition acquire_disks :: "platform \<Rightarrow> kstate \<Rightarrow> kstate result" where
  "acquire_disks E = for_each acquire_disk [0..<DISKS E]"

definition release_disks :: "platform \<Rightarrow> kstate \<Rightarrow> kstate result" where
  "release_disks E = for_each release_disk [0..<DISKS E]"

section \<open>Capacity and metadata block\<close>

definition raidblockn :: "platform \<Rightarrow> RAIDMeta \<Rightarrow> nat" where
  "raidblockn E m =
     (case rtype m of
        RAID0 \<Rightarrow> diskblockn * DISKS E
      | RAID1 \<Rightarrow> diskblockn * ((DISKS E + 1) div 2)
      | RAID0_1 \<Rightarrow> diskblockn * (DISKS E div 2)
      | RAID4 \<Rightarrow> diskblockn * (DISKS E - 1)
      | RAID5 \<Rightarrow> diskblockn * (DISKS E - 1))"

text \<open>The guard \<open>vblkn < 0 || vblkn >= raidblockn()\<close> at the head of every read and write.\<close>

definition bad_block :: "platform \<Rightarrow> RAIDMeta \<Rightarrow> int \<Rightarrow> bool" where
  "bad_block E m vblkn \<longleftrightarrow> vblkn < 0 \<or> vblkn \<ge> int (raidblockn E m)"

lemma bad_block_int [simp]: "bad_block E m (int v) \<longleftrightarrow> raidblockn E m \<le> v"
  by (simp add: bad_block_def)

text \<open>\<open>uchar data[BSIZE] = {0}; memmove(data, &raidmeta, sizeof(raidmeta))\<close>\<close>

definition meta_block :: "platform \<Rightarrow> RAIDMeta \<Rightarrow> block" where
  "meta_block E m = meta_bytes E m @ drop (length (meta_bytes E m)) zero_block"

definition writemeta_disk :: "platform \<Rightarrow> nat \<Rightarrow> kstate \<Rightarrow> kstate result" where
  "writemeta_disk E i s =
     (if valid (diskinfo (raidmeta s) i)
      then write_block E i diskblockn (meta_block E (raidmeta s)) s
      else Ok s)"

definition writeraidmeta :: "platform \<Rightarrow> kstate \<Rightarrow> kstate result" where
  "writeraidmeta E s =
     bindR (acquire_disks E s) (\<lambda>s.
       bindR (for_each (writemeta_disk E) [1..<DISKS E + 1] s) (release_disks E))"

section \<open>Facts about transfers and locks\<close>

lemma nblocks: "DISK_SIZE_BYTES div BSIZE = 8192"
  by (simp add: DISK_SIZE_BYTES_def BSIZE_def)

lemma diskblockn_val: "diskblockn = 8191"
  by (simp add: diskblockn_def nblocks)

lemma NCLUSTERS_val: "NCLUSTERS = 64"
  by (simp add: NCLUSTERS_def nblocks CLUSTER_SIZE_def)

lemma device_okI [intro]: "1 \<le> d \<Longrightarrow> d \<le> DISKS E \<Longrightarrow> b \<le> diskblockn \<Longrightarrow> device_ok E d b"
  by (simp add: device_ok_def nblocks diskblockn_val)

lemma device_ok_Suc: "i < DISKS E \<Longrightarrow> b \<le> diskblockn \<Longrightarrow> device_ok E (Suc i) b"
  by (rule device_okI) auto

lemma write_block_Ok:
  "device_ok E d b \<Longrightarrow> is_block data \<Longrightarrow>
   write_block E d b data s =
     Ok (s\<lparr>disks := (disks s)(d := (disks s d)(b := data)),
           tbuf := (tbuf s)(d := \<lparr>blockno = b, bdata = data\<rparr>)\<rparr>)"
  by (simp add: write_block_def is_block_def Let_def)

lemma read_block_Ok:
  "device_ok E d b \<Longrightarrow>
   read_block E d b s =
     Ok (disks s d b, s\<lparr>tbuf := (tbuf s)(d := \<lparr>blockno = b, bdata = disks s d b\<rparr>)\<rparr>)"
  by (simp add: read_block_def Let_def)

lemma kstate_same [simp]:
  "hart s = c \<Longrightarrow> s\<lparr>hart := c\<rparr> = s" "kmem s = k \<Longrightarrow> s\<lparr>kmem := k\<rparr> = s"
  "raidmeta s = m \<Longrightarrow> s\<lparr>raidmeta := m\<rparr> = s"
  by auto

text \<open>What the build must provide, and the state of disks and locks between system calls.\<close>

definition platform_ok :: "platform \<Rightarrow> bool" where
  "platform_ok E \<longleftrightarrow> 1 \<le> DISKS E \<and> DISKS E \<le> 8 \<and> (\<forall>m. length (meta_bytes E m) \<le> BSIZE)"

definition base_ok :: "platform \<Rightarrow> kstate \<Rightarrow> bool" where
  "base_ok E s \<longleftrightarrow>
     platform_ok E \<and> cpu_idle (hart s) \<and>
     (\<forall>i \<le> DISKS E. dlock (diskinfo (raidmeta s) i) = initsleeplock) \<and>
     (\<forall>i < DISKS E. diskn (diskinfo (raidmeta s) i) = Suc i) \<and>
     \<not> valid (diskinfo (raidmeta s) (DISKS E)) \<and>
     (\<forall>d b. is_block (disks s d b))"

lemma base_okD:
  assumes "base_ok E s"
  shows "platform_ok E" "cpu_idle (hart s)"
    "\<And>i. i \<le> DISKS E \<Longrightarrow> dlock (diskinfo (raidmeta s) i) = initsleeplock"
    "\<And>i. i < DISKS E \<Longrightarrow> diskn (diskinfo (raidmeta s) i) = Suc i"
    "\<not> valid (diskinfo (raidmeta s) (DISKS E))"
    "\<And>d b. is_block (disks s d b)" "1 \<le> DISKS E" "DISKS E \<le> 8"
  using assms by (auto simp: base_ok_def platform_ok_def)

definition lock_all :: "platform \<Rightarrow> int \<Rightarrow> RAIDMeta \<Rightarrow> RAIDMeta" where
  "lock_all E p m = m\<lparr>diskinfo := (\<lambda>i. if i < DISKS E then (diskinfo m i)\<lparr>dlock := held_sleep p\<rparr>
                                       else diskinfo m i)\<rparr>"

definition unlock_all :: "platform \<Rightarrow> RAIDMeta \<Rightarrow> RAIDMeta" where
  "unlock_all E m = m\<lparr>diskinfo := (\<lambda>i. if i < DISKS E then (diskinfo m i)\<lparr>dlock := initsleeplock\<rparr>
                                       else diskinfo m i)\<rparr>"

lemma lock_all_simps [simp]:
  "rtype (lock_all E p m) = rtype m" "isDestroyed (lock_all E p m) = isDestroyed m"
  "rdata (lock_all E p m) = rdata m" "mread (lock_all E p m) = mread m"
  "mwrite (lock_all E p m) = mwrite m"
  "valid (diskinfo (lock_all E p m) i) = valid (diskinfo m i)"
  "diskn (diskinfo (lock_all E p m) i) = diskn (diskinfo m i)"
  "i < DISKS E \<Longrightarrow> dlock (diskinfo (lock_all E p m) i) = held_sleep p"
  "raidblockn E (lock_all E p m) = raidblockn E m"
  by (simp_all add: lock_all_def raidblockn_def)

lemma unlock_lock_all [simp]:
  assumes "\<And>i. i < DISKS E \<Longrightarrow> dlock (diskinfo m i) = initsleeplock"
  shows "unlock_all E (lock_all E p m) = m"
proof -
  have "(\<lambda>i. if i < DISKS E then (diskinfo (lock_all E p m) i)\<lparr>dlock := initsleeplock\<rparr>
             else diskinfo (lock_all E p m) i) = diskinfo m"
    using assms by (auto simp: lock_all_def)
  then have "unlock_all E (lock_all E p m) = (lock_all E p m)\<lparr>diskinfo := diskinfo m\<rparr>"
    by (simp add: unlock_all_def)
  then show ?thesis by (simp add: lock_all_def)
qed

lemma acquire_disks_Ok:
  assumes "cpu_idle (hart s)" "\<And>i. i < DISKS E \<Longrightarrow> dlock (diskinfo (raidmeta s) i) = initsleeplock"
  shows "acquire_disks E s = Ok (s\<lparr>raidmeta := lock_all E (pid s) (raidmeta s)\<rparr>)"
proof -
  let ?m = "\<lambda>k. (raidmeta s)\<lparr>diskinfo := (\<lambda>i. if i < k
     then (diskinfo (raidmeta s) i)\<lparr>dlock := held_sleep (pid s)\<rparr> else diskinfo (raidmeta s) i)\<rparr>"
  let ?I = "\<lambda>k t. t = s\<lparr>raidmeta := ?m k\<rparr>"
  have "\<exists>s'. for_each acquire_disk [0..<DISKS E] s = Ok s' \<and> ?I (DISKS E) s'"
  proof (rule for_each_upt_rule [where I = ?I])
    fix k t
    assume k: "k < DISKS E" and t: "t = s\<lparr>raidmeta := ?m k\<rparr>"
    have "(\<lambda>i. if i < k then (diskinfo (raidmeta s) i)\<lparr>dlock := held_sleep (pid s)\<rparr>
             else diskinfo (raidmeta s) i)
          (k := (diskinfo (raidmeta s) k)\<lparr>dlock := held_sleep (pid s)\<rparr>)
        = (\<lambda>i. if i < Suc k then (diskinfo (raidmeta s) i)\<lparr>dlock := held_sleep (pid s)\<rparr>
             else diskinfo (raidmeta s) i)"
      by (auto simp: less_Suc_eq)
    with k show "\<exists>s'. acquire_disk k t = Ok s' \<and> s' = s\<lparr>raidmeta := ?m (Suc k)\<rparr>"
      using assms by (simp add: t acquire_disk_def set_disk_def)
  qed simp_all
  then show ?thesis
    by (simp add: acquire_disks_def lock_all_def)
qed

lemma release_disks_Ok:
  assumes "cpu_idle (hart s)" "\<And>i. i < DISKS E \<Longrightarrow> dlock (diskinfo (raidmeta s) i) = held_sleep (pid s)"
  shows "release_disks E s = Ok (s\<lparr>raidmeta := unlock_all E (raidmeta s)\<rparr>)"
proof -
  let ?m = "\<lambda>k. (raidmeta s)\<lparr>diskinfo := (\<lambda>i. if i < k
     then (diskinfo (raidmeta s) i)\<lparr>dlock := initsleeplock\<rparr> else diskinfo (raidmeta s) i)\<rparr>"
  let ?I = "\<lambda>k t. t = s\<lparr>raidmeta := ?m k\<rparr>"
  have "\<exists>s'. for_each release_disk [0..<DISKS E] s = Ok s' \<and> ?I (DISKS E) s'"
  proof (rule for_each_upt_rule [where I = ?I])
    fix k t
    assume k: "k < DISKS E" and t: "t = s\<lparr>raidmeta := ?m k\<rparr>"
    have "(\<lambda>i. if i < k then (diskinfo (raidmeta s) i)\<lparr>dlock := initsleeplock\<rparr>
             else diskinfo (raidmeta s) i)
          (k := (diskinfo (raidmeta s) k)\<lparr>dlock := initsleeplock\<rparr>)
        = (\<lambda>i. if i < Suc k then (diskinfo (raidmeta s) i)\<lparr>dlock := initsleeplock\<rparr>
             else diskinfo (raidmeta s) i)"
      by (auto simp: less_Suc_eq)
    with k show "\<exists>s'. release_disk k t = Ok s' \<and> s' = s\<lparr>raidmeta := ?m (Suc k)\<rparr>"
      using assms by (simp add: t release_disk_def set_disk_def)
  qed simp_all
  then show ?thesis
    by (simp add: release_disks_def unlock_all_def)
qed

section \<open>Effect of writeraidmeta\<close>

text \<open>The disks after the metadata was written: block \<open>diskblockn()\<close> of disk \<open>d\<close> is replaced when
  entry \<open>d\<close> of \<open>diskinfo\<close> is valid.\<close>

definition meta_disks :: "platform \<Rightarrow> int \<Rightarrow> RAIDMeta \<Rightarrow> (nat \<Rightarrow> nat \<Rightarrow> block) \<Rightarrow> nat \<Rightarrow> nat \<Rightarrow> block" where
  "meta_disks E p m ds = (\<lambda>d b. if b = diskblockn \<and> 1 \<le> d \<and> d \<le> DISKS E \<and> valid (diskinfo m d)
                              then meta_block E (lock_all E p m) else ds d b)"

lemma is_block_meta [simp]: "platform_ok E \<Longrightarrow> is_block (meta_block E m)"
  by (simp add: platform_ok_def is_block_def meta_block_def zero_block_def)

lemma writemeta_loop:
  assumes "platform_ok E" and D: "1 \<le> DISKS E"
  shows "\<exists>T. for_each (writemeta_disk E) [1..<DISKS E + 1] s =
    Ok (s\<lparr>disks := (\<lambda>d b. if b = diskblockn \<and> 1 \<le> d \<and> d \<le> DISKS E \<and> valid (diskinfo (raidmeta s) d)
                          then meta_block E (raidmeta s) else disks s d b), tbuf := T\<rparr>)"
proof -
  let ?ds = "\<lambda>k. \<lambda>d b. if b = diskblockn \<and> 1 \<le> d \<and> d < k \<and> valid (diskinfo (raidmeta s) d)
                          then meta_block E (raidmeta s) else disks s d b"
  let ?I = "\<lambda>k t. \<exists>T. t = s\<lparr>disks := ?ds k, tbuf := T\<rparr>"
  have "\<exists>s'. for_each (writemeta_disk E) [1..<DISKS E + 1] s = Ok s' \<and> ?I (DISKS E + 1) s'"
  proof (rule for_each_upt_rule [where I = ?I])
    have "disks s = ?ds 1" by (auto simp: fun_eq_iff)
    then show "?I 1 s" by (metis kstate.surjective kstate.update_convs(5) kstate.update_convs(6))
  next
    fix k t
    assume k: "1 \<le> k" "k < DISKS E + 1" and "?I k t"
    then obtain T where t: "t = s\<lparr>disks := ?ds k, tbuf := T\<rparr>" by blast
    show "\<exists>s'. writemeta_disk E k t = Ok s' \<and> ?I (Suc k) s'"
    proof (cases "valid (diskinfo (raidmeta s) k)")
      case True
      have "(?ds k)(k := (?ds k k)(diskblockn := meta_block E (raidmeta s))) = ?ds (Suc k)"
        using True k by (auto simp: fun_eq_iff)
      moreover have "device_ok E k diskblockn" using k by auto
      ultimately show ?thesis
        using True assms by (simp add: t writemeta_disk_def write_block_Ok) blast
    next
      case False
      have "?ds k = ?ds (Suc k)" using False by (auto simp: fun_eq_iff less_Suc_eq)
      with False show ?thesis by (simp add: t writemeta_disk_def) blast
    qed
  qed simp
  then show ?thesis by (auto simp: less_Suc_eq_le)
qed

lemma writeraidmeta_Ok:
  assumes "base_ok E s"
  shows "\<exists>T. writeraidmeta E s =
    Ok (s\<lparr>disks := meta_disks E (pid s) (raidmeta s) (disks s), tbuf := T\<rparr>)"
proof -
  note b = base_okD [OF assms]
  let ?s1 = "s\<lparr>raidmeta := lock_all E (pid s) (raidmeta s)\<rparr>"
  have "acquire_disks E s = Ok ?s1" using b by (simp add: acquire_disks_Ok)
  moreover obtain T where
    "for_each (writemeta_disk E) [1..<DISKS E + 1] ?s1 =
       Ok (?s1\<lparr>disks := meta_disks E (pid s) (raidmeta s) (disks s), tbuf := T\<rparr>)"
    using writemeta_loop [OF b(1) b(7), of ?s1] by (auto simp: meta_disks_def cong: if_cong)
  ultimately show ?thesis
    using b by (auto simp: writeraidmeta_def release_disks_Ok)
qed

end
