(* ===== verification/Raid_Pair.thy ===== *)
theory Raid_Pair
  imports Raid_Meta
begin

text \<open>
  Mirrored disk pairs: \<open>readdiskpair\<close> and \<open>writediskpair\<close> of kernel/raid.c as one thread executes
  them. The loops \<open>while (1) { ... sleep ... }\<close> re-examine the same conditions after each wakeup;
  when a condition makes the thread sleep the outcome is \<open>Blocked\<close>. The theory
  \<open>Pair_Protocol\<close> treats several threads.
\<close>

section \<open>Definitions\<close>

text \<open>\<open>&raiddata->diskpair[k]\<close>: \<open>struct RAID1Data\<close> and \<open>struct RAID0_1Data\<close> both start with the
  array of pairs.\<close>

definition get_pair :: "RAIDMeta \<Rightarrow> nat \<Rightarrow> DiskPair result" where
  "get_pair m k = (case rdata m of RAID1Data P \<Rightarrow> Ok (P k) | RAID0_1Data P \<Rightarrow> Ok (P k) | _ \<Rightarrow> Fault)"

definition set_pair :: "nat \<Rightarrow> DiskPair \<Rightarrow> kstate \<Rightarrow> kstate" where
  "set_pair k dp s =
     s\<lparr>raidmeta := (raidmeta s)\<lparr>rdata :=
        (case rdata (raidmeta s) of
           RAID1Data P \<Rightarrow> RAID1Data (P(k := dp))
         | RAID0_1Data P \<Rightarrow> RAID0_1Data (P(k := dp))
         | d \<Rightarrow> d)\<rparr>\<rparr>"

definition acquire_mutex :: "nat \<Rightarrow> kstate \<Rightarrow> (DiskPair \<times> kstate) result" where
  "acquire_mutex k s =
     bindR (get_pair (raidmeta s) k) (\<lambda>dp.
       bindR (acquire (mutex dp) (hart s)) (\<lambda>(l, c).
         let dp = dp\<lparr>mutex := l\<rparr> in Ok (dp, set_pair k dp (s\<lparr>hart := c\<rparr>))))"

definition release_mutex :: "nat \<Rightarrow> DiskPair \<Rightarrow> kstate \<Rightarrow> kstate result" where
  "release_mutex k dp s =
     bindR (release (mutex dp) (hart s)) (\<lambda>(l, c).
       Ok (set_pair k (dp\<lparr>mutex := l\<rparr>) (s\<lparr>hart := c\<rparr>)))"

definition readdiskpair :: "platform \<Rightarrow> nat \<Rightarrow> nat \<Rightarrow> block \<Rightarrow> kstate \<Rightarrow> (u64 \<times> block \<times> kstate) result" where
  "readdiskpair E k pblkn data s =
     bindR (acquire_mutex k s) (\<lambda>(dp, s).
       let disk = (\<lambda>i. diskinfo (raidmeta s) (pdisk dp i))
       in if \<not> valid (disk 0) \<and> \<not> valid (disk 1)
          then bindR (release_mutex k dp s) (\<lambda>s. Ok (- 1, data, s))
          else if writing dp then Blocked
          else case find (\<lambda>i. \<not> reading dp i \<and> valid (disk i)) [0, 1] of
            None \<Rightarrow> Blocked
          | Some i \<Rightarrow>
              bindR (release_mutex k (dp\<lparr>reading := (reading dp)(i := True)\<rparr>) s) (\<lambda>s.
              let n = diskn (diskinfo (raidmeta s) (pdisk dp i))
              in bindR (acquire_disk (pdisk dp i) s) (\<lambda>s.
              bindR (read_block E n pblkn s) (\<lambda>(data, s).
              bindR (release_disk (pdisk dp i) s) (\<lambda>s.
              bindR (acquire_mutex k s) (\<lambda>(dp, s).
              bindR (release_mutex k (dp\<lparr>reading := (reading dp)(i := False)\<rparr>) s) (\<lambda>s.
              Ok (0, data, s))))))))"

text \<open>\<open>write_block\<close> on each valid disk of the pair.\<close>

definition write_mirror :: "platform \<Rightarrow> DiskPair \<Rightarrow> nat \<Rightarrow> block \<Rightarrow> nat \<Rightarrow> kstate \<Rightarrow> kstate result" where
  "write_mirror E dp pblkn data i s =
     (let d = diskinfo (raidmeta s) (pdisk dp i)
      in if valid d then write_block E (diskn d) pblkn data s else Ok s)"

definition writediskpair :: "platform \<Rightarrow> nat \<Rightarrow> nat \<Rightarrow> block \<Rightarrow> kstate \<Rightarrow> (u64 \<times> kstate) result" where
  "writediskpair E k pblkn data s =
     bindR (acquire_mutex k s) (\<lambda>(dp, s).
       let disk = (\<lambda>i. diskinfo (raidmeta s) (pdisk dp i))
       in if \<not> valid (disk 0) \<and> \<not> valid (disk 1)
          then bindR (release_mutex k dp s) (\<lambda>s. Ok (- 1, s))
          else if writing dp then Blocked
          else if reading dp 0 \<or> reading dp 1 then Blocked
          else
            bindR (release_mutex k (dp\<lparr>writing := True\<rparr>) s) (\<lambda>s.
            bindR (for_each (\<lambda>i. acquire_disk (pdisk dp i)) [0, 1] s) (\<lambda>s.
            bindR (for_each (write_mirror E dp pblkn data) [0, 1] s) (\<lambda>s.
            bindR (for_each (\<lambda>i. release_disk (pdisk dp i)) [0, 1] s) (\<lambda>s.
            bindR (acquire_mutex k s) (\<lambda>(dp, s).
            bindR (release_mutex k (dp\<lparr>writing := False\<rparr>) s) (\<lambda>s.
            Ok (0, s))))))))"

section \<open>Effect on an idle pair\<close>

definition pair_idle :: "DiskPair \<Rightarrow> nat \<Rightarrow> nat \<Rightarrow> bool" where
  "pair_idle dp i j \<longleftrightarrow>
     mutex dp = initlock \<and> pdisk dp 0 = i \<and> pdisk dp 1 = j \<and> \<not> writing dp \<and> (\<forall>n. \<not> reading dp n)"

lemma get_set_pair [simp]:
  "get_pair (raidmeta s) k = Ok dp0 \<Longrightarrow> get_pair (raidmeta (set_pair k dp s)) k = Ok dp"
  by (auto simp: get_pair_def set_pair_def split: RAIDData.splits)

lemma set_pair_simps [simp]:
  "hart (set_pair k dp s) = hart s" "pid (set_pair k dp s) = pid s" "kmem (set_pair k dp s) = kmem s"
  "disks (set_pair k dp s) = disks s" "tbuf (set_pair k dp s) = tbuf s"
  "diskinfo (raidmeta (set_pair k dp s)) = diskinfo (raidmeta s)"
  "rtype (raidmeta (set_pair k dp s)) = rtype (raidmeta s)"
  "set_pair k dp (s\<lparr>hart := c\<rparr>) = (set_pair k dp s)\<lparr>hart := c\<rparr>"
  "set_pair k dp (s\<lparr>disks := ds\<rparr>) = (set_pair k dp s)\<lparr>disks := ds\<rparr>"
  "set_pair k dp (s\<lparr>tbuf := tb\<rparr>) = (set_pair k dp s)\<lparr>tbuf := tb\<rparr>"
  by (simp_all add: set_pair_def)

lemma set_pair_set_pair [simp]: "set_pair k dp (set_pair k dp' s) = set_pair k dp s"
  by (simp add: set_pair_def split: RAIDData.splits)

lemma set_pair_same [simp]: "get_pair (raidmeta s) k = Ok dp \<Longrightarrow> set_pair k dp s = s"
  by (auto simp: get_pair_def set_pair_def split: RAIDData.splits)

lemma acquire_mutex_Ok [simp]:
  "get_pair (raidmeta s) k = Ok dp \<Longrightarrow> mutex dp = initlock \<Longrightarrow>
   acquire_mutex k s = Ok (dp\<lparr>mutex := spin_held (hart s)\<rparr>,
     (set_pair k (dp\<lparr>mutex := spin_held (hart s)\<rparr>) s)\<lparr>hart := push_off (hart s)\<rparr>)"
  by (simp add: acquire_mutex_def Let_def)

lemma release_mutex_Ok [simp]:
  "mutex dp = spin_held c \<Longrightarrow> hart s = push_off c \<Longrightarrow> cpu_idle c \<Longrightarrow>
   release_mutex k dp s = Ok ((set_pair k (dp\<lparr>mutex := initlock\<rparr>) s)\<lparr>hart := c\<rparr>)"
  by (simp add: release_mutex_def)

lemma acquire_disk_Ok:
  "cpu_idle (hart s) \<Longrightarrow> dlock (diskinfo (raidmeta s) i) = initsleeplock \<Longrightarrow>
   acquire_disk i s = Ok (set_disk i ((diskinfo (raidmeta s) i)\<lparr>dlock := held_sleep (pid s)\<rparr>) s)"
  by (simp add: acquire_disk_def set_disk_def)

lemma release_disk_Ok:
  "cpu_idle (hart s) \<Longrightarrow> dlock (diskinfo (raidmeta s) i) = held_sleep p \<Longrightarrow>
   release_disk i s = Ok (set_disk i ((diskinfo (raidmeta s) i)\<lparr>dlock := initsleeplock\<rparr>) s)"
  by (simp add: release_disk_def set_disk_def)

lemma set_disk_simps [simp]:
  "hart (set_disk i d s) = hart s" "pid (set_disk i d s) = pid s" "kmem (set_disk i d s) = kmem s"
  "disks (set_disk i d s) = disks s" "tbuf (set_disk i d s) = tbuf s"
  "diskinfo (raidmeta (set_disk i d s)) = (diskinfo (raidmeta s))(i := d)"
  "rtype (raidmeta (set_disk i d s)) = rtype (raidmeta s)"
  "rdata (raidmeta (set_disk i d s)) = rdata (raidmeta s)"
  "get_pair (raidmeta (set_disk i d s)) k = get_pair (raidmeta s) k"
  "set_disk i d (s\<lparr>hart := c\<rparr>) = (set_disk i d s)\<lparr>hart := c\<rparr>"
  "set_disk i d (s\<lparr>disks := ds\<rparr>) = (set_disk i d s)\<lparr>disks := ds\<rparr>"
  "set_disk i d (s\<lparr>tbuf := tb\<rparr>) = (set_disk i d s)\<lparr>tbuf := tb\<rparr>"
  "set_disk i d (set_disk i d' s) = set_disk i d s"
  "set_pair k dp (set_disk i d s) = set_disk i d (set_pair k dp s)"
  by (simp_all add: set_disk_def get_pair_def set_pair_def)

lemma set_disk_same [simp]: "diskinfo (raidmeta s) i = d \<Longrightarrow> set_disk i d s = s"
  by (auto simp: set_disk_def)

lemma dlock_same [simp]: "dlock d = l \<Longrightarrow> d\<lparr>dlock := l\<rparr> = d"
  by simp

text \<open>The disk a read is served from: the first one of the pair that is valid.\<close>

definition pair_source :: "RAIDMeta \<Rightarrow> nat \<Rightarrow> nat \<Rightarrow> nat" where
  "pair_source m i j = (if valid (diskinfo m i) then i else j)"

text \<open>The disks after block \<open>b\<close> of the valid disks of the pair was written.\<close>

definition mirror_disks ::
    "RAIDMeta \<Rightarrow> nat \<Rightarrow> nat \<Rightarrow> nat \<Rightarrow> block \<Rightarrow> (nat \<Rightarrow> nat \<Rightarrow> block) \<Rightarrow> nat \<Rightarrow> nat \<Rightarrow> block" where
  "mirror_disks m i j b data ds =
     (\<lambda>d c. if c = b \<and> (d = Suc i \<and> valid (diskinfo m i) \<or> d = Suc j \<and> valid (diskinfo m j))
            then data else ds d c)"

lemma pair_restore [simp]:
  "mutex dp = initlock \<Longrightarrow> dp\<lparr>mutex := initlock\<rparr> = dp"
  "\<not> writing dp \<Longrightarrow> dp\<lparr>writing := False\<rparr> = dp"
  by (cases dp; simp)+

lemma readdiskpair_invalid:
  assumes "base_ok E s" "get_pair (raidmeta s) k = Ok dp" "pair_idle dp i j"
    and "\<not> valid (diskinfo (raidmeta s) i)" "\<not> valid (diskinfo (raidmeta s) j)"
  shows "readdiskpair E k b data s = Ok (- 1, data, s)"
  using assms by (simp add: readdiskpair_def pair_idle_def base_ok_def Let_def)

lemma readdiskpair_Ok:
  assumes ok: "base_ok E s" and gp: "get_pair (raidmeta s) k = Ok dp" and idle: "pair_idle dp i j"
    and ij: "i \<le> DISKS E" "j \<le> DISKS E" and b: "b \<le> diskblockn"
    and v: "valid (diskinfo (raidmeta s) i) \<or> valid (diskinfo (raidmeta s) j)"
  shows "\<exists>T. readdiskpair E k b data s =
           Ok (0, disks s (Suc (pair_source (raidmeta s) i j)) b, s\<lparr>tbuf := T\<rparr>)"
proof -
  note bk = base_okD [OF ok]
  define q where "q = pair_source (raidmeta s) i j"
  define n :: nat where "n = (if valid (diskinfo (raidmeta s) i) then 0 else 1)"
  have q: "valid (diskinfo (raidmeta s) q)" "q \<le> DISKS E" "pdisk dp n = q"
    using v ij idle by (auto simp: q_def n_def pair_source_def pair_idle_def)
  with bk(5) have qD: "q < DISKS E" by (metis le_neq_implies_less)
  then have dev: "device_ok E (Suc q) b" using b by auto
  have find: "find (\<lambda>n. \<not> reading dp n \<and> valid (diskinfo (raidmeta s) (pdisk dp n))) [0, 1] = Some n"
    using v idle by (auto simp: n_def pair_idle_def)
  have upd: "dp\<lparr>reading := (reading dp)(n := False)\<rparr> = dp"
    using idle by (simp add: pair_idle_def fun_upd_idem)
  show ?thesis
    using bk qD q(2) gp idle v find dev
    by (auto simp: readdiskpair_def Let_def pair_idle_def acquire_disk_Ok release_disk_Ok read_block_Ok
          q(3) upd q_def [symmetric])
qed

lemma writediskpair_invalid:
  assumes "base_ok E s" "get_pair (raidmeta s) k = Ok dp" "pair_idle dp i j"
    and "\<not> valid (diskinfo (raidmeta s) i)" "\<not> valid (diskinfo (raidmeta s) j)"
  shows "writediskpair E k b data s = Ok (- 1, s)"
  using assms by (simp add: writediskpair_def pair_idle_def base_ok_def Let_def)

text \<open>Locking two different disks, and unlocking them again.\<close>

lemma acquire_two:
  assumes "cpu_idle (hart s)" "i \<noteq> j" "dlock (diskinfo (raidmeta s) i) = initsleeplock"
    "dlock (diskinfo (raidmeta s) j) = initsleeplock"
  shows "bindR (acquire_disk i s) (acquire_disk j) =
    Ok (set_disk j ((diskinfo (raidmeta s) j)\<lparr>dlock := held_sleep (pid s)\<rparr>)
         (set_disk i ((diskinfo (raidmeta s) i)\<lparr>dlock := held_sleep (pid s)\<rparr>) s))"
  using assms by (simp add: acquire_disk_Ok)

lemma release_two:
  assumes "cpu_idle (hart s)" "i \<noteq> j" "dlock (diskinfo (raidmeta s) i) = held_sleep p"
    "dlock (diskinfo (raidmeta s) j) = held_sleep p"
  shows "bindR (release_disk i s) (release_disk j) =
    Ok (set_disk j ((diskinfo (raidmeta s) j)\<lparr>dlock := initsleeplock\<rparr>)
         (set_disk i ((diskinfo (raidmeta s) i)\<lparr>dlock := initsleeplock\<rparr>) s))"
  using assms by (simp add: release_disk_Ok)

lemma set_disk_restore:
  assumes "i \<noteq> j" "diskinfo (raidmeta s) i = a" "diskinfo (raidmeta s) j = b"
  shows "set_disk j b (set_disk i a (set_disk j b' (set_disk i a' s))) = s"
    and "set_disk i a (set_disk j b (set_disk j b' (set_disk i a' s))) = s"
proof -
  have "(diskinfo (raidmeta s))(i := a', j := b', i := a, j := b) = diskinfo (raidmeta s)"
    using assms by (auto simp: fun_eq_iff)
  then show "set_disk j b (set_disk i a (set_disk j b' (set_disk i a' s))) = s"
    by (simp add: set_disk_def)
  have "(diskinfo (raidmeta s))(i := a', j := b, i := a) = diskinfo (raidmeta s)"
    using assms by (auto simp: fun_eq_iff)
  then show "set_disk i a (set_disk j b (set_disk j b' (set_disk i a' s))) = s"
    by (simp add: set_disk_def)
qed

lemma write_mirror_mutex [simp]: "write_mirror E (dp\<lparr>mutex := l\<rparr>) = write_mirror E dp"
  by (simp add: fun_eq_iff write_mirror_def)

lemma write_mirror_Ok:
  assumes "pdisk dp n = i" "is_block data" "b \<le> diskblockn"
    and D: "i \<le> DISKS E" "\<not> valid (diskinfo (raidmeta s) (DISKS E))"
    and n: "\<And>i. i < DISKS E \<Longrightarrow> diskn (diskinfo (raidmeta s) i) = Suc i"
  shows "\<exists>T. write_mirror E dp b data n s =
             Ok (s\<lparr>disks := (\<lambda>d c. if c = b \<and> d = Suc i \<and> valid (diskinfo (raidmeta s) i)
                                    then data else disks s d c), tbuf := T\<rparr>)"
proof (cases "valid (diskinfo (raidmeta s) i)")
  case True
  with D have "i < DISKS E" by (metis le_neq_implies_less)
  moreover from this have "device_ok E (Suc i) b" using assms(3) by auto
  moreover have "(disks s)(Suc i := (disks s (Suc i))(b := data)) =
      (\<lambda>d c. if c = b \<and> d = Suc i \<and> valid (diskinfo (raidmeta s) i) then data else disks s d c)"
    using True by (auto simp: fun_eq_iff)
  ultimately show ?thesis
    using True assms(1,2) n by (auto simp: write_mirror_def Let_def write_block_Ok)
next
  case False
  then show ?thesis
    by (auto simp: write_mirror_def Let_def assms(1) intro!: exI [of _ "tbuf s"])
qed

lemma write_mirrors:
  assumes "pdisk dp 0 = i" "pdisk dp 1 = j" "is_block data" "b \<le> diskblockn"
    and D: "i \<le> DISKS E" "j \<le> DISKS E" "\<not> valid (diskinfo (raidmeta s) (DISKS E))"
    and n: "\<And>i. i < DISKS E \<Longrightarrow> diskn (diskinfo (raidmeta s) i) = Suc i"
  shows "\<exists>T. for_each (write_mirror E dp b data) [0, 1] s =
             Ok (s\<lparr>disks := mirror_disks (raidmeta s) i j b data (disks s), tbuf := T\<rparr>)"
proof -
  let ?ds = "\<lambda>d c. if c = b \<and> d = Suc i \<and> valid (diskinfo (raidmeta s) i) then data else disks s d c"
  obtain T where T: "write_mirror E dp b data 0 s = Ok (s\<lparr>disks := ?ds, tbuf := T\<rparr>)"
    using write_mirror_Ok [OF assms(1,3,4) D(1,3) n] by blast
  let ?s = "s\<lparr>disks := ?ds, tbuf := T\<rparr>"
  obtain U where U: "write_mirror E dp b data 1 ?s = Ok (?s\<lparr>disks := (\<lambda>d c. if c = b \<and> d = Suc j \<and>
      valid (diskinfo (raidmeta ?s) j) then data else disks ?s d c), tbuf := U\<rparr>)"
    using write_mirror_Ok [OF assms(2,3,4) D(2), of ?s] D(3) n by fastforce
  have "(\<lambda>d c. if c = b \<and> d = Suc j \<and> valid (diskinfo (raidmeta ?s) j) then data else disks ?s d c)
     = mirror_disks (raidmeta s) i j b data (disks s)"
    by (auto simp: mirror_disks_def fun_eq_iff)
  with T U show ?thesis by auto
qed

lemma writediskpair_Ok:
  assumes ok: "base_ok E s" and gp: "get_pair (raidmeta s) k = Ok dp" and idle: "pair_idle dp i j"
    and ij: "i \<le> DISKS E" "j \<le> DISKS E" "i \<noteq> j" and b: "b \<le> diskblockn" "is_block data"
    and v: "valid (diskinfo (raidmeta s) i) \<or> valid (diskinfo (raidmeta s) j)"
  shows "\<exists>T. writediskpair E k b data s =
           Ok (0, s\<lparr>disks := mirror_disks (raidmeta s) i j b data (disks s), tbuf := T\<rparr>)"
proof -
  note bk = base_okD [OF ok]
  have p: "pdisk dp 0 = i" "pdisk dp (Suc 0) = j" "mutex dp = initlock" "\<not> writing dp" "\<And>n. \<not> reading dp n"
    using idle by (auto simp: pair_idle_def)
  let ?i = "diskinfo (raidmeta s) i" and ?j = "diskinfo (raidmeta s) j" and ?h = "held_sleep (pid s)"
  let ?s1 = "set_pair k (dp\<lparr>writing := True\<rparr>) s"
  let ?s2 = "set_disk j (?j\<lparr>dlock := ?h\<rparr>) (set_disk i (?i\<lparr>dlock := ?h\<rparr>) ?s1)"
  have acq: "for_each (\<lambda>n. acquire_disk (pdisk dp n)) [0, 1] ?s1 = Ok ?s2"
    using ij bk p by (simp add: acquire_disk_Ok)
  obtain T where T: "for_each (write_mirror E dp b data) [0, 1] ?s2 =
      Ok (?s2\<lparr>disks := mirror_disks (raidmeta ?s2) i j b data (disks ?s2), tbuf := T\<rparr>)"
  proof -
    have "\<not> valid (diskinfo (raidmeta ?s2) (DISKS E))" using bk(5) by auto
    moreover have "diskn (diskinfo (raidmeta ?s2) q) = Suc q" if "q < DISKS E" for q
      using bk(4) that by auto
    ultimately show thesis
      using write_mirrors [of dp i j data b E ?s2] p(1,2) ij b that by auto
  qed
  have md: "mirror_disks (raidmeta ?s2) i j b data (disks ?s2) = mirror_disks (raidmeta s) i j b data (disks s)"
    using ij(3) by (auto simp: mirror_disks_def fun_eq_iff)
  let ?ds = "mirror_disks (raidmeta s) i j b data (disks s)"
  have "for_each (\<lambda>n. release_disk (pdisk dp n)) [0, 1] (?s2\<lparr>disks := ?ds, tbuf := T\<rparr>)
      = Ok (?s1\<lparr>disks := ?ds, tbuf := T\<rparr>)"
    using ij bk p by (simp add: release_disk_Ok set_disk_restore)
  with acq T md show ?thesis
    using bk p gp v by (auto simp: writediskpair_def Let_def simp del: for_each.simps)
qed

end
