(* ===== verification/Raid_Parity.thy ===== *)
theory Raid_Parity
  imports Raid_Pair
begin

text \<open>
  What RAID 4 and RAID 5 share: access to \<open>struct RAID4Data\<close> / \<open>struct RAID5Data\<close>, its locks, the
  loop that accumulates the exclusive-or of a block over several disks, and page buffers.
\<close>

section \<open>Definitions\<close>

definition get_parity :: "RAIDMeta \<Rightarrow> ParityData result" where
  "get_parity m = (case rdata m of RAID4Data p \<Rightarrow> Ok p | RAID5Data p \<Rightarrow> Ok p | _ \<Rightarrow> Fault)"

definition set_parity :: "ParityData \<Rightarrow> kstate \<Rightarrow> kstate" where
  "set_parity p s =
     s\<lparr>raidmeta := (raidmeta s)\<lparr>rdata :=
        (case rdata (raidmeta s) of
           RAID4Data _ \<Rightarrow> RAID4Data p
         | RAID5Data _ \<Rightarrow> RAID5Data p
         | d \<Rightarrow> d)\<rparr>\<rparr>"

definition acquire_cluster :: "kstate \<Rightarrow> kstate result" where
  "acquire_cluster s =
     bindR (get_parity (raidmeta s)) (\<lambda>p.
       bindR (acquiresleep (clusterlock p) (pid s) (hart s)) (\<lambda>(l, c).
         Ok (set_parity (p\<lparr>clusterlock := l\<rparr>) (s\<lparr>hart := c\<rparr>))))"

definition release_cluster :: "kstate \<Rightarrow> kstate result" where
  "release_cluster s =
     bindR (get_parity (raidmeta s)) (\<lambda>p.
       bindR (releasesleep (clusterlock p) (hart s)) (\<lambda>(l, c).
         Ok (set_parity (p\<lparr>clusterlock := l\<rparr>) (s\<lparr>hart := c\<rparr>))))"

definition acquire_repair :: "kstate \<Rightarrow> (ParityData \<times> kstate) result" where
  "acquire_repair s =
     bindR (get_parity (raidmeta s)) (\<lambda>p.
       bindR (acquire (repairlock p) (hart s)) (\<lambda>(l, c).
         let p = p\<lparr>repairlock := l\<rparr> in Ok (p, set_parity p (s\<lparr>hart := c\<rparr>))))"

definition release_repair :: "ParityData \<Rightarrow> kstate \<Rightarrow> kstate result" where
  "release_repair p s =
     bindR (release (repairlock p) (hart s)) (\<lambda>(l, c).
       Ok (set_parity (p\<lparr>repairlock := l\<rparr>) (s\<lparr>hart := c\<rparr>)))"

text \<open>\<open>uchar* page = (uchar*) kalloc()\<close> and \<open>kfree(page)\<close>. The callers do not test for a null
  pointer; storing through one faults.\<close>

definition alloc_page :: "kstate \<Rightarrow> (nat \<times> kstate) result" where
  "alloc_page s = bindR (kalloc (kmem s) (hart s)) (\<lambda>(pg, k, c). Ok (pg, s\<lparr>kmem := k, hart := c\<rparr>))"

definition free_page :: "platform \<Rightarrow> nat \<Rightarrow> kstate \<Rightarrow> kstate result" where
  "free_page E pg s =
     bindR (kfree (kernel_end E) pg (kmem s) (hart s)) (\<lambda>(k, c). Ok (s\<lparr>kmem := k, hart := c\<rparr>))"

definition touch_page :: "nat \<Rightarrow> kstate \<Rightarrow> kstate result" where
  "touch_page pg s = (if pg = 0 then Fault else Ok s)"

text \<open>One iteration of \<open>if (P) { read_block(diskinfo[i].diskn, b, buff); parity ^= buff; }\<close>.\<close>

definition xor_step ::
    "platform \<Rightarrow> (nat \<Rightarrow> RAIDMeta \<Rightarrow> bool) \<Rightarrow> nat \<Rightarrow> nat \<Rightarrow> block \<times> kstate \<Rightarrow> (block \<times> kstate) result" where
  "xor_step E P b i ps =
     (case ps of (parity, s) \<Rightarrow>
        if P i (raidmeta s)
        then bindR (read_block E (diskn (diskinfo (raidmeta s) i)) b s) (\<lambda>(buff, s).
               Ok (xor_block parity buff, s))
        else Ok (parity, s))"

section \<open>Facts\<close>

lemma get_set_parity [simp]:
  "get_parity (raidmeta s) = Ok p0 \<Longrightarrow> get_parity (raidmeta (set_parity p s)) = Ok p"
  by (auto simp: get_parity_def set_parity_def split: RAIDData.splits)

lemma set_parity_simps [simp]:
  "hart (set_parity p s) = hart s" "pid (set_parity p s) = pid s" "kmem (set_parity p s) = kmem s"
  "disks (set_parity p s) = disks s" "tbuf (set_parity p s) = tbuf s"
  "diskinfo (raidmeta (set_parity p s)) = diskinfo (raidmeta s)"
  "rtype (raidmeta (set_parity p s)) = rtype (raidmeta s)"
  "mread (raidmeta (set_parity p s)) = mread (raidmeta s)"
  "mwrite (raidmeta (set_parity p s)) = mwrite (raidmeta s)"
  "isDestroyed (raidmeta (set_parity p s)) = isDestroyed (raidmeta s)"
  "set_parity p (s\<lparr>hart := c\<rparr>) = (set_parity p s)\<lparr>hart := c\<rparr>"
  "set_parity p (s\<lparr>kmem := k\<rparr>) = (set_parity p s)\<lparr>kmem := k\<rparr>"
  "set_parity p (s\<lparr>disks := ds\<rparr>) = (set_parity p s)\<lparr>disks := ds\<rparr>"
  "set_parity p (s\<lparr>tbuf := tb\<rparr>) = (set_parity p s)\<lparr>tbuf := tb\<rparr>"
  "set_parity p (set_disk i d s) = set_disk i d (set_parity p s)"
  by (simp_all add: set_parity_def set_disk_def)

lemma set_parity_set_parity [simp]: "set_parity p (set_parity p' s) = set_parity p s"
  by (simp add: set_parity_def split: RAIDData.splits)

lemma set_parity_same [simp]: "get_parity (raidmeta s) = Ok p \<Longrightarrow> set_parity p s = s"
  by (auto simp: get_parity_def set_parity_def split: RAIDData.splits)

lemma get_parity_set_disk [simp]: "get_parity (raidmeta (set_disk i d s)) = get_parity (raidmeta s)"
  by (simp add: get_parity_def set_disk_def)

lemma get_parity_lock_all [simp]: "get_parity (lock_all E q m) = get_parity m"
  by (simp add: get_parity_def)

lemma get_parity_unlock_all [simp]: "get_parity (unlock_all E m) = get_parity m"
  by (simp add: get_parity_def unlock_all_def)

lemma parity_restore [simp]:
  "clusterlock p = l \<Longrightarrow> p\<lparr>clusterlock := l\<rparr> = p" "repairlock p = l' \<Longrightarrow> p\<lparr>repairlock := l'\<rparr> = p"
  "repairing p = n \<Longrightarrow> p\<lparr>repairing := n\<rparr> = p" "writecount p = n \<Longrightarrow> p\<lparr>writecount := n\<rparr> = p"
  by auto

lemma acquire_cluster_Ok [simp]:
  "get_parity (raidmeta s) = Ok p \<Longrightarrow> clusterlock p = initsleeplock \<Longrightarrow> cpu_idle (hart s) \<Longrightarrow>
   acquire_cluster s = Ok (set_parity (p\<lparr>clusterlock := held_sleep (pid s)\<rparr>) s)"
  by (simp add: acquire_cluster_def)

lemma release_cluster_Ok [simp]:
  "get_parity (raidmeta s) = Ok p \<Longrightarrow> clusterlock p = held_sleep q \<Longrightarrow> cpu_idle (hart s) \<Longrightarrow>
   release_cluster s = Ok (set_parity (p\<lparr>clusterlock := initsleeplock\<rparr>) s)"
  by (simp add: release_cluster_def)

lemma acquire_repair_Ok [simp]:
  "get_parity (raidmeta s) = Ok p \<Longrightarrow> repairlock p = initlock \<Longrightarrow>
   acquire_repair s = Ok (p\<lparr>repairlock := spin_held (hart s)\<rparr>,
     (set_parity (p\<lparr>repairlock := spin_held (hart s)\<rparr>) s)\<lparr>hart := push_off (hart s)\<rparr>)"
  by (simp add: acquire_repair_def Let_def)

lemma release_repair_Ok [simp]:
  "repairlock p = spin_held c \<Longrightarrow> hart s = push_off c \<Longrightarrow> cpu_idle c \<Longrightarrow>
   release_repair p s = Ok ((set_parity (p\<lparr>repairlock := initlock\<rparr>) s)\<lparr>hart := c\<rparr>)"
  by (simp add: release_repair_def)

lemma alloc_page_Ok:
  "kmem_inv (kernel_end E) (kmem s) (pg # pgs) \<Longrightarrow> cpu_idle (hart s) \<Longrightarrow>
   alloc_page s = Ok (pg, s\<lparr>kmem := kmem_taken (kmem s)\<rparr>)"
  by (simp add: alloc_page_def kalloc_Cons)

lemma free_page_Ok:
  "kmem_inv (kernel_end E) k (pg # pgs) \<Longrightarrow> cpu_idle (hart s) \<Longrightarrow> kmem s = kmem_taken k \<Longrightarrow>
   free_page E pg s = Ok (s\<lparr>kmem := k\<rparr>)"
  by (simp add: free_page_def kfree_taken)

lemma kmem_inv_nonzero: "kmem_inv e k (pg # pgs) \<Longrightarrow> 0 < pg"
  by (simp add: kmem_inv_def)

lemma xor_steps_Ok:
  assumes n: "n \<le> DISKS E" and b: "b \<le> diskblockn"
    and dn: "\<And>i. i < DISKS E \<Longrightarrow> diskn (diskinfo (raidmeta s) i) = Suc i"
  shows "\<exists>T. for_each (xor_step E P b) [0..<n] (zero_block, s) =
    Ok (xsum (\<lambda>i. disks s (Suc i) b) [i \<leftarrow> [0..<n]. P i (raidmeta s)], s\<lparr>tbuf := T\<rparr>)"
proof -
  let ?x = "\<lambda>k. xsum (\<lambda>i. disks s (Suc i) b) [i \<leftarrow> [0..<k]. P i (raidmeta s)]"
  let ?I = "\<lambda>k q. \<exists>T. q = (?x k, s\<lparr>tbuf := T\<rparr>)"
  have "\<exists>q. for_each (xor_step E P b) [0..<n] (zero_block, s) = Ok q \<and> ?I n q"
  proof (rule for_each_upt_rule [where I = ?I])
    show "?I 0 (zero_block, s)" by (auto intro!: exI [of _ "tbuf s"])
  next
    fix k q
    assume k: "k < n" and "?I k q"
    then obtain T where q: "q = (?x k, s\<lparr>tbuf := T\<rparr>)" by blast
    have "device_ok E (Suc k) b" using k n b by auto
    with k n show "\<exists>q'. xor_step E P b k q = Ok q' \<and> ?I (Suc k) q'"
      by (auto simp: q xor_step_def read_block_Ok dn upt_Suc)
  qed simp
  then show ?thesis by auto
qed

end
