(* ===== verification/Raid_Ops.thy ===== *)
theory Raid_Ops
  imports Raid_Parity
begin

text \<open>
  The operations of kernel/raid.c on the whole array: \<open>loadraid\<close>, \<open>setraidtype\<close>, \<open>raidfail\<close>,
  \<open>raidrepair\<close> and \<open>raiddestroy\<close>. A call of \<open>wakeup\<close> changes no state of this model.
\<close>

section \<open>Definitions\<close>

definition raid_type_of :: "int \<Rightarrow> RAID_TYPE option" where
  "raid_type_of t =
     (if t = 0 then Some RAID0 else if t = 1 then Some RAID1 else if t = 2 then Some RAID0_1
      else if t = 3 then Some RAID4 else if t = 4 then Some RAID5 else None)"

abbreviation destroyed_msg :: string where
  "destroyed_msg \<equiv> ''RAID structure was destroyed''"

definition loadraid :: "platform \<Rightarrow> kstate \<Rightarrow> kstate result" where
  "loadraid E s =
     bindR (read_block E 1 diskblockn s) (\<lambda>(data, s).
       let m = meta_of_bytes E data
       in if isDestroyed m then Panic destroyed_msg
          else
            let prevState = list_ex (\<lambda>x. x \<noteq> 0) data;
                m = m\<lparr>diskinfo := (\<lambda>i. if i < DISKS E then (diskinfo m i)\<lparr>dlock := initsleeplock\<rparr>
                                       else diskinfo m i)\<rparr>
            in if prevState then Ok (s\<lparr>raidmeta := m\<rparr>)
               else
                 let m = m\<lparr>diskinfo := (\<lambda>i. if i < DISKS E
                              then (diskinfo m i)\<lparr>diskn := i + 1, valid := True\<rparr>
                              else if i = DISKS E then (diskinfo m i)\<lparr>valid := False\<rparr>
                              else diskinfo m i),
                            mread := Some (rtype m), mwrite := Some (rtype m)\<rparr>
                 in writeraidmeta E (s\<lparr>raidmeta := m\<rparr>))"

definition init_pair :: "nat \<Rightarrow> nat \<Rightarrow> DiskPair" where
  "init_pair i j = \<lparr>mutex = initlock, pdisk = (\<lambda>n. if n = 0 then i else j),
                    writing = False, reading = (\<lambda>_. False)\<rparr>"

definition init_parity :: ParityData where
  "init_parity = \<lparr>cluster_loaded = (\<lambda>_. False), clusterlock = initsleeplock,
                  repairlock = initlock, writecount = 0, repairing = 0\<rparr>"

text \<open>\<open>israidable\<close>: the number of invalid disks.\<close>

definition invalid_count :: "platform \<Rightarrow> RAIDMeta \<Rightarrow> nat" where
  "invalid_count E m = length [i \<leftarrow> [0..<DISKS E]. \<not> valid (diskinfo m i)]"

definition setraidtype :: "platform \<Rightarrow> int \<Rightarrow> kstate \<Rightarrow> (u64 \<times> kstate) result" where
  "setraidtype E type s =
     (case raid_type_of type of
        None \<Rightarrow> Panic ''invalid raid type''
      | Some t \<Rightarrow>
          let m = (raidmeta s)\<lparr>rtype := t, mread := Some t, mwrite := Some t, isDestroyed := False\<rparr>;
              finish = (\<lambda>d. bindR (writeraidmeta E (s\<lparr>raidmeta := m\<lparr>rdata := d\<rparr>\<rparr>)) (\<lambda>s. Ok (0, s)))
          in case t of
               RAID0 \<Rightarrow> finish (rdata m)
             | RAID1 \<Rightarrow> finish (RAID1Data (\<lambda>i. init_pair (i * 2) (i * 2 + 1)))
             | RAID0_1 \<Rightarrow> finish (RAID0_1Data (\<lambda>i. init_pair i (i + DISKS E div 2)))
             | RAID4 \<Rightarrow> if invalid_count E m > 1 then Ok (- 1, s\<lparr>raidmeta := m\<rparr>)
                        else finish (RAID4Data init_parity)
             | RAID5 \<Rightarrow> if invalid_count E m > 1 then Ok (- 1, s\<lparr>raidmeta := m\<rparr>)
                        else finish (RAID5Data init_parity))"

definition set_valid :: "nat \<Rightarrow> bool \<Rightarrow> kstate \<Rightarrow> kstate" where
  "set_valid i v s = set_disk i ((diskinfo (raidmeta s) i)\<lparr>valid := v\<rparr>) s"

definition raidfail :: "platform \<Rightarrow> int \<Rightarrow> kstate \<Rightarrow> (u64 \<times> kstate) result" where
  "raidfail E d s =
     (if isDestroyed (raidmeta s) then Panic destroyed_msg
      else let d = d - 1
           in if d < 0 \<or> d \<ge> int (DISKS E) then Ok (- 1, s)
              else bindR (writeraidmeta E (set_valid (nat d) False s)) (\<lambda>s. Ok (0, s)))"

text \<open>The cases of the \<open>switch\<close> in \<open>raidrepair\<close>: \<open>Some r\<close> for \<open>return r\<close>, \<open>None\<close> for \<open>break\<close>.\<close>

definition repair_copy :: "platform \<Rightarrow> nat \<Rightarrow> nat \<Rightarrow> kstate \<Rightarrow> kstate result" where
  "repair_copy E src dst =
     for_each (\<lambda>i s. bindR (read_block E src i s) (\<lambda>(data, s). write_block E dst i data s))
       [0..<diskblockn + 1]"

definition repair_pair :: "platform \<Rightarrow> nat \<Rightarrow> nat \<Rightarrow> nat \<Rightarrow> kstate \<Rightarrow> (u64 option \<times> kstate) result" where
  "repair_pair E k n q s =
     (if \<not> valid (diskinfo (raidmeta s) q) then Ok (Some (- 1), s)
      else bindR (acquire_mutex k s) (\<lambda>(dp, s).
        if writing dp \<or> reading dp 0 \<or> reading dp 1 then Blocked
        else
          bindR (release_mutex k (dp\<lparr>writing := True\<rparr>) s) (\<lambda>s.
          bindR (for_each (\<lambda>i. acquire_disk (pdisk dp i)) [0, 1] s) (\<lambda>s.
          bindR (repair_copy E (diskn (diskinfo (raidmeta s) q)) (diskn (diskinfo (raidmeta s) n)) s) (\<lambda>s.
          bindR (for_each (\<lambda>i. release_disk (pdisk dp i)) [0, 1] s) (\<lambda>s.
          bindR (acquire_mutex k (set_valid n True s)) (\<lambda>(dp, s).
          bindR (release_mutex k (dp\<lparr>writing := False\<rparr>) s) (\<lambda>s.
          Ok (None, s)))))))))"

definition raidrepair_raid1 :: "platform \<Rightarrow> nat \<Rightarrow> kstate \<Rightarrow> (u64 option \<times> kstate) result" where
  "raidrepair_raid1 E n s =
     bindR (get_pair (raidmeta s) (n div 2)) (\<lambda>dp.
       repair_pair E (n div 2) n (pdisk dp (1 - n mod 2)) s)"

definition raidrepair_raid0_1 :: "platform \<Rightarrow> nat \<Rightarrow> kstate \<Rightarrow> (u64 option \<times> kstate) result" where
  "raidrepair_raid0_1 E n s =
     (if DISKS E div 2 = 0 \<or> n div (DISKS E div 2) > 1 then Fault
      else bindR (get_pair (raidmeta s) (n mod (DISKS E div 2))) (\<lambda>dp.
        repair_pair E (n mod (DISKS E div 2)) n (pdisk dp (1 - n div (DISKS E div 2))) s))"

definition repair_block :: "platform \<Rightarrow> nat \<Rightarrow> nat \<Rightarrow> nat \<Rightarrow> kstate \<Rightarrow> kstate result" where
  "repair_block E n pg b s =
     bindR (acquire_cluster s) (\<lambda>s.
     bindR (get_parity (raidmeta s)) (\<lambda>p.
       if \<not> cluster_loaded p (b div CLUSTER_SIZE) then release_cluster s
       else
         bindR (release_cluster s) (\<lambda>s.
         bindR (touch_page pg s) (\<lambda>s.
         bindR (for_each (xor_step E (\<lambda>i m. i \<noteq> n) b) [0..<DISKS E] (zero_block, s)) (\<lambda>(parity, s).
         write_block E (diskn (diskinfo (raidmeta s) n)) b parity s)))))"

definition raidrepair_raid4 :: "platform \<Rightarrow> nat \<Rightarrow> kstate \<Rightarrow> (u64 option \<times> kstate) result" where
  "raidrepair_raid4 E n s =
     (if list_ex (\<lambda>i. i \<noteq> n \<and> \<not> valid (diskinfo (raidmeta s) i)) [0..<DISKS E] then Ok (Some (- 1), s)
      else
        bindR (acquire_repair s) (\<lambda>(p, s).
        let p = p\<lparr>repairing := repairing p + 1\<rparr>
        in if writecount p \<noteq> 0 \<and> repairing p \<noteq> 0 then Blocked
        else
          bindR (release_repair p s) (\<lambda>s.
          bindR (alloc_page s) (\<lambda>(newpg, s).
          bindR (acquire_disks E s) (\<lambda>s.
          bindR (for_each (repair_block E n newpg) [0..<diskblockn + 1] s) (\<lambda>s.
          bindR (release_disks E (set_valid n True s)) (\<lambda>s.
          bindR (free_page E newpg s) (\<lambda>s.
          bindR (acquire_repair s) (\<lambda>(p, s).
          bindR (release_repair (p\<lparr>repairing := repairing p - 1\<rparr>) s) (\<lambda>s.
          Ok (None, s)))))))))))"

text \<open>The case \<open>RAID5\<close> is the text of the case \<open>RAID4\<close> over \<open>data.raid5\<close>.\<close>

definition raidrepair_raid5 :: "platform \<Rightarrow> nat \<Rightarrow> kstate \<Rightarrow> (u64 option \<times> kstate) result" where
  "raidrepair_raid5 = raidrepair_raid4"

definition raidrepair :: "platform \<Rightarrow> int \<Rightarrow> kstate \<Rightarrow> (u64 \<times> kstate) result" where
  "raidrepair E d s =
     (if isDestroyed (raidmeta s) then Panic destroyed_msg
      else let d = d - 1
           in if d < 0 \<or> d \<ge> int (DISKS E) then Ok (- 1, s)
              else let n = nat d
              in if valid (diskinfo (raidmeta s) n) then Ok (0, s)
              else bindR (case rtype (raidmeta s) of
                            RAID0 \<Rightarrow> Ok (Some (- 1), s)
                          | RAID1 \<Rightarrow> raidrepair_raid1 E n s
                          | RAID0_1 \<Rightarrow> raidrepair_raid0_1 E n s
                          | RAID4 \<Rightarrow> raidrepair_raid4 E n s
                          | RAID5 \<Rightarrow> raidrepair_raid5 E n s) (\<lambda>(r, s).
                   case r of Some r \<Rightarrow> Ok (r, s)
                   | None \<Rightarrow> bindR (writeraidmeta E s) (\<lambda>s. Ok (0, s))))"

definition raiddestroy :: "platform \<Rightarrow> kstate \<Rightarrow> (u64 \<times> kstate) result" where
  "raiddestroy E s =
     (if isDestroyed (raidmeta s) then Panic destroyed_msg
      else bindR (writeraidmeta E (s\<lparr>raidmeta := (raidmeta s)\<lparr>isDestroyed := True\<rparr>\<rparr>)) (\<lambda>s. Ok (0, s)))"

section \<open>Effects\<close>

lemma set_valid_simps [simp]:
  "hart (set_valid i v s) = hart s" "pid (set_valid i v s) = pid s" "kmem (set_valid i v s) = kmem s"
  "disks (set_valid i v s) = disks s" "tbuf (set_valid i v s) = tbuf s"
  "rtype (raidmeta (set_valid i v s)) = rtype (raidmeta s)"
  "rdata (raidmeta (set_valid i v s)) = rdata (raidmeta s)"
  "mread (raidmeta (set_valid i v s)) = mread (raidmeta s)"
  "mwrite (raidmeta (set_valid i v s)) = mwrite (raidmeta s)"
  "isDestroyed (raidmeta (set_valid i v s)) = isDestroyed (raidmeta s)"
  "get_pair (raidmeta (set_valid i v s)) k = get_pair (raidmeta s) k"
  "get_parity (raidmeta (set_valid i v s)) = get_parity (raidmeta s)"
  "diskinfo (raidmeta (set_valid i v s)) =
     (diskinfo (raidmeta s))(i := (diskinfo (raidmeta s) i)\<lparr>valid := v\<rparr>)"
  "set_valid i v (s\<lparr>disks := ds\<rparr>) = (set_valid i v s)\<lparr>disks := ds\<rparr>"
  "set_valid i v (s\<lparr>tbuf := tb\<rparr>) = (set_valid i v s)\<lparr>tbuf := tb\<rparr>"
  "set_valid i v (s\<lparr>kmem := km\<rparr>) = (set_valid i v s)\<lparr>kmem := km\<rparr>"
  "set_valid i v (s\<lparr>hart := c\<rparr>) = (set_valid i v s)\<lparr>hart := c\<rparr>"
  "set_valid i v (set_pair k dp s) = set_pair k dp (set_valid i v s)"
  "set_valid i v (set_parity pd s) = set_parity pd (set_valid i v s)"
  by (simp_all add: set_valid_def set_disk_def set_pair_def get_pair_def set_parity_def get_parity_def)

lemma base_ok_set_valid: "base_ok E s \<Longrightarrow> i < DISKS E \<Longrightarrow> base_ok E (set_valid i v s)"
  by (auto simp: base_ok_def)

lemma base_ok_disks:
  "base_ok E s \<Longrightarrow> (\<And>d b. is_block (ds d b)) \<Longrightarrow> base_ok E (s\<lparr>disks := ds, tbuf := T\<rparr>)"
  by (auto simp: base_ok_def)

lemma base_ok_tbuf: "base_ok E s \<Longrightarrow> base_ok E (s\<lparr>tbuf := T\<rparr>)"
  by (auto simp: base_ok_def)

lemma is_block_meta_disks:
  "platform_ok E \<Longrightarrow> (\<And>d b. is_block (ds d b)) \<Longrightarrow> is_block (meta_disks E p m ds d b)"
  by (simp add: meta_disks_def)

lemma meta_disks_data [simp]: "b < diskblockn \<Longrightarrow> meta_disks E p m ds d b = ds d b"
  by (simp add: meta_disks_def)

lemma raidfail_Ok:
  assumes "base_ok E s" "\<not> isDestroyed (raidmeta s)" "i < DISKS E"
  shows "\<exists>T. raidfail E (int i + 1) s = Ok (0, (set_valid i False s)\<lparr>
           disks := meta_disks E (pid s) (raidmeta (set_valid i False s)) (disks s), tbuf := T\<rparr>)"
  using writeraidmeta_Ok [OF base_ok_set_valid [OF assms(1,3), of False]] assms
  by (auto simp: raidfail_def Let_def)

text \<open>Disk \<open>dst\<close> with all its blocks taken from \<open>src\<close>.\<close>

definition copy_disk :: "nat \<Rightarrow> nat \<Rightarrow> (nat \<Rightarrow> nat \<Rightarrow> block) \<Rightarrow> nat \<Rightarrow> nat \<Rightarrow> block" where
  "copy_disk src dst ds = ds(dst := (\<lambda>b. if b \<le> diskblockn then ds src b else ds dst b))"

lemma repair_copy_Ok:
  assumes d: "1 \<le> src" "src \<le> DISKS E" "1 \<le> dst" "dst \<le> DISKS E"
    and blk: "\<And>d b. is_block (disks s d b)"
  shows "\<exists>T. repair_copy E src dst s = Ok (s\<lparr>disks := copy_disk src dst (disks s), tbuf := T\<rparr>)"
proof -
  let ?ds = "\<lambda>k. (disks s)(dst := (\<lambda>b. if b < k then disks s src b else disks s dst b))"
  let ?I = "\<lambda>k t. \<exists>T. t = s\<lparr>disks := ?ds k, tbuf := T\<rparr>"
  let ?f = "\<lambda>i s. bindR (read_block E src i s) (\<lambda>(data, s). write_block E dst i data s)"
  have "\<exists>s'. for_each ?f [0..<diskblockn + 1] s = Ok s' \<and> ?I (diskblockn + 1) s'"
  proof (rule for_each_upt_rule [where I = ?I])
    show "?I 0 s" by (auto intro!: exI [of _ "tbuf s"])
  next
    fix k t
    assume k: "k < diskblockn + 1" and "?I k t"
    then obtain T where t: "t = s\<lparr>disks := ?ds k, tbuf := T\<rparr>" by blast
    have dev: "device_ok E src k" "device_ok E dst k" using d k by auto
    have src: "?ds k src k = disks s src k" by simp
    have "(?ds k)(dst := (?ds k dst)(k := disks s src k)) = ?ds (Suc k)"
      by (auto simp: fun_eq_iff)
    with src dev blk show "\<exists>s'. ?f k t = Ok s' \<and> ?I (Suc k) s'"
      by (simp add: t read_block_Ok write_block_Ok del: fun_upd_apply) blast
  qed simp
  then show ?thesis by (auto simp: repair_copy_def copy_disk_def less_Suc_eq_le)
qed

lemma repair_pair_Ok:
  assumes ok: "base_ok E s" and gp: "get_pair (raidmeta s) k = Ok dp" and idle: "pair_idle dp i j"
    and ij: "i \<le> DISKS E" "j \<le> DISKS E" "i \<noteq> j"
    and nq: "n < DISKS E" "q < DISKS E" "valid (diskinfo (raidmeta s) q)"
  shows "\<exists>T. repair_pair E k n q s =
     Ok (None, (set_valid n True s)\<lparr>disks := copy_disk (Suc q) (Suc n) (disks s), tbuf := T\<rparr>)"
proof -
  note bk = base_okD [OF ok]
  have p: "pdisk dp 0 = i" "pdisk dp (Suc 0) = j" "mutex dp = initlock" "\<not> writing dp" "\<And>n. \<not> reading dp n"
    using idle by (auto simp: pair_idle_def)
  let ?i = "diskinfo (raidmeta s) i" and ?j = "diskinfo (raidmeta s) j" and ?h = "held_sleep (pid s)"
  let ?s1 = "set_pair k (dp\<lparr>writing := True\<rparr>) s"
  let ?s2 = "set_disk j (?j\<lparr>dlock := ?h\<rparr>) (set_disk i (?i\<lparr>dlock := ?h\<rparr>) ?s1)"
  have acq: "for_each (\<lambda>n. acquire_disk (pdisk dp n)) [0, 1] ?s1 = Ok ?s2"
    using ij bk p by (simp add: acquire_disk_Ok)
  have dn: "diskn (diskinfo (raidmeta ?s2) q) = Suc q" "diskn (diskinfo (raidmeta ?s2) n) = Suc n"
    using bk(4) nq by auto
  let ?ds = "copy_disk (Suc q) (Suc n) (disks s)"
  obtain T where T: "repair_copy E (Suc q) (Suc n) ?s2 = Ok (?s2\<lparr>disks := ?ds, tbuf := T\<rparr>)"
    using repair_copy_Ok [of "Suc q" E "Suc n" ?s2] nq bk(6) by auto
  have "for_each (\<lambda>n. release_disk (pdisk dp n)) [0, 1] (?s2\<lparr>disks := ?ds, tbuf := T\<rparr>)
      = Ok (?s1\<lparr>disks := ?ds, tbuf := T\<rparr>)"
    using ij bk p by (simp add: release_disk_Ok set_disk_restore)
  with acq T dn show ?thesis
    using bk p gp nq by (auto simp: repair_pair_def simp del: for_each.simps)
qed

definition parity_idle :: "ParityData \<Rightarrow> bool" where
  "parity_idle p \<longleftrightarrow> clusterlock p = initsleeplock \<and> repairlock p = initlock \<and>
     writecount p = 0 \<and> repairing p = 0"

text \<open>Disk \<open>n\<close> rebuilt from the others, in the clusters that have been loaded.\<close>

definition rebuild_disk ::
    "platform \<Rightarrow> nat \<Rightarrow> (nat \<Rightarrow> bool) \<Rightarrow> (nat \<Rightarrow> nat \<Rightarrow> block) \<Rightarrow> nat \<Rightarrow> nat \<Rightarrow> block" where
  "rebuild_disk E n ld ds = ds(Suc n := (\<lambda>b. if b \<le> diskblockn \<and> ld (b div CLUSTER_SIZE)
      then xsum (\<lambda>i. ds (Suc i) b) [i \<leftarrow> [0..<DISKS E]. i \<noteq> n] else ds (Suc n) b))"

lemma repair_block_Ok:
  assumes gp: "get_parity (raidmeta s) = Ok p" and cl: "clusterlock p = initsleeplock"
    and idle: "cpu_idle (hart s)" and pg: "0 < pg" and n: "n < DISKS E" and b: "b \<le> diskblockn"
    and dn: "\<And>i. i < DISKS E \<Longrightarrow> diskn (diskinfo (raidmeta s) i) = Suc i"
  shows "\<exists>T. repair_block E n pg b s = Ok (s\<lparr>disks := (if cluster_loaded p (b div CLUSTER_SIZE)
      then (disks s)(Suc n := (disks s (Suc n))(b := xsum (\<lambda>i. disks s (Suc i) b) [i \<leftarrow> [0..<DISKS E]. i \<noteq> n]))
      else disks s), tbuf := T\<rparr>)"
proof (cases "cluster_loaded p (b div CLUSTER_SIZE)")
  case True
  let ?x = "xsum (\<lambda>i. disks s (Suc i) b) [i \<leftarrow> [0..<DISKS E]. i \<noteq> n]"
  obtain T where T: "for_each (xor_step E (\<lambda>i m. i \<noteq> n) b) [0..<DISKS E] (zero_block, s)
      = Ok (?x, s\<lparr>tbuf := T\<rparr>)"
    using xor_steps_Ok [OF order_refl b, of E s "\<lambda>i m. i \<noteq> n"] dn by auto
  moreover have "device_ok E (Suc n) b" using n b by auto
  ultimately show ?thesis
    using True gp cl idle pg n dn
    by (auto simp: repair_block_def touch_page_def write_block_Ok)
next
  case False
  then show ?thesis
    using gp cl idle by (auto simp: repair_block_def intro!: exI [of _ "tbuf s"])
qed

lemma repair_blocks_Ok:
  assumes gp: "get_parity (raidmeta s) = Ok p" and cl: "clusterlock p = initsleeplock"
    and idle: "cpu_idle (hart s)" and pg: "0 < pg" and n: "n < DISKS E"
    and dn: "\<And>i. i < DISKS E \<Longrightarrow> diskn (diskinfo (raidmeta s) i) = Suc i"
  shows "\<exists>T. for_each (repair_block E n pg) [0..<diskblockn + 1] s =
           Ok (s\<lparr>disks := rebuild_disk E n (cluster_loaded p) (disks s), tbuf := T\<rparr>)"
proof -
  let ?x = "\<lambda>b. xsum (\<lambda>i. disks s (Suc i) b) [i \<leftarrow> [0..<DISKS E]. i \<noteq> n]"
  let ?ds = "\<lambda>k. (disks s)(Suc n := (\<lambda>b. if b < k \<and> cluster_loaded p (b div CLUSTER_SIZE)
                                        then ?x b else disks s (Suc n) b))"
  let ?I = "\<lambda>k t. \<exists>T. t = s\<lparr>disks := ?ds k, tbuf := T\<rparr>"
  have "\<exists>s'. for_each (repair_block E n pg) [0..<diskblockn + 1] s = Ok s' \<and> ?I (diskblockn + 1) s'"
  proof (rule for_each_upt_rule [where I = ?I])
    show "?I 0 s" by (auto intro!: exI [of _ "tbuf s"])
  next
    fix k t
    assume k: "k < diskblockn + 1" and "?I k t"
    then obtain T where t: "t = s\<lparr>disks := ?ds k, tbuf := T\<rparr>" by blast
    have x: "xsum (\<lambda>i. disks t (Suc i) k) [i \<leftarrow> [0..<DISKS E]. i \<noteq> n] = ?x k"
      by (rule xsum_cong) (auto simp: t)
    have "get_parity (raidmeta t) = Ok p" "cpu_idle (hart t)" "k \<le> diskblockn"
        "\<And>i. i < DISKS E \<Longrightarrow> diskn (diskinfo (raidmeta t) i) = Suc i"
      using gp idle dn k by (auto simp: t)
    from repair_block_Ok [OF this(1) cl this(2) pg n this(3,4), unfolded x]
    obtain U where "repair_block E n pg k t = Ok (t\<lparr>disks := (if cluster_loaded p (k div CLUSTER_SIZE)
        then (disks t)(Suc n := (disks t (Suc n))(k := ?x k)) else disks t), tbuf := U\<rparr>)"
      by blast
    moreover have "(if cluster_loaded p (k div CLUSTER_SIZE)
        then (disks t)(Suc n := (disks t (Suc n))(k := ?x k)) else disks t) = ?ds (Suc k)"
      by (auto simp: t fun_eq_iff less_Suc_eq)
    ultimately have "repair_block E n pg k t = Ok (s\<lparr>disks := ?ds (Suc k), tbuf := U\<rparr>)"
      by (simp add: t)
    then show "\<exists>s'. repair_block E n pg k t = Ok s' \<and> ?I (Suc k) s'" by blast
  qed simp
  then show ?thesis by (auto simp: rebuild_disk_def less_Suc_eq_le)
qed

lemma unlock_set_valid:
  assumes "\<And>i. i < DISKS E \<Longrightarrow> dlock (diskinfo (raidmeta s) i) = initsleeplock"
  shows "unlock_all E (raidmeta (set_valid n v (s\<lparr>raidmeta := lock_all E q (raidmeta s)\<rparr>)))
       = raidmeta (set_valid n v s)"
proof -
  have "(\<lambda>i. if i < DISKS E
          then (((diskinfo (lock_all E q (raidmeta s)))
                 (n := (diskinfo (lock_all E q (raidmeta s)) n)\<lparr>valid := v\<rparr>)) i)\<lparr>dlock := initsleeplock\<rparr>
          else ((diskinfo (lock_all E q (raidmeta s)))
                 (n := (diskinfo (lock_all E q (raidmeta s)) n)\<lparr>valid := v\<rparr>)) i)
      = (diskinfo (raidmeta s))(n := (diskinfo (raidmeta s) n)\<lparr>valid := v\<rparr>)"
    using assms by (auto simp: lock_all_def fun_eq_iff intro: DiskInfo.equality)
  then show ?thesis
    by (simp add: unlock_all_def set_valid_def set_disk_def lock_all_def del: fun_upd_apply cong: if_cong)
qed

lemma raidrepair_raid4_Ok:
  assumes ok: "base_ok E s" and gp: "get_parity (raidmeta s) = Ok p" and idle: "parity_idle p"
    and km: "kmem_inv (kernel_end E) (kmem s) (pg # pgs)" and n: "n < DISKS E"
    and others: "\<And>i. i < DISKS E \<Longrightarrow> i \<noteq> n \<Longrightarrow> valid (diskinfo (raidmeta s) i)"
  shows "\<exists>T. raidrepair_raid4 E n s = Ok (None, (set_valid n True s)\<lparr>
           disks := rebuild_disk E n (cluster_loaded p) (disks s), tbuf := T\<rparr>)"
proof -
  note bk = base_okD [OF ok]
  have p: "clusterlock p = initsleeplock" "repairlock p = initlock" "writecount p = 0" "repairing p = 0"
    using idle by (auto simp: parity_idle_def)
  have loop: "\<not> list_ex (\<lambda>i. i \<noteq> n \<and> \<not> valid (diskinfo (raidmeta s) i)) [0..<DISKS E]"
    unfolding list_ex_iff using others by (metis atLeastLessThan_iff set_upt)
  let ?p = "p\<lparr>repairing := 1\<rparr>"
  let ?s1 = "(set_parity ?p s)\<lparr>kmem := kmem_taken (kmem s)\<rparr>"
  let ?s2 = "?s1\<lparr>raidmeta := lock_all E (pid s) (raidmeta ?s1)\<rparr>"
  let ?ds = "rebuild_disk E n (cluster_loaded p) (disks s)"
  have alloc: "alloc_page (set_parity ?p s) = Ok (pg, ?s1)"
    using alloc_page_Ok [of E "set_parity ?p s" pg pgs] km bk(2) by simp
  have acq: "acquire_disks E ?s1 = Ok ?s2"
    using acquire_disks_Ok [of ?s1 E] bk(2,3) by simp
  have "\<exists>T. for_each (repair_block E n pg) [0..<diskblockn + 1] ?s2 =
      Ok (?s2\<lparr>disks := rebuild_disk E n (cluster_loaded ?p) (disks ?s2), tbuf := T\<rparr>)"
    by (rule repair_blocks_Ok) (use gp p(1) bk(2,4) n kmem_inv_nonzero [OF km] in simp_all)
  moreover have "rebuild_disk E n (cluster_loaded ?p) (disks ?s2) = ?ds" by simp
  ultimately obtain T where T: "for_each (repair_block E n pg) [0..<diskblockn + 1] ?s2 =
      Ok (?s2\<lparr>disks := ?ds, tbuf := T\<rparr>)"
    by metis
  let ?s3 = "(set_valid n True ?s2)\<lparr>disks := ?ds, tbuf := T\<rparr>"
  have unl: "unlock_all E (raidmeta (set_valid n True ?s2)) = raidmeta (set_valid n True ?s1)"
    using unlock_set_valid [of E ?s1 n True "pid s"] bk(3) by simp
  have rel: "release_disks E ?s3 = Ok ((set_valid n True ?s1)\<lparr>disks := ?ds, tbuf := T\<rparr>)"
  proof -
    have "release_disks E ?s3 = Ok (?s3\<lparr>raidmeta := unlock_all E (raidmeta ?s3)\<rparr>)"
      using bk(2) by (intro release_disks_Ok) auto
    also have "?s3\<lparr>raidmeta := unlock_all E (raidmeta ?s3)\<rparr> =
        (set_valid n True ?s1)\<lparr>disks := ?ds, tbuf := T\<rparr>"
      using unl by (simp add: set_valid_def set_disk_def)
    finally show ?thesis .
  qed
  let ?s4 = "(set_valid n True (set_parity ?p s))\<lparr>disks := ?ds, tbuf := T\<rparr>"
  have free: "free_page E pg ((set_valid n True ?s1)\<lparr>disks := ?ds, tbuf := T\<rparr>) = Ok ?s4"
    using free_page_Ok [OF km, of "(set_valid n True ?s1)\<lparr>disks := ?ds, tbuf := T\<rparr>"] bk(2) by simp
  let ?c = "push_off (hart s)" and ?q = "p\<lparr>repairlock := spin_held (hart s)\<rparr>"
    and ?r = "?p\<lparr>repairlock := spin_held (hart s)\<rparr>"
  have rep: "acquire_repair s = Ok (?q, (set_parity ?q s)\<lparr>hart := ?c\<rparr>)"
      "release_repair (?q\<lparr>repairing := repairing ?q + 1\<rparr>) ((set_parity ?q s)\<lparr>hart := ?c\<rparr>)
         = Ok (set_parity ?p s)"
      "acquire_repair ?s4 = Ok (?r, (set_parity ?r ?s4)\<lparr>hart := ?c\<rparr>)"
      "release_repair (?r\<lparr>repairing := repairing ?r - 1\<rparr>) ((set_parity ?r ?s4)\<lparr>hart := ?c\<rparr>)
         = Ok ((set_valid n True s)\<lparr>disks := ?ds, tbuf := T\<rparr>)"
    using gp p bk(2) by simp_all
  have wait: "\<not> (writecount (?q\<lparr>repairing := repairing ?q + 1\<rparr>) \<noteq> 0 \<and>
                 repairing (?q\<lparr>repairing := repairing ?q + 1\<rparr>) \<noteq> 0)"
    using p by simp
  have sv: "set_valid n True (?s2\<lparr>disks := ?ds, tbuf := T\<rparr>) = ?s3" by simp
  have "raidrepair_raid4 E n s = Ok (None, (set_valid n True s)\<lparr>disks := ?ds, tbuf := T\<rparr>)"
    unfolding raidrepair_raid4_def if_not_P [OF loop] rep Let_def bindR.simps prod.case
      if_not_P [OF wait] alloc acq T sv rel free ..
  then show ?thesis by blast
qed

end
