(* ===== verification/Raid_Spec.thy ===== *)
theory Raid_Spec
  imports Raid_Ops
begin

text \<open>
  What an array of any level promises to its clients, as an abstract machine: a set of failed
  disks and the contents of the logical blocks that have been written. The locale
  \<open>raid_array\<close> states the laws a level owes (what a write stores, what a failure or a repair
  keeps); the simulation of the abstract machine is proved once from them.
\<close>

text \<open>The message of the guard at the head of every read and write function of a level (panic
  messages are written without their newline).\<close>

abbreviation wrong_raid :: string where
  "wrong_raid \<equiv> ''wrong raid function called''"

section \<open>The abstract array\<close>

datatype rop = Write nat block | Fail nat | Repair nat

record astate =
  failed :: "nat set"
  content :: "nat \<rightharpoonup> block"

primrec astep :: "rop \<Rightarrow> astate \<Rightarrow> astate" where
  "astep (Write v x) a = a\<lparr>content := (content a)(v \<mapsto> x)\<rparr>"
| "astep (Fail d) a = a\<lparr>failed := insert d (failed a)\<rparr>"
| "astep (Repair d) a = a\<lparr>failed := failed a - {d}\<rparr>"

text \<open>The operations a client may ask for: blocks and disks in range, and never more failures than
  the level tolerates (\<open>tol\<close>).\<close>

primrec legal :: "platform \<Rightarrow> nat \<Rightarrow> (nat set \<Rightarrow> bool) \<Rightarrow> astate \<Rightarrow> rop \<Rightarrow> bool" where
  "legal E cap tol a (Write v x) \<longleftrightarrow> v < cap \<and> is_block x"
| "legal E cap tol a (Fail d) \<longleftrightarrow> 1 \<le> d \<and> d \<le> DISKS E \<and> tol (insert d (failed a))"
| "legal E cap tol a (Repair d) \<longleftrightarrow> 1 \<le> d \<and> d \<le> DISKS E"

primrec legal_run :: "platform \<Rightarrow> nat \<Rightarrow> (nat set \<Rightarrow> bool) \<Rightarrow> astate \<Rightarrow> rop list \<Rightarrow> bool" where
  "legal_run E cap tol a [] \<longleftrightarrow> True"
| "legal_run E cap tol a (p # ps) \<longleftrightarrow> legal E cap tol a p \<and> legal_run E cap tol (astep p a) ps"

text \<open>The disk numbers (1 to \<open>DISKS\<close>) of the disks marked invalid.\<close>

definition failed_disks :: "platform \<Rightarrow> kstate \<Rightarrow> nat set" where
  "failed_disks E s = {d. 1 \<le> d \<and> d \<le> DISKS E \<and> \<not> valid (diskinfo (raidmeta s) (d - 1))}"

definition start :: "platform \<Rightarrow> kstate \<Rightarrow> astate" where
  "start E s = \<lparr>failed = failed_disks E s, content = Map.empty\<rparr>"

section \<open>The kernel running the same operations\<close>

type_synonym read_fn = "int \<Rightarrow> block \<Rightarrow> kstate \<Rightarrow> (u64 \<times> block \<times> kstate) result"
type_synonym write_fn = "int \<Rightarrow> block \<Rightarrow> kstate \<Rightarrow> (u64 \<times> kstate) result"

primrec run_op :: "platform \<Rightarrow> write_fn \<Rightarrow> rop \<Rightarrow> kstate \<Rightarrow> (u64 \<times> kstate) result" where
  "run_op E wr (Write v x) s = wr (int v) x s"
| "run_op E wr (Fail d) s = raidfail E (int d) s"
| "run_op E wr (Repair d) s = raidrepair E (int d) s"

text \<open>All operations in order; the run stops when one of them returns an error code.\<close>

primrec run_ops :: "platform \<Rightarrow> write_fn \<Rightarrow> rop list \<Rightarrow> kstate \<Rightarrow> (u64 \<times> kstate) result" where
  "run_ops E wr [] s = Ok (0, s)"
| "run_ops E wr (p # ps) s =
     bindR (run_op E wr p s) (\<lambda>(r, s). if r \<noteq> 0 then Ok (r, s) else run_ops E wr ps s)"

text \<open>\<open>keeps f s s'\<close>: what \<open>f\<close> says is stored in \<open>s\<close> is still stored in \<open>s'\<close>.\<close>

definition keeps :: "nat \<Rightarrow> (kstate \<Rightarrow> nat \<Rightarrow> block \<Rightarrow> bool) \<Rightarrow> kstate \<Rightarrow> kstate \<Rightarrow> bool" where
  "keeps cap f s s' \<longleftrightarrow> (\<forall>w y. w < cap \<longrightarrow> f s w y \<longrightarrow> f s' w y)"

section \<open>The contract\<close>

locale raid_array =
  fixes E :: platform
    and rd :: read_fn
    and wr :: write_fn
    and inv :: "kstate \<Rightarrow> bool"
    and cap :: nat
    and tol :: "nat set \<Rightarrow> bool"
    and stores :: "kstate \<Rightarrow> nat \<Rightarrow> block \<Rightarrow> bool"
  assumes tol_mono: "tol F \<Longrightarrow> G \<subseteq> F \<Longrightarrow> tol G"
    and read_law: "inv s \<Longrightarrow> tol (failed_disks E s) \<Longrightarrow> v < cap \<Longrightarrow> stores s v x \<Longrightarrow>
       \<exists>T. rd (int v) buf s = Ok (0, x, s\<lparr>tbuf := T\<rparr>)"
    and write_law: "inv s \<Longrightarrow> tol (failed_disks E s) \<Longrightarrow> v < cap \<Longrightarrow> is_block x \<Longrightarrow>
       \<exists>s'. wr (int v) x s = Ok (0, s') \<and> inv s' \<and> failed_disks E s' = failed_disks E s \<and>
            stores s' v x \<and> (\<forall>w y. w < cap \<longrightarrow> w \<noteq> v \<longrightarrow> stores s w y \<longrightarrow> stores s' w y)"
    and fail_law: "inv s \<Longrightarrow> 1 \<le> d \<Longrightarrow> d \<le> DISKS E \<Longrightarrow> tol (insert d (failed_disks E s)) \<Longrightarrow>
       \<exists>s'. raidfail E (int d) s = Ok (0, s') \<and> inv s' \<and>
            failed_disks E s' = insert d (failed_disks E s) \<and> keeps cap stores s s'"
    and repair_law: "inv s \<Longrightarrow> 1 \<le> d \<Longrightarrow> d \<le> DISKS E \<Longrightarrow> tol (failed_disks E s) \<Longrightarrow>
       \<exists>s'. raidrepair E (int d) s = Ok (0, s') \<and> inv s' \<and>
            failed_disks E s' = failed_disks E s - {d} \<and> keeps cap stores s s'"
begin

definition refines :: "kstate \<Rightarrow> astate \<Rightarrow> bool" where
  "refines s a \<longleftrightarrow> inv s \<and> failed a = failed_disks E s \<and> tol (failed a) \<and>
     (\<forall>v x. content a v = Some x \<longrightarrow> v < cap \<and> stores s v x)"

lemma sim_step:
  assumes "refines s a" "legal E cap tol a p"
  shows "\<exists>s'. run_op E wr p s = Ok (0, s') \<and> refines s' (astep p a)"
proof (cases p)
  case (Write v x)
  with assms write_law [of s v x] show ?thesis by (auto simp: refines_def)
next
  case (Fail d)
  with assms fail_law [of s d] show ?thesis by (auto simp: refines_def keeps_def)
next
  case (Repair d)
  with assms repair_law [of s d] tol_mono [of "failed_disks E s" "failed_disks E s - {d}"]
  show ?thesis by (auto simp: refines_def keeps_def)
qed

lemma sim_run:
  "refines s a \<Longrightarrow> legal_run E cap tol a ps \<Longrightarrow>
   \<exists>s'. run_ops E wr ps s = Ok (0, s') \<and> refines s' (fold astep ps a)"
proof (induction ps arbitrary: s a)
  case Nil
  then show ?case by simp
next
  case (Cons p ps)
  from Cons.prems obtain s1 where "run_op E wr p s = Ok (0, s1)" "refines s1 (astep p a)"
    using sim_step [of s a p] by auto
  with Cons show ?case by auto
qed

lemma start_refines: "inv s \<Longrightarrow> tol (failed_disks E s) \<Longrightarrow> refines s (start E s)"
  by (simp add: refines_def start_def)

text \<open>The client's theorem: after any legal sequence of writes, disk failures and repairs, a read
  returns what was written last.\<close>

lemma read_back:
  assumes "inv s" "tol (failed_disks E s)" "legal_run E cap tol (start E s) ps"
  shows "\<exists>s'. run_ops E wr ps s = Ok (0, s') \<and> inv s' \<and>
    failed_disks E s' = failed (fold astep ps (start E s)) \<and>
    (\<forall>v x buf. content (fold astep ps (start E s)) v = Some x \<longrightarrow>
       (\<exists>T. rd (int v) buf s' = Ok (0, x, s'\<lparr>tbuf := T\<rparr>)))"
proof -
  obtain s' where s': "run_ops E wr ps s = Ok (0, s')" "refines s' (fold astep ps (start E s))"
    using sim_run [OF start_refines assms(3)] assms(1,2) by blast
  then show ?thesis using read_law [of s'] by (auto simp: refines_def)
qed

end

section \<open>Shared facts of the levels\<close>

definition meta_ok :: "RAID_TYPE \<Rightarrow> RAIDMeta \<Rightarrow> bool" where
  "meta_ok t m \<longleftrightarrow> rtype m = t \<and> \<not> isDestroyed m \<and> mread m = Some t \<and> mwrite m = Some t"

text \<open>What \<open>raidrepair\<close> does after the case of its \<open>switch\<close> for the level.\<close>

abbreviation after_switch :: "platform \<Rightarrow> u64 option \<times> kstate \<Rightarrow> (u64 \<times> kstate) result" where
  "after_switch E \<equiv> (\<lambda>(r, s). case r of Some r \<Rightarrow> Ok (r, s)
                               | None \<Rightarrow> bindR (writeraidmeta E s) (\<lambda>s. Ok (0, s)))"

lemma failed_disks_set_valid:
  assumes "i < DISKS E"
  shows "failed_disks E (set_valid i True s) = failed_disks E s - {Suc i}"
    and "failed_disks E (set_valid i False s) = insert (Suc i) (failed_disks E s)"
  using assms by (auto simp: failed_disks_def split: if_splits)

lemma failed_disks_cong:
  "(\<And>i. i < DISKS E \<Longrightarrow> valid (diskinfo (raidmeta s') i) = valid (diskinfo (raidmeta s) i)) \<Longrightarrow>
   failed_disks E s' = failed_disks E s"
  by (auto simp: failed_disks_def)

lemma failed_disks_upd [simp]:
  "failed_disks E (s\<lparr>disks := ds\<rparr>) = failed_disks E s" "failed_disks E (s\<lparr>tbuf := T\<rparr>) = failed_disks E s"
  by (simp_all add: failed_disks_def)

lemma not_failed: "i < DISKS E \<Longrightarrow> Suc i \<notin> failed_disks E s \<longleftrightarrow> valid (diskinfo (raidmeta s) i)"
  by (auto simp: failed_disks_def)

lemma disk_number: "1 \<le> d \<Longrightarrow> d \<le> n \<Longrightarrow> \<exists>i. d = Suc i \<and> i < n"
  by (cases d) auto

lemma raidrepair_valid:
  assumes "\<not> isDestroyed (raidmeta s)" "i < DISKS E" "valid (diskinfo (raidmeta s) i)"
  shows "raidrepair E (int (Suc i)) s = Ok (0, s)"
  using assms by (simp add: raidrepair_def Let_def)

end
