(* ===== verification/Raid0.thy ===== *)
theory Raid0
  imports Raid_Spec
begin

text \<open>RAID 0, striping (kernel/raid0.c): logical block \<open>v\<close> is block \<open>v / DISKS\<close> of disk
  \<open>v % DISKS\<close> (counted from 0).\<close>

section \<open>Definitions\<close>

definition raid0read :: "platform \<Rightarrow> int \<Rightarrow> block \<Rightarrow> kstate \<Rightarrow> (u64 \<times> block \<times> kstate) result" where
  "raid0read E vblkn data s =
     (if rtype (raidmeta s) \<noteq> RAID0 then Panic wrong_raid
      else if bad_block E (raidmeta s) vblkn then Ok (- 1, data, s)
      else let n = nat vblkn mod DISKS E;
               pblkn = nat vblkn div DISKS E
           in if \<not> valid (diskinfo (raidmeta s) n) then Ok (- 1, data, s)
              else bindR (acquire_disk n s) (\<lambda>s.
                   bindR (read_block E (diskn (diskinfo (raidmeta s) n)) pblkn s) (\<lambda>(data, s).
                   bindR (release_disk n s) (\<lambda>s. Ok (0, data, s)))))"

definition raid0write :: "platform \<Rightarrow> int \<Rightarrow> block \<Rightarrow> kstate \<Rightarrow> (u64 \<times> kstate) result" where
  "raid0write E vblkn data s =
     (if rtype (raidmeta s) \<noteq> RAID0 then Panic wrong_raid
      else if bad_block E (raidmeta s) vblkn then Ok (- 1, s)
      else let n = nat vblkn mod DISKS E;
               pblkn = nat vblkn div DISKS E
           in if \<not> valid (diskinfo (raidmeta s) n) then Ok (- 1, s)
              else bindR (acquire_disk n s) (\<lambda>s.
                   bindR (write_block E (diskn (diskinfo (raidmeta s) n)) pblkn data s) (\<lambda>s.
                   bindR (release_disk n s) (\<lambda>s. Ok (0, s)))))"

section \<open>Behaviour\<close>

definition raid0_inv :: "platform \<Rightarrow> kstate \<Rightarrow> bool" where
  "raid0_inv E s \<longleftrightarrow> base_ok E s \<and> meta_ok RAID0 (raidmeta s)"

definition raid0_stores :: "platform \<Rightarrow> kstate \<Rightarrow> nat \<Rightarrow> block \<Rightarrow> bool" where
  "raid0_stores E s v x \<longleftrightarrow> disks s (Suc (v mod DISKS E)) (v div DISKS E) = x"

abbreviation raid0_cap :: "platform \<Rightarrow> nat" where
  "raid0_cap E \<equiv> diskblockn * DISKS E"

lemma raid0_loc:
  assumes "v < raid0_cap E"
  shows "v mod DISKS E < DISKS E" "v div DISKS E < diskblockn" "0 < DISKS E"
proof -
  show D: "0 < DISKS E" using assms by (cases "DISKS E") auto
  then show "v mod DISKS E < DISKS E" by simp
  show "v div DISKS E < diskblockn" using assms by (rule less_mult_imp_div_less)
qed

lemma raid0_loc_inj: "v mod D = w mod D \<Longrightarrow> v div D = w div D \<Longrightarrow> v = (w :: nat)"
  by (metis div_mult_mod_eq)

lemma raid0read_valid:
  assumes "raid0_inv E s" "v < raid0_cap E" "valid (diskinfo (raidmeta s) (v mod DISKS E))"
  shows "\<exists>T. raid0read E (int v) buf s =
           Ok (0, disks s (Suc (v mod DISKS E)) (v div DISKS E), s\<lparr>tbuf := T\<rparr>)"
proof -
  note l = raid0_loc [OF assms(2)]
  note bk = base_okD [of E s]
  have "device_ok E (Suc (v mod DISKS E)) (v div DISKS E)" using l by (intro device_ok_Suc) auto
  then show ?thesis
    using assms l bk
    by (auto simp: raid0read_def raid0_inv_def meta_ok_def raidblockn_def Let_def acquire_disk_Ok
         read_block_Ok release_disk_Ok)
qed

lemma raid0read_invalid:
  assumes "raid0_inv E s" "v < raid0_cap E" "\<not> valid (diskinfo (raidmeta s) (v mod DISKS E))"
  shows "raid0read E (int v) buf s = Ok (- 1, buf, s)"
  using assms by (auto simp: raid0read_def raid0_inv_def meta_ok_def raidblockn_def Let_def)

lemma raid0write_valid:
  assumes "raid0_inv E s" "v < raid0_cap E" "is_block x" "valid (diskinfo (raidmeta s) (v mod DISKS E))"
  shows "\<exists>T. raid0write E (int v) x s = Ok (0, s\<lparr>disks := (disks s)(Suc (v mod DISKS E) :=
           (disks s (Suc (v mod DISKS E)))(v div DISKS E := x)), tbuf := T\<rparr>)"
proof -
  note l = raid0_loc [OF assms(2)]
  note bk = base_okD [of E s]
  have "device_ok E (Suc (v mod DISKS E)) (v div DISKS E)" using l by (intro device_ok_Suc) auto
  then show ?thesis
    using assms l bk
    by (auto simp: raid0write_def raid0_inv_def meta_ok_def raidblockn_def Let_def acquire_disk_Ok
         write_block_Ok release_disk_Ok)
qed

lemma raid0_range:
  assumes "rtype (raidmeta s) = RAID0" "v < 0 \<or> int (raid0_cap E) \<le> v"
  shows "raid0read E v buf s = Ok (- 1, buf, s)" "raid0write E v x s = Ok (- 1, s)"
  using assms by (auto simp: raid0read_def raid0write_def bad_block_def raidblockn_def)

text \<open>RAID 0 tolerates no failure.\<close>

definition raid0_tol :: "nat set \<Rightarrow> bool" where
  "raid0_tol F \<longleftrightarrow> F = {}"

interpretation r0: raid_array E "raid0read E" "raid0write E" "raid0_inv E" "raid0_cap E" raid0_tol
  "raid0_stores E" for E
proof (unfold_locales, goal_cases)
  case (1 F G)
  then show ?case by (auto simp: raid0_tol_def)
next
  case (2 s v x buf)
  note l = raid0_loc [OF \<open>v < raid0_cap E\<close>]
  from 2 l have "valid (diskinfo (raidmeta s) (v mod DISKS E))"
    using not_failed [of "v mod DISKS E" E s] by (auto simp: raid0_tol_def)
  with 2 show ?case using raid0read_valid [of E s v buf] by (auto simp: raid0_stores_def)
next
  case (3 s v x)
  note l = raid0_loc [OF \<open>v < raid0_cap E\<close>]
  from 3 l have "valid (diskinfo (raidmeta s) (v mod DISKS E))"
    using not_failed [of "v mod DISKS E" E s] by (auto simp: raid0_tol_def)
  with 3 obtain T where T: "raid0write E (int v) x s = Ok (0, s\<lparr>disks := (disks s)(Suc (v mod DISKS E) :=
           (disks s (Suc (v mod DISKS E)))(v div DISKS E := x)), tbuf := T\<rparr>)" (is "_ = Ok (0, ?s)")
    using raid0write_valid by blast
  have "raid0_inv E ?s"
    using 3 by (auto simp: raid0_inv_def intro!: base_ok_disks dest: base_okD(6))
  moreover have "raid0_stores E ?s v x" by (simp add: raid0_stores_def)
  moreover have "raid0_stores E ?s w y" if "w \<noteq> v" "raid0_stores E s w y" for w y
    using that raid0_loc_inj [of w "DISKS E" v] by (auto simp: raid0_stores_def)
  ultimately show ?case using T by auto
next
  case (4 s d)
  then show ?case by (auto simp: raid0_tol_def)
next
  case (5 s d)
  then obtain i where i: "d = Suc i" "i < DISKS E" using disk_number by blast
  with 5 have v: "valid (diskinfo (raidmeta s) i)"
    using not_failed [of i E s] by (auto simp: raid0_tol_def)
  have "raidrepair E (int d) s = Ok (0, s)"
    using 5 i v raidrepair_valid [of s i E] by (simp add: raid0_inv_def meta_ok_def)
  with 5 show ?case by (auto simp: raid0_tol_def keeps_def)
qed

end
