(* ===== verification/Raid_Mirror.thy ===== *)
theory Raid_Mirror
  imports Raid_Spec
begin

text \<open>
  What RAID 1 and RAID 0+1 share. Both keep every logical block on a pair of disks and differ in
  which disks form a pair and in where a logical block lies; the locale \<open>mirror_layout\<close> states
  what a layout must satisfy and gives the contract \<open>raid_array\<close> for it.
\<close>

section \<open>State of a mirrored array\<close>

text \<open>\<open>np\<close> pairs, pair \<open>k\<close> made of the disks \<open>d0 k\<close> and \<open>d1 k\<close> (counted from 0; the index \<open>DISKS\<close>
  is the entry of \<open>diskinfo\<close> that is never valid); logical block \<open>v\<close> is block \<open>bk v\<close> of pair \<open>pr v\<close>.\<close>

definition pairs_idle :: "nat \<Rightarrow> (nat \<Rightarrow> nat) \<Rightarrow> (nat \<Rightarrow> nat) \<Rightarrow> RAIDMeta \<Rightarrow> bool" where
  "pairs_idle np d0 d1 m \<longleftrightarrow> (\<forall>k < np. \<exists>dp. get_pair m k = Ok dp \<and> pair_idle dp (d0 k) (d1 k))"

definition mirror_stores ::
    "(nat \<Rightarrow> nat) \<Rightarrow> (nat \<Rightarrow> nat) \<Rightarrow> (nat \<Rightarrow> nat) \<Rightarrow> (nat \<Rightarrow> nat) \<Rightarrow> kstate \<Rightarrow> nat \<Rightarrow> block \<Rightarrow> bool" where
  "mirror_stores d0 d1 pr bk s v x \<longleftrightarrow>
     (\<forall>d. d = d0 (pr v) \<or> d = d1 (pr v) \<longrightarrow> valid (diskinfo (raidmeta s) d) \<longrightarrow> disks s (Suc d) (bk v) = x)"

text \<open>A set of failures is tolerated when every pair keeps a disk.\<close>

definition mirror_tol :: "platform \<Rightarrow> nat \<Rightarrow> (nat \<Rightarrow> nat) \<Rightarrow> (nat \<Rightarrow> nat) \<Rightarrow> nat set \<Rightarrow> bool" where
  "mirror_tol E np d0 d1 F \<longleftrightarrow>
     (\<forall>k < np. d0 k < DISKS E \<and> Suc (d0 k) \<notin> F \<or> d1 k < DISKS E \<and> Suc (d1 k) \<notin> F)"

definition mirror_inv ::
    "platform \<Rightarrow> bool \<Rightarrow> RAID_TYPE \<Rightarrow> nat \<Rightarrow> (nat \<Rightarrow> nat) \<Rightarrow> (nat \<Rightarrow> nat) \<Rightarrow> kstate \<Rightarrow> bool" where
  "mirror_inv E geom t np d0 d1 s \<longleftrightarrow>
     geom \<and> base_ok E s \<and> meta_ok t (raidmeta s) \<and> pairs_idle np d0 d1 (raidmeta s)"

lemma mirror_inv_upd:
  assumes "mirror_inv E geom t np d0 d1 s"
  shows "(\<And>d b. is_block (ds d b)) \<Longrightarrow> mirror_inv E geom t np d0 d1 (s\<lparr>disks := ds, tbuf := T\<rparr>)"
    and "i < DISKS E \<Longrightarrow> mirror_inv E geom t np d0 d1 (set_valid i v s)"
  using assms
  by (auto simp: mirror_inv_def meta_ok_def pairs_idle_def intro: base_ok_disks base_ok_set_valid)

lemma is_block_copy_disk: "(\<And>d b. is_block (ds d b)) \<Longrightarrow> is_block (copy_disk i j ds d b)"
  by (simp add: copy_disk_def)

lemma is_block_mirror_disks:
  "(\<And>d b. is_block (ds d b)) \<Longrightarrow> is_block x \<Longrightarrow> is_block (mirror_disks m i j b x ds d c)"
  by (simp add: mirror_disks_def)

section \<open>The layout contract\<close>

locale mirror_layout =
  fixes E :: platform
    and geom :: bool
    and t :: RAID_TYPE
    and np :: nat
    and d0 d1 pr bk :: "nat \<Rightarrow> nat"
    and cap :: nat
    and rd :: read_fn
    and wr :: write_fn
  assumes rd_pair: "rtype (raidmeta s) = t \<Longrightarrow> v < cap \<Longrightarrow>
       rd (int v) buf s = readdiskpair E (pr v) (bk v) buf s"
    and wr_pair: "rtype (raidmeta s) = t \<Longrightarrow> v < cap \<Longrightarrow>
       wr (int v) x s = writediskpair E (pr v) (bk v) x s"
    and loc: "v < cap \<Longrightarrow> pr v < np \<and> bk v < diskblockn"
    and loc_inj: "v < cap \<Longrightarrow> w < cap \<Longrightarrow> pr v = pr w \<Longrightarrow> bk v = bk w \<Longrightarrow> v = w"
    and ends: "k < np \<Longrightarrow> d0 k < DISKS E \<and> d1 k \<le> DISKS E \<and> d0 k \<noteq> d1 k"
    and ends_inj: "k < np \<Longrightarrow> l < np \<Longrightarrow> d = d0 k \<or> d = d1 k \<Longrightarrow> d = d0 l \<or> d = d1 l \<Longrightarrow> k = l"
    and cover: "geom \<Longrightarrow> n < DISKS E \<Longrightarrow> \<exists>k < np. n = d0 k \<or> n = d1 k"
    and repair_switch: "geom \<Longrightarrow> meta_ok t (raidmeta s) \<Longrightarrow> k < np \<Longrightarrow> get_pair (raidmeta s) k = Ok dp \<Longrightarrow>
       pair_idle dp (d0 k) (d1 k) \<Longrightarrow> n < DISKS E \<Longrightarrow> \<not> valid (diskinfo (raidmeta s) n) \<Longrightarrow>
       n = d0 k \<and> q = d1 k \<or> n = d1 k \<and> q = d0 k \<Longrightarrow>
       raidrepair E (int (Suc n)) s = bindR (repair_pair E k n q s) (after_switch E)"
begin

abbreviation inv :: "kstate \<Rightarrow> bool" where
  "inv \<equiv> mirror_inv E geom t np d0 d1"

abbreviation tol :: "nat set \<Rightarrow> bool" where
  "tol \<equiv> mirror_tol E np d0 d1"

abbreviation stores :: "kstate \<Rightarrow> nat \<Rightarrow> block \<Rightarrow> bool" where
  "stores \<equiv> mirror_stores d0 d1 pr bk"

lemma survivor:
  assumes "tol (failed_disks E s)" "k < np"
  shows "valid (diskinfo (raidmeta s) (d0 k)) \<or> d1 k < DISKS E \<and> valid (diskinfo (raidmeta s) (d1 k))"
  using assms not_failed [of "d0 k" E s] not_failed [of "d1 k" E s] by (auto simp: mirror_tol_def)

lemma inv_pair:
  assumes "inv s" "k < np"
  obtains dp where "get_pair (raidmeta s) k = Ok dp" "pair_idle dp (d0 k) (d1 k)"
  using assms by (auto simp: mirror_inv_def pairs_idle_def)

lemma inv_base:
  assumes "inv s"
  shows "base_ok E s" "rtype (raidmeta s) = t" "\<not> isDestroyed (raidmeta s)" "geom" "meta_ok t (raidmeta s)"
  using assms by (auto simp: mirror_inv_def meta_ok_def)

lemma mirror_read:
  assumes "inv s" "tol (failed_disks E s)" "v < cap" "stores s v x"
  shows "\<exists>T. rd (int v) buf s = Ok (0, x, s\<lparr>tbuf := T\<rparr>)"
proof -
  have k: "pr v < np" "bk v < diskblockn" using loc [OF assms(3)] by auto
  obtain dp where dp: "get_pair (raidmeta s) (pr v) = Ok dp" "pair_idle dp (d0 (pr v)) (d1 (pr v))"
    using inv_pair [OF assms(1) k(1)] .
  note b = inv_base [OF assms(1)] and e = ends [OF k(1)] and sv = survivor [OF assms(2) k(1)]
  have "disks s (Suc (pair_source (raidmeta s) (d0 (pr v)) (d1 (pr v)))) (bk v) = x"
    using assms(4) sv by (auto simp: mirror_stores_def pair_source_def)
  moreover have "\<exists>T. readdiskpair E (pr v) (bk v) buf s =
      Ok (0, disks s (Suc (pair_source (raidmeta s) (d0 (pr v)) (d1 (pr v)))) (bk v), s\<lparr>tbuf := T\<rparr>)"
    using e k sv by (intro readdiskpair_Ok [OF b(1) dp]) auto
  ultimately show ?thesis using rd_pair [OF b(2) assms(3)] by simp
qed

lemma mirror_write:
  assumes "inv s" "tol (failed_disks E s)" "v < cap" "is_block x"
  shows "\<exists>s'. wr (int v) x s = Ok (0, s') \<and> inv s' \<and> failed_disks E s' = failed_disks E s \<and>
            stores s' v x \<and> (\<forall>w y. w < cap \<longrightarrow> w \<noteq> v \<longrightarrow> stores s w y \<longrightarrow> stores s' w y)"
proof -
  let ?k = "pr v" and ?b = "bk v"
  have k: "?k < np" "?b < diskblockn" using loc [OF assms(3)] by auto
  obtain dp where dp: "get_pair (raidmeta s) ?k = Ok dp" "pair_idle dp (d0 ?k) (d1 ?k)"
    using inv_pair [OF assms(1) k(1)] .
  note b = inv_base [OF assms(1)] and e = ends [OF k(1)] and sv = survivor [OF assms(2) k(1)]
  let ?ds = "mirror_disks (raidmeta s) (d0 ?k) (d1 ?k) ?b x (disks s)"
  obtain T where T: "writediskpair E ?k ?b x s = Ok (0, s\<lparr>disks := ?ds, tbuf := T\<rparr>)" (is "_ = Ok (0, ?s)")
    using writediskpair_Ok [OF b(1) dp, of ?b x] e k sv assms(4) by auto
  have "inv ?s"
    using assms(1,4) base_okD(6) [OF b(1)] by (intro mirror_inv_upd is_block_mirror_disks) auto
  moreover have "stores ?s v x" by (auto simp: mirror_stores_def mirror_disks_def)
  moreover have "stores ?s w y" if w: "w < cap" "w \<noteq> v" and st: "stores s w y" for w y
  proof -
    have "bk w \<noteq> ?b \<or> pr w \<noteq> ?k" using loc_inj [OF w(1) assms(3)] w(2) by auto
    moreover have "d = d0 ?k \<or> d = d1 ?k \<Longrightarrow> d = d0 (pr w) \<or> d = d1 (pr w) \<Longrightarrow> pr w = ?k" for d
      using ends_inj [OF _ k(1)] loc [OF w(1)] by blast
    ultimately show ?thesis
      using st unfolding mirror_stores_def mirror_disks_def by fastforce
  qed
  ultimately show ?thesis using T wr_pair [OF b(2) assms(3)] by auto
qed

text \<open>What a write leaves alone, and the error results when a pair is lost.\<close>

lemma mirror_write_frame:
  assumes "inv s" "tol (failed_disks E s)" "v < cap" "is_block x"
  shows "\<exists>s'. wr (int v) x s = Ok (0, s') \<and> s' = s\<lparr>disks := disks s', tbuf := tbuf s'\<rparr> \<and>
    (\<forall>d b. b \<noteq> bk v \<or> (d \<noteq> Suc (d0 (pr v)) \<and> d \<noteq> Suc (d1 (pr v))) \<longrightarrow> disks s' d b = disks s d b)"
proof -
  have k: "pr v < np" "bk v \<le> diskblockn" using loc [OF assms(3)] by auto
  obtain dp where dp: "get_pair (raidmeta s) (pr v) = Ok dp" "pair_idle dp (d0 (pr v)) (d1 (pr v))"
    using inv_pair [OF assms(1) k(1)] .
  note b = inv_base [OF assms(1)]
  have "\<exists>T. writediskpair E (pr v) (bk v) x s = Ok (0, s\<lparr>disks :=
      mirror_disks (raidmeta s) (d0 (pr v)) (d1 (pr v)) (bk v) x (disks s), tbuf := T\<rparr>)"
    using writediskpair_Ok [OF b(1) dp, of "bk v" x] ends [OF k(1)] survivor [OF assms(2) k(1)] k assms(4) by auto
  then show ?thesis by (auto simp: wr_pair [OF b(2) assms(3)] mirror_disks_def)
qed

lemma mirror_lost:
  assumes "inv s" "v < cap" "\<not> valid (diskinfo (raidmeta s) (d0 (pr v)))" "\<not> valid (diskinfo (raidmeta s) (d1 (pr v)))"
  shows "rd (int v) buf s = Ok (- 1, buf, s) \<and> wr (int v) x s = Ok (- 1, s)"
proof -
  have k: "pr v < np" using loc [OF assms(2)] by auto
  obtain dp where dp: "get_pair (raidmeta s) (pr v) = Ok dp" "pair_idle dp (d0 (pr v)) (d1 (pr v))"
    using inv_pair [OF assms(1) k] .
  note b = inv_base [OF assms(1)]
  show ?thesis
    using readdiskpair_invalid [OF b(1) dp assms(3,4)] writediskpair_invalid [OF b(1) dp assms(3,4)]
    by (simp add: rd_pair [OF b(2) assms(2)] wr_pair [OF b(2) assms(2)])
qed

lemma mirror_fail:
  assumes "inv s" "1 \<le> d" "d \<le> DISKS E"
  shows "\<exists>s'. raidfail E (int d) s = Ok (0, s') \<and> inv s' \<and>
            failed_disks E s' = insert d (failed_disks E s) \<and> keeps cap stores s s'"
proof -
  obtain i where i: "d = Suc i" "i < DISKS E" using disk_number assms(2,3) by blast
  note b = inv_base [OF assms(1)]
  let ?ds = "meta_disks E (pid s) (raidmeta (set_valid i False s)) (disks s)"
  obtain T where T: "raidfail E (int i + 1) s = Ok (0, (set_valid i False s)\<lparr>disks := ?ds, tbuf := T\<rparr>)"
      (is "_ = Ok (0, ?s)")
    using raidfail_Ok [OF b(1,3) i(2)] by blast
  have "inv ?s"
    using assms(1) base_okD(1,6) [OF b(1)] i(2) by (intro mirror_inv_upd is_block_meta_disks) auto
  moreover have "keeps cap stores s ?s"
    using loc by (auto simp: keeps_def mirror_stores_def)
  ultimately show ?thesis using T i failed_disks_set_valid(2) [OF i(2)] by (auto simp: add.commute)
qed

lemma mirror_repair:
  assumes "inv s" "1 \<le> d" "d \<le> DISKS E" "tol (failed_disks E s)"
  shows "\<exists>s'. raidrepair E (int d) s = Ok (0, s') \<and> inv s' \<and>
            failed_disks E s' = failed_disks E s - {d} \<and> keeps cap stores s s'"
proof -
  obtain n where n: "d = Suc n" "n < DISKS E" using disk_number assms(2,3) by blast
  note b = inv_base [OF assms(1)]
  show ?thesis
  proof (cases "valid (diskinfo (raidmeta s) n)")
    case True
    with assms(1) b n show ?thesis
      using raidrepair_valid [OF b(3) n(2)] not_failed [OF n(2), of s] by (auto simp: keeps_def)
  next
    case False
    obtain k where k: "k < np" "n = d0 k \<or> n = d1 k" using cover [OF b(4) n(2)] by blast
    then obtain q where q: "n = d0 k \<and> q = d1 k \<or> n = d1 k \<and> q = d0 k" by blast
    obtain dp where dp: "get_pair (raidmeta s) k = Ok dp" "pair_idle dp (d0 k) (d1 k)"
      using inv_pair [OF assms(1) k(1)] .
    note e = ends [OF k(1)]
    have qv: "q < DISKS E" "valid (diskinfo (raidmeta s) q)"
      using survivor [OF assms(4) k(1)] q e False by auto
    let ?ds = "copy_disk (Suc q) (Suc n) (disks s)"
    obtain T where T: "repair_pair E k n q s = Ok (None, (set_valid n True s)\<lparr>disks := ?ds, tbuf := T\<rparr>)"
        (is "_ = Ok (None, ?s)")
      using repair_pair_Ok [OF b(1) dp _ _ _ n(2) qv] e by auto
    have inv: "inv ?s"
      using assms(1) base_okD(6) [OF b(1)] n(2) by (intro mirror_inv_upd is_block_copy_disk) auto
    obtain U where U: "writeraidmeta E ?s =
        Ok (?s\<lparr>disks := meta_disks E (pid ?s) (raidmeta ?s) (disks ?s), tbuf := U\<rparr>)" (is "_ = Ok ?u")
      using writeraidmeta_Ok [OF inv_base(1) [OF inv]] by blast
    have "inv ?u"
      using assms(1) n(2) base_okD(1,6) [OF inv_base(1) [OF inv]]
      by (intro mirror_inv_upd is_block_meta_disks) auto
    moreover have "failed_disks E ?u = failed_disks E s - {d}"
      using failed_disks_set_valid(1) [OF n(2)] n(1) by simp
    moreover have "keeps cap stores s ?u"
      unfolding keeps_def
    proof (intro allI impI)
      fix w y
      assume w: "w < cap" "stores s w y"
      have "n = d0 (pr w) \<or> n = d1 (pr w) \<Longrightarrow> pr w = k"
        using ends_inj [OF _ k(1)] loc [OF w(1)] k(2) by blast
      with w(2) q qv e show "stores ?u w y"
        using loc [OF w(1)] unfolding mirror_stores_def by (auto simp: copy_disk_def)
    qed
    moreover have "raidrepair E (int d) s = Ok (0, ?u)"
      using repair_switch [OF b(4,5) k(1) dp n(2) False q] T U n(1) by simp
    ultimately show ?thesis by blast
  qed
qed

end

sublocale mirror_layout \<subseteq> raid_array E rd wr "mirror_inv E geom t np d0 d1" cap
  "mirror_tol E np d0 d1" "mirror_stores d0 d1 pr bk"
proof (unfold_locales, goal_cases)
  case (1 F G)
  then show ?case unfolding mirror_tol_def by blast
next
  case (2 s v x buf)
  then show ?case by (rule mirror_read)
next
  case (3 s v x)
  then show ?case by (rule mirror_write)
next
  case (4 s d)
  then show ?case using mirror_fail by blast
next
  case (5 s d)
  then show ?case by (intro mirror_repair)
qed

end
