(* ===== verification/Raid1.thy ===== *)
theory Raid1
  imports Raid_Mirror
begin

text \<open>RAID 1, mirroring (kernel/raid1.c): disks \<open>2k\<close> and \<open>2k + 1\<close> form pair \<open>k\<close>, and the logical
  blocks fill one pair after the other. With an odd number of disks the last one has no mirror.\<close>

section \<open>Definitions\<close>

definition raid1read :: "platform \<Rightarrow> int \<Rightarrow> block \<Rightarrow> kstate \<Rightarrow> (u64 \<times> block \<times> kstate) result" where
  "raid1read E vblkn data s =
     (if rtype (raidmeta s) \<noteq> RAID1 then Panic wrong_raid
      else if bad_block E (raidmeta s) vblkn then Ok (- 1, data, s)
      else let pairNum = nat vblkn div diskblockn;
               pblkn = nat vblkn mod diskblockn
           in readdiskpair E pairNum pblkn data s)"

definition raid1write :: "platform \<Rightarrow> int \<Rightarrow> block \<Rightarrow> kstate \<Rightarrow> (u64 \<times> kstate) result" where
  "raid1write E vblkn data s =
     (if rtype (raidmeta s) \<noteq> RAID1 then Panic wrong_raid
      else if bad_block E (raidmeta s) vblkn then Ok (- 1, s)
      else let pairNum = nat vblkn div diskblockn;
               pblkn = nat vblkn mod diskblockn
           in writediskpair E pairNum pblkn data s)"

section \<open>The contract\<close>

abbreviation raid1_cap :: "platform \<Rightarrow> nat" where
  "raid1_cap E \<equiv> diskblockn * ((DISKS E + 1) div 2)"

abbreviation raid1_pairs :: "platform \<Rightarrow> nat" where
  "raid1_pairs E \<equiv> (DISKS E + 1) div 2"

lemma raid1_range:
  assumes "rtype (raidmeta s) = RAID1" "v < 0 \<or> int (raid1_cap E) \<le> v"
  shows "raid1read E v buf s = Ok (- 1, buf, s)" "raid1write E v x s = Ok (- 1, s)"
  using assms by (auto simp: raid1read_def raid1write_def bad_block_def raidblockn_def)

lemma raid1_repair:
  assumes "meta_ok RAID1 (raidmeta s)" "get_pair (raidmeta s) k = Ok dp" "pair_idle dp (2 * k) (2 * k + 1)"
    and "n < DISKS E" "\<not> valid (diskinfo (raidmeta s) n)"
    and "n = 2 * k \<and> q = 2 * k + 1 \<or> n = 2 * k + 1 \<and> q = 2 * k"
  shows "raidrepair E (int (Suc n)) s = bindR (repair_pair E k n q s) (after_switch E)"
  using assms by (auto simp: raidrepair_def meta_ok_def raidrepair_raid1_def pair_idle_def Let_def)

interpretation r1: mirror_layout E True RAID1 "raid1_pairs E" "\<lambda>k. 2 * k" "\<lambda>k. 2 * k + 1"
  "\<lambda>v. v div diskblockn" "\<lambda>v. v mod diskblockn" "raid1_cap E" "raid1read E" "raid1write E" for E
proof (unfold_locales, goal_cases)
  case (1 s v buf)
  then show ?case by (simp add: raid1read_def raidblockn_def)
next
  case (2 s v x)
  then show ?case by (simp add: raid1write_def raidblockn_def)
next
  case (3 v)
  then show ?case by (simp add: less_mult_imp_div_less mult.commute diskblockn_val)
next
  case (4 v w)
  then show ?case by (metis div_mult_mod_eq)
next
  case (5 k)
  then show ?case by auto
next
  case (6 k l d)
  then show ?case by presburger
next
  case (7 n)
  then show ?case by (intro exI [of _ "n div 2"]) presburger
next
  case (8 s k dp n q)
  then show ?case by (intro raid1_repair)
qed

end
