(* ===== verification/Raid0_1.thy ===== *)
theory Raid0_1
  imports Raid_Mirror
begin

text \<open>RAID 0+1, mirrored stripes (kernel/raid0_1.c): disk \<open>k\<close> of the first half and disk
  \<open>k + DISKS / 2\<close> form pair \<open>k\<close>, and the logical blocks go round the pairs.\<close>

section \<open>Definitions\<close>

definition raid0_1read :: "platform \<Rightarrow> int \<Rightarrow> block \<Rightarrow> kstate \<Rightarrow> (u64 \<times> block \<times> kstate) result" where
  "raid0_1read E vblkn data s =
     (if rtype (raidmeta s) \<noteq> RAID0_1 then Panic wrong_raid
      else if bad_block E (raidmeta s) vblkn then Ok (- 1, data, s)
      else let pairn = nat vblkn mod (DISKS E div 2);
               pblkn = nat vblkn div (DISKS E div 2)
           in readdiskpair E pairn pblkn data s)"

definition raid0_1write :: "platform \<Rightarrow> int \<Rightarrow> block \<Rightarrow> kstate \<Rightarrow> (u64 \<times> kstate) result" where
  "raid0_1write E vblkn data s =
     (if rtype (raidmeta s) \<noteq> RAID0_1 then Panic wrong_raid
      else if bad_block E (raidmeta s) vblkn then Ok (- 1, s)
      else let pairn = nat vblkn mod (DISKS E div 2);
               pblkn = nat vblkn div (DISKS E div 2)
           in writediskpair E pairn pblkn data s)"

section \<open>The contract\<close>

text \<open>It holds for an even number of disks: with an odd one, \<open>raidrepair\<close> of the last disk uses the
  index \<open>1 - n / (DISKS / 2) = -1\<close>.\<close>

abbreviation raid0_1_cap :: "platform \<Rightarrow> nat" where
  "raid0_1_cap E \<equiv> diskblockn * (DISKS E div 2)"

lemma raid0_1_range:
  assumes "rtype (raidmeta s) = RAID0_1" "v < 0 \<or> int (raid0_1_cap E) \<le> v"
  shows "raid0_1read E v buf s = Ok (- 1, buf, s)" "raid0_1write E v x s = Ok (- 1, s)"
  using assms by (auto simp: raid0_1read_def raid0_1write_def bad_block_def raidblockn_def)

lemma raid0_1_repair:
  assumes "even (DISKS E)" "meta_ok RAID0_1 (raidmeta s)" "k < DISKS E div 2"
    and "get_pair (raidmeta s) k = Ok dp" "pair_idle dp k (k + DISKS E div 2)"
    and "n < DISKS E" "\<not> valid (diskinfo (raidmeta s) n)"
    and q: "n = k \<and> q = k + DISKS E div 2 \<or> n = k + DISKS E div 2 \<and> q = k"
  shows "raidrepair E (int (Suc n)) s = bindR (repair_pair E k n q s) (after_switch E)"
proof -
  have "n mod (DISKS E div 2) = k" "n div (DISKS E div 2) = (if n = k then 0 else 1)"
    using q assms(3) div_add_self2 [of "DISKS E div 2" k] by auto
  with assms show ?thesis
    by (auto simp: raidrepair_def meta_ok_def raidrepair_raid0_1_def pair_idle_def Let_def)
qed

interpretation r01: mirror_layout E "even (DISKS E)" RAID0_1 "DISKS E div 2" "\<lambda>k. k"
  "\<lambda>k. k + DISKS E div 2" "\<lambda>v. v mod (DISKS E div 2)" "\<lambda>v. v div (DISKS E div 2)" "raid0_1_cap E"
  "raid0_1read E" "raid0_1write E" for E
proof (unfold_locales, goal_cases)
  case (1 s v buf)
  then show ?case by (simp add: raid0_1read_def raidblockn_def)
next
  case (2 s v x)
  then show ?case by (simp add: raid0_1write_def raidblockn_def)
next
  case (3 v)
  then have "0 < DISKS E div 2" by (cases "DISKS E div 2") auto
  with 3 show ?case by (simp add: less_mult_imp_div_less)
next
  case (4 v w)
  then show ?case by (metis div_mult_mod_eq)
next
  case (5 k)
  then show ?case by auto
next
  case (6 k l d)
  then show ?case by auto
next
  case (7 n)
  then show ?case
    by (intro exI [of _ "if n < DISKS E div 2 then n else n - DISKS E div 2"]) auto
next
  case (8 s k dp n q)
  then show ?case by (intro raid0_1_repair)
qed

end
