(* ===== verification/Raid_Stripe.thy ===== *)
theory Raid_Stripe
  imports Raid_Spec
begin

text \<open>
  What RAID 4 and RAID 5 share. The functions of kernel/raid4.c and kernel/raid5.c have one common
  form over the place of the parity block; \<open>parity_load\<close>, \<open>parity_read\<close> and \<open>parity_write\<close> are
  that form, the theories \<open>Raid4\<close> and \<open>Raid5\<close> show that the functions are instances of it. The locale
  \<open>parity_layout\<close> states what a layout must satisfy and gives the contract \<open>raid_array\<close> for it.
\<close>

section \<open>Common form of the functions\<close>

text \<open>A write announces itself (\<open>acquire(&repairlock); while (repairing) sleep; writecount++;
  release(&repairlock)\<close>) and signs off again.\<close>

definition begin_write :: "kstate \<Rightarrow> kstate result" where
  "begin_write s =
     bindR (acquire_repair s) (\<lambda>(p, s).
       if repairing p \<noteq> 0 then Blocked
       else release_repair (p\<lparr>writecount := writecount p + 1\<rparr>) s)"

definition end_write :: "kstate \<Rightarrow> kstate result" where
  "end_write s =
     bindR (acquire_repair s) (\<lambda>(p, s). release_repair (p\<lparr>writecount := writecount p - 1\<rparr>) s)"

text \<open>\<open>readinvalidraid4\<close> and \<open>readinvalidraid5\<close> have the same text.\<close>

definition readinvalid :: "platform \<Rightarrow> nat \<Rightarrow> nat \<Rightarrow> kstate \<Rightarrow> (block \<times> kstate) result" where
  "readinvalid E n b s =
     bindR (alloc_page s) (\<lambda>(newpg, s).
     bindR (touch_page newpg s) (\<lambda>s.
     bindR (for_each (xor_step E (\<lambda>i m. i \<noteq> n) b) [0..<DISKS E] (zero_block, s)) (\<lambda>(parity, s).
     bindR (free_page E newpg s) (\<lambda>s. Ok (parity, s)))))"

text \<open>\<open>par b\<close> is the index of the disk with the parity of row \<open>b\<close>, \<open>pn m b\<close> the number the code
  passes to \<open>read_block\<close> and \<open>write_block\<close> for it; the loop that computes the parity of row \<open>b\<close>
  takes the disks below \<open>nd\<close> that satisfy \<open>P b\<close>.\<close>

definition load_row ::
    "platform \<Rightarrow> (nat \<Rightarrow> nat) \<Rightarrow> (RAIDMeta \<Rightarrow> nat \<Rightarrow> nat) \<Rightarrow> nat \<Rightarrow> (nat \<Rightarrow> nat \<Rightarrow> RAIDMeta \<Rightarrow> bool) \<Rightarrow>
     nat \<Rightarrow> nat \<Rightarrow> kstate \<Rightarrow> kstate result" where
  "load_row E par pn nd P page b s =
     bindR (touch_page page s) (\<lambda>s.
     bindR (for_each (xor_step E (P b) b) [0..<nd] (zero_block, s)) (\<lambda>(parity, s).
       if valid (diskinfo (raidmeta s) (par b)) then write_block E (pn (raidmeta s) b) b parity s
       else Ok s))"

definition parity_load ::
    "platform \<Rightarrow> RAID_TYPE \<Rightarrow> (nat \<Rightarrow> nat) \<Rightarrow> (RAIDMeta \<Rightarrow> nat \<Rightarrow> nat) \<Rightarrow> nat \<Rightarrow>
     (nat \<Rightarrow> nat \<Rightarrow> RAIDMeta \<Rightarrow> bool) \<Rightarrow> nat \<Rightarrow> kstate \<Rightarrow> kstate result" where
  "parity_load E t par pn nd P clustern s =
     (if rtype (raidmeta s) \<noteq> t then Panic wrong_raid
      else if clustern \<ge> NCLUSTERS then Panic ''Wrong cluster number in loading...''
      else
        bindR (alloc_page s) (\<lambda>(page, s).
        bindR (acquire_disks E s) (\<lambda>s.
        bindR (for_each (load_row E par pn nd P page)
                 [clustern * CLUSTER_SIZE..<clustern * CLUSTER_SIZE + CLUSTER_SIZE] s) (\<lambda>s.
        bindR (get_parity (raidmeta s)) (\<lambda>p.
        bindR (release_disks E
                 (set_parity (p\<lparr>cluster_loaded := (cluster_loaded p)(clustern := True)\<rparr>) s)) (\<lambda>s.
        bindR (writeraidmeta E s) (\<lambda>s.
        free_page E page s)))))))"

definition parity_read ::
    "platform \<Rightarrow> nat \<Rightarrow> nat \<Rightarrow> block \<Rightarrow> kstate \<Rightarrow> (u64 \<times> block \<times> kstate) result" where
  "parity_read E n b data s =
     (if \<not> valid (diskinfo (raidmeta s) n)
      then if list_ex (\<lambda>i. i \<noteq> n \<and> \<not> valid (diskinfo (raidmeta s) i)) [0..<DISKS E]
           then Ok (- 1, data, s)
           else bindR (acquire_disks E s) (\<lambda>s.
                bindR (readinvalid E n b s) (\<lambda>(data, s).
                bindR (release_disks E s) (\<lambda>s. Ok (0, data, s))))
      else bindR (acquire_disk n s) (\<lambda>s.
           bindR (read_block E (n + 1) b s) (\<lambda>(data, s).
           bindR (release_disk n s) (\<lambda>s. Ok (0, data, s)))))"

text \<open>The three ways a write reaches the disks: data disk lost, parity disk lost, both there.\<close>

definition write_lost ::
    "platform \<Rightarrow> (RAIDMeta \<Rightarrow> nat \<Rightarrow> nat) \<Rightarrow> nat \<Rightarrow> nat \<Rightarrow> nat \<Rightarrow> block \<Rightarrow> kstate \<Rightarrow> kstate result" where
  "write_lost E pn page n b data s =
     bindR (acquire_disks E s) (\<lambda>s.
     bindR (readinvalid E n b s) (\<lambda>(prevdata, s).
     bindR (touch_page page s) (\<lambda>s.
     bindR (read_block E (pn (raidmeta s) b) b s) (\<lambda>(parity, s).
     bindR (write_block E (pn (raidmeta s) b) b (xor_block parity (xor_block prevdata data)) s) (\<lambda>s.
     release_disks E s)))))"

definition write_plain :: "platform \<Rightarrow> nat \<Rightarrow> nat \<Rightarrow> block \<Rightarrow> kstate \<Rightarrow> kstate result" where
  "write_plain E n b data s =
     bindR (acquire_disk n s) (\<lambda>s.
     bindR (write_block E (n + 1) b data s) (\<lambda>s.
     release_disk n s))"

definition write_both ::
    "platform \<Rightarrow> (RAIDMeta \<Rightarrow> nat \<Rightarrow> nat) \<Rightarrow> nat \<Rightarrow> nat \<Rightarrow> nat \<Rightarrow> nat \<Rightarrow> nat \<Rightarrow> block \<Rightarrow> kstate \<Rightarrow> kstate result" where
  "write_both E pn page i j n b data s =
     bindR (acquire_disk i s) (\<lambda>s.
     bindR (acquire_disk j s) (\<lambda>s.
     bindR (touch_page page s) (\<lambda>s.
     bindR (read_block E (n + 1) b s) (\<lambda>(prevdata, s).
     bindR (read_block E (pn (raidmeta s) b) b s) (\<lambda>(parity, s).
     bindR (write_block E (n + 1) b data s) (\<lambda>s.
     bindR (write_block E (pn (raidmeta s) b) b (xor_block parity (xor_block prevdata data)) s) (\<lambda>s.
     bindR (release_disk j s) (\<lambda>s.
     release_disk i s))))))))"

definition parity_write ::
    "platform \<Rightarrow> (nat \<Rightarrow> nat) \<Rightarrow> (RAIDMeta \<Rightarrow> nat \<Rightarrow> nat) \<Rightarrow> (nat \<Rightarrow> kstate \<Rightarrow> kstate result) \<Rightarrow>
     nat \<Rightarrow> nat \<Rightarrow> block \<Rightarrow> kstate \<Rightarrow> (u64 \<times> kstate) result" where
  "parity_write E par pn load n b data s =
     (if \<not> valid (diskinfo (raidmeta s) n) \<and>
         list_ex (\<lambda>i. i \<noteq> n \<and> \<not> valid (diskinfo (raidmeta s) i)) [0..<DISKS E]
      then Ok (- 1, s)
      else
        bindR (alloc_page s) (\<lambda>(page, s).
        bindR (begin_write s) (\<lambda>s.
        bindR (acquire_cluster s) (\<lambda>s.
        bindR (get_parity (raidmeta s)) (\<lambda>p.
        bindR (if \<not> cluster_loaded p (b div CLUSTER_SIZE) then load (b div CLUSTER_SIZE) s else Ok s) (\<lambda>s.
        bindR (release_cluster s) (\<lambda>s.
        bindR (if \<not> valid (diskinfo (raidmeta s) n) then write_lost E pn page n b data s
               else if \<not> valid (diskinfo (raidmeta s) (par b)) then write_plain E n b data s
               else if n < par b then write_both E pn page n (par b) n b data s
               else write_both E pn page (par b) n n b data s) (\<lambda>s.
        bindR (free_page E page s) (\<lambda>s.
        bindR (end_write s) (\<lambda>s.
        Ok (0, s)))))))))))"

section \<open>Their effects\<close>

lemma begin_write_Ok:
  "get_parity (raidmeta s) = Ok p \<Longrightarrow> parity_idle p \<Longrightarrow> cpu_idle (hart s) \<Longrightarrow>
   begin_write s = Ok (set_parity (p\<lparr>writecount := 1\<rparr>) s)"
  by (simp add: begin_write_def parity_idle_def)

lemma end_write_Ok:
  "get_parity (raidmeta s) = Ok p \<Longrightarrow> repairlock p = initlock \<Longrightarrow> cpu_idle (hart s) \<Longrightarrow>
   end_write s = Ok (set_parity (p\<lparr>writecount := writecount p - 1\<rparr>) s)"
  by (simp add: end_write_def)

lemma readinvalid_Ok:
  assumes "kmem_inv (kernel_end E) (kmem s) (pg # pgs)" "cpu_idle (hart s)" "b \<le> diskblockn"
    and "\<And>i. i < DISKS E \<Longrightarrow> diskn (diskinfo (raidmeta s) i) = Suc i"
  shows "\<exists>T. readinvalid E n b s =
    Ok (xsum (\<lambda>i. disks s (Suc i) b) [i \<leftarrow> [0..<DISKS E]. i \<noteq> n], s\<lparr>tbuf := T\<rparr>)"
proof -
  let ?s = "s\<lparr>kmem := kmem_taken (kmem s)\<rparr>"
  obtain T where T: "for_each (xor_step E (\<lambda>i m. i \<noteq> n) b) [0..<DISKS E] (zero_block, ?s) =
      Ok (xsum (\<lambda>i. disks s (Suc i) b) [i \<leftarrow> [0..<DISKS E]. i \<noteq> n], ?s\<lparr>tbuf := T\<rparr>)"
    using xor_steps_Ok [OF order_refl assms(3), of E ?s "\<lambda>i m. i \<noteq> n"] assms(4) by auto
  have "free_page E pg (?s\<lparr>tbuf := T\<rparr>) = Ok (s\<lparr>tbuf := T\<rparr>)"
    using free_page_Ok [OF assms(1), of "?s\<lparr>tbuf := T\<rparr>"] assms(2) by simp
  then show ?thesis
    using T alloc_page_Ok [OF assms(1,2)] kmem_inv_nonzero [OF assms(1)]
    by (auto simp: readinvalid_def touch_page_def)
qed

lemma no_other_lost:
  assumes "\<And>i. i < D \<Longrightarrow> i \<noteq> n \<Longrightarrow> valid (diskinfo m i)"
  shows "\<not> list_ex (\<lambda>i. i \<noteq> n \<and> \<not> valid (diskinfo m i)) [0..<D]"
  unfolding list_ex_iff using assms by (metis atLeastLessThan_iff set_upt)

lemma parity_read_valid:
  assumes ok: "base_ok E s" and n: "n < DISKS E" and b: "b \<le> diskblockn"
    and v: "valid (diskinfo (raidmeta s) n)"
  shows "\<exists>T. parity_read E n b data s = Ok (0, disks s (Suc n) b, s\<lparr>tbuf := T\<rparr>)"
proof -
  note bk = base_okD [OF ok]
  have "device_ok E (Suc n) b" using n b by auto
  then show ?thesis
    using bk n v by (auto simp: parity_read_def acquire_disk_Ok release_disk_Ok read_block_Ok)
qed

lemma parity_read_lost:
  assumes ok: "base_ok E s" and n: "n < DISKS E" and b: "b \<le> diskblockn"
    and km: "kmem_inv (kernel_end E) (kmem s) (pg # pgs)"
    and v: "\<not> valid (diskinfo (raidmeta s) n)"
    and others: "\<And>i. i < DISKS E \<Longrightarrow> i \<noteq> n \<Longrightarrow> valid (diskinfo (raidmeta s) i)"
  shows "\<exists>T. parity_read E n b data s =
    Ok (0, xsum (\<lambda>i. disks s (Suc i) b) [i \<leftarrow> [0..<DISKS E]. i \<noteq> n], s\<lparr>tbuf := T\<rparr>)"
proof -
  note bk = base_okD [OF ok]
  let ?s = "s\<lparr>raidmeta := lock_all E (pid s) (raidmeta s)\<rparr>"
  have acq: "acquire_disks E s = Ok ?s" using bk by (simp add: acquire_disks_Ok)
  obtain T where T: "readinvalid E n b ?s =
      Ok (xsum (\<lambda>i. disks s (Suc i) b) [i \<leftarrow> [0..<DISKS E]. i \<noteq> n], ?s\<lparr>tbuf := T\<rparr>)"
    using readinvalid_Ok [of E ?s pg pgs b n] km bk b by auto
  have "release_disks E (?s\<lparr>tbuf := T\<rparr>) = Ok (s\<lparr>tbuf := T\<rparr>)"
    using bk by (simp add: release_disks_Ok)
  with acq T show ?thesis
    using v no_other_lost [OF others] by (auto simp: parity_read_def)
qed

lemma parity_two_lost_form:
  assumes "\<not> valid (diskinfo (raidmeta s) n)" "i < DISKS E" "i \<noteq> n" "\<not> valid (diskinfo (raidmeta s) i)"
  shows "parity_read E n b data s = Ok (- 1, data, s)"
    and "parity_write E par pn load n b x s = Ok (- 1, s)"
proof -
  have "list_ex (\<lambda>i. i \<noteq> n \<and> \<not> valid (diskinfo (raidmeta s) i)) [0..<DISKS E]"
    using assms by (auto simp: list_ex_iff)
  then show "parity_read E n b data s = Ok (- 1, data, s)" "parity_write E par pn load n b x s = Ok (- 1, s)"
    using assms(1) by (simp_all add: parity_read_def parity_write_def)
qed

section \<open>The layout contract\<close>

text \<open>The disks after cluster \<open>c\<close> was loaded: the parity of its rows is computed over the valid data
  disks and stored when the parity disk is valid.\<close>

definition load_disks ::
    "platform \<Rightarrow> (nat \<Rightarrow> nat) \<Rightarrow> RAIDMeta \<Rightarrow> nat \<Rightarrow> (nat \<Rightarrow> nat \<Rightarrow> block) \<Rightarrow> nat \<Rightarrow> nat \<Rightarrow> block" where
  "load_disks E par m c ds =
     (\<lambda>d b. if b div CLUSTER_SIZE = c \<and> d = Suc (par b) \<and> valid (diskinfo m (par b))
            then xsum (\<lambda>i. ds (Suc i) b) [i \<leftarrow> [0..<DISKS E]. valid (diskinfo m i) \<and> i \<noteq> par b]
            else ds d b)"

text \<open>The disks after a write of \<open>x\<close> to block \<open>b\<close> of disk \<open>n\<close>, with parity disk \<open>q\<close>.\<close>

definition put :: "nat \<Rightarrow> nat \<Rightarrow> block \<Rightarrow> (nat \<Rightarrow> nat \<Rightarrow> block) \<Rightarrow> nat \<Rightarrow> nat \<Rightarrow> block" where
  "put d b x ds = ds(d := (ds d)(b := x))"

definition stripe_disks ::
    "platform \<Rightarrow> RAIDMeta \<Rightarrow> nat \<Rightarrow> nat \<Rightarrow> nat \<Rightarrow> block \<Rightarrow> (nat \<Rightarrow> nat \<Rightarrow> block) \<Rightarrow> nat \<Rightarrow> nat \<Rightarrow> block" where
  "stripe_disks E m n q b x ds =
     (if \<not> valid (diskinfo m n)
      then put (Suc q) b (xor_block (ds (Suc q) b)
             (xor_block (xsum (\<lambda>i. ds (Suc i) b) [i \<leftarrow> [0..<DISKS E]. i \<noteq> n]) x)) ds
      else if \<not> valid (diskinfo m q) then put (Suc n) b x ds
      else put (Suc q) b (xor_block (ds (Suc q) b) (xor_block (ds (Suc n) b) x)) (put (Suc n) b x ds))"

lemma put_apply: "put d b x ds e c = (if e = d \<and> c = b then x else ds e c)"
  by (simp add: put_def)

lemma is_block_put: "(\<And>d b. is_block (ds d b)) \<Longrightarrow> is_block x \<Longrightarrow> is_block (put d b x ds e c)"
  by (simp add: put_apply)

lemma is_block_stripe_disks:
  "(\<And>d b. is_block (ds d b)) \<Longrightarrow> is_block x \<Longrightarrow> is_block (stripe_disks E m n q b x ds d c)"
  by (simp add: stripe_disks_def is_block_put)

lemma write_plain_Ok:
  assumes ok: "base_ok E s" and n: "n < DISKS E" and b: "b \<le> diskblockn" and x: "is_block x"
  shows "\<exists>T. write_plain E n b x s = Ok (s\<lparr>disks := put (Suc n) b x (disks s), tbuf := T\<rparr>)"
proof -
  note bk = base_okD [OF ok]
  have "device_ok E (Suc n) b" using n b by auto
  then show ?thesis
    using bk n x by (auto simp: write_plain_def acquire_disk_Ok release_disk_Ok write_block_Ok put_def)
qed

text \<open>Row \<open>b\<close> of the array: block \<open>b\<close> of every disk.\<close>

definition row :: "(nat \<Rightarrow> nat \<Rightarrow> block) \<Rightarrow> nat \<Rightarrow> nat \<Rightarrow> block" where
  "row ds b i = ds (Suc i) b"

lemma row_eta: "(\<lambda>i. ds (Suc i) b) = row ds b"
  by (simp add: row_def fun_eq_iff)

lemma row_put: "row (put (Suc n) b x ds) c = (if c = b then (row ds b)(n := x) else row ds c)"
  by (auto simp: row_def put_apply fun_eq_iff)

lemma row_stripe_other: "c \<noteq> b \<Longrightarrow> row (stripe_disks E m n q b x ds) c = row ds c"
  by (simp add: stripe_disks_def row_put)

lemma row_stripe:
  "valid (diskinfo m n) \<Longrightarrow> n \<noteq> q \<Longrightarrow> row (stripe_disks E m n q b x ds) b n = x"
  "k \<noteq> n \<Longrightarrow> k \<noteq> q \<Longrightarrow> row (stripe_disks E m n q b x ds) b k = row ds b k"
  by (simp_all add: stripe_disks_def row_put)

text \<open>A write leaves the sum of every set of disks that contains the data and the parity disk.\<close>

lemma xsum_stripe:
  assumes "valid (diskinfo m n)" "valid (diskinfo m q)" "n \<noteq> q" "\<And>i. is_block (row ds b i)" "is_block x"
    and "distinct xs" "n \<in> set xs" "q \<in> set xs"
  shows "xsum (row (stripe_disks E m n q b x ds) b) xs = xsum (row ds b) xs"
proof -
  let ?f = "row ds b"
  have "row (stripe_disks E m n q b x ds) b = (?f(n := x))(q := xor_block (?f q) (xor_block (?f n) x))"
    using assms(1,2) by (simp add: stripe_disks_def row_put row_def)
  then have "xsum (row (stripe_disks E m n q b x ds) b) xs =
      xor_block (xor_block (xsum ?f xs) (xor_block (?f n) x))
        (xor_block (?f q) (xor_block (?f q) (xor_block (?f n) x)))"
    using assms by (simp add: xsum_upd del: xor_block_cancel)
  also have "\<dots> = xsum ?f xs"
    using assms(4,5) by (intro block_eqI) (auto simp: xor.assoc xor.left_commute)
  finally show ?thesis .
qed

text \<open>A write to a lost disk makes the sum of the others the new data.\<close>

lemma xsum_stripe_lost:
  assumes "\<not> valid (diskinfo m n)" "n \<noteq> q" "q < DISKS E" "\<And>i. is_block (row ds b i)" "is_block x"
  shows "xsum (row (stripe_disks E m n q b x ds) b) [i \<leftarrow> [0..<DISKS E]. i \<noteq> n] = x"
proof -
  let ?xs = "[i \<leftarrow> [0..<DISKS E]. i \<noteq> n]" and ?f = "row ds b"
  have "row (stripe_disks E m n q b x ds) b = ?f(q := xor_block (?f q) (xor_block (xsum ?f ?xs) x))"
    using assms(1) by (simp add: stripe_disks_def row_put row_eta [of ds b]) (simp add: row_def)
  moreover have "q \<in> set ?xs" using assms by auto
  ultimately have "xsum (row (stripe_disks E m n q b x ds) b) ?xs =
      xor_block (xsum ?f ?xs) (xor_block (?f q) (xor_block (?f q) (xor_block (xsum ?f ?xs) x)))"
    by (simp add: xsum_upd del: xor_block_cancel)
  also have "\<dots> = x" using assms(4,5) by simp
  finally show ?thesis .
qed

text \<open>A row whose member \<open>n\<close> is the sum of the others sums to zero, and conversely.\<close>

lemma xsum_zero_iff:
  assumes "n < D" "\<And>i. is_block (f i)"
  shows "xsum f [0..<D] = zero_block \<longleftrightarrow> f n = xsum f [i \<leftarrow> [0..<D]. i \<noteq> n]"
  using xsum_remove [of n "[0..<D]" f] xor_block_eq_zero_iff assms by simp

lemma row_load:
  assumes "b div CLUSTER_SIZE = c" "\<And>i. i < DISKS E \<Longrightarrow> valid (diskinfo m i)" "par b < DISKS E"
    and "\<And>i. is_block (row ds b i)"
  shows "xsum (row (load_disks E par m c ds) b) [0..<DISKS E] = zero_block"
proof -
  let ?xs = "[i \<leftarrow> [0..<DISKS E]. i \<noteq> par b]"
  have f: "[i \<leftarrow> [0..<DISKS E]. valid (diskinfo m i) \<and> i \<noteq> par b] = ?xs"
    using assms(2) by (auto intro: filter_cong)
  have r: "row (load_disks E par m c ds) b = (row ds b)(par b := xsum (row ds b) ?xs)"
    using assms by (auto simp: load_disks_def row_def fun_eq_iff f row_eta [of ds b])
  have "xsum ((row ds b)(par b := xsum (row ds b) ?xs)) ?xs = xsum (row ds b) ?xs"
    by (rule xsum_upd_out) simp
  then show ?thesis
    using assms(3,4) by (subst xsum_zero_iff [of "par b"]) (auto simp: r)
qed

lemma row_meta: "b < diskblockn \<Longrightarrow> row (meta_disks E p m ds) b = row ds b"
  by (simp add: row_def fun_eq_iff)

lemma row_load_other: "b div CLUSTER_SIZE \<noteq> c \<Longrightarrow> row (load_disks E par m c ds) b = row ds b"
  by (simp add: row_def load_disks_def fun_eq_iff)

lemma row_rebuild:
  "row (rebuild_disk E n ld ds) b = (if b \<le> diskblockn \<and> ld (b div CLUSTER_SIZE)
     then (row ds b)(n := xsum (row ds b) [i \<leftarrow> [0..<DISKS E]. i \<noteq> n]) else row ds b)"
  by (auto simp: row_def rebuild_disk_def fun_eq_iff row_eta [of ds b])

lemma is_block_rebuild: "(\<And>d b. is_block (ds d b)) \<Longrightarrow> is_block (rebuild_disk E n ld ds d b)"
  by (simp add: rebuild_disk_def)

text \<open>The invariant of a parity array: when no disk is lost, every row of a loaded cluster sums to zero.
  Two pages are free, for the buffers of a write and of the functions it calls.\<close>

definition rows_zero :: "platform \<Rightarrow> kstate \<Rightarrow> (nat \<Rightarrow> bool) \<Rightarrow> bool" where
  "rows_zero E s ld \<longleftrightarrow> (\<forall>i < DISKS E. valid (diskinfo (raidmeta s) i)) \<longrightarrow>
     (\<forall>b < diskblockn. ld (b div CLUSTER_SIZE) \<longrightarrow> xsum (row (disks s) b) [0..<DISKS E] = zero_block)"

definition parity_inv :: "platform \<Rightarrow> RAID_TYPE \<Rightarrow> kstate \<Rightarrow> bool" where
  "parity_inv E t s \<longleftrightarrow> base_ok E s \<and> meta_ok t (raidmeta s) \<and>
     (\<exists>pg pg' pgs. kmem_inv (kernel_end E) (kmem s) (pg # pg' # pgs)) \<and>
     (\<exists>p. get_parity (raidmeta s) = Ok p \<and> parity_idle p \<and> rows_zero E s (cluster_loaded p))"

definition parity_stores :: "platform \<Rightarrow> (nat \<Rightarrow> nat) \<Rightarrow> (nat \<Rightarrow> nat) \<Rightarrow> kstate \<Rightarrow> nat \<Rightarrow> block \<Rightarrow> bool" where
  "parity_stores E dsk bk s v x \<longleftrightarrow>
     (\<exists>p. get_parity (raidmeta s) = Ok p \<and> cluster_loaded p (bk v div CLUSTER_SIZE)) \<and>
     (if valid (diskinfo (raidmeta s) (dsk v)) then row (disks s) (bk v) (dsk v) = x
      else xsum (row (disks s) (bk v)) [i \<leftarrow> [0..<DISKS E]. i \<noteq> dsk v] = x)"

definition parity_tol :: "nat set \<Rightarrow> bool" where
  "parity_tol F \<longleftrightarrow> (\<forall>d \<in> F. \<forall>e \<in> F. d = e)"

lemma tol_others:
  assumes "parity_tol (failed_disks E s)" "n < DISKS E" "\<not> valid (diskinfo (raidmeta s) n)"
    and "i < DISKS E" "i \<noteq> n"
  shows "valid (diskinfo (raidmeta s) i)"
  using assms not_failed [of n E s] not_failed [of i E s] by (auto simp: parity_tol_def)

lemma cluster_rows: "b div CLUSTER_SIZE = c \<longleftrightarrow> c * CLUSTER_SIZE \<le> b \<and> b < c * CLUSTER_SIZE + CLUSTER_SIZE"
  by (auto simp: CLUSTER_SIZE_def)

lemma cluster_last: "c < NCLUSTERS \<Longrightarrow> b div CLUSTER_SIZE = c \<Longrightarrow> b \<le> diskblockn"
  by (auto simp: CLUSTER_SIZE_def NCLUSTERS_val diskblockn_val)

lemma cluster_lt: "b \<le> diskblockn \<Longrightarrow> b div CLUSTER_SIZE < NCLUSTERS"
  by (simp add: CLUSTER_SIZE_def NCLUSTERS_val diskblockn_val)

lemma base_ok_set_parity: "base_ok E s \<Longrightarrow> base_ok E (set_parity p s)"
  by (simp add: base_ok_def)

lemma base_ok_kmem: "base_ok E s \<Longrightarrow> base_ok E (s\<lparr>kmem := k\<rparr>)"
  by (simp add: base_ok_def)

lemma is_block_load_disks: "(\<And>d b. is_block (ds d b)) \<Longrightarrow> is_block (load_disks E par m c ds d b)"
  by (simp add: load_disks_def)

locale parity_layout =
  fixes E :: platform
    and t :: RAID_TYPE
    and par :: "nat \<Rightarrow> nat"
    and pn :: "RAIDMeta \<Rightarrow> nat \<Rightarrow> nat"
    and nd :: nat
    and P :: "nat \<Rightarrow> nat \<Rightarrow> RAIDMeta \<Rightarrow> bool"
    and dsk bk :: "nat \<Rightarrow> nat"
    and cap :: nat
    and rd :: read_fn
    and wr :: write_fn
  assumes rd_row: "rtype (raidmeta s) = t \<Longrightarrow> v < cap \<Longrightarrow>
       rd (int v) buf s = parity_read E (dsk v) (bk v) buf s"
    and wr_row: "rtype (raidmeta s) = t \<Longrightarrow> v < cap \<Longrightarrow>
       wr (int v) x s = parity_write E par pn (parity_load E t par pn nd P) (dsk v) (bk v) x s"
    and loc: "v < cap \<Longrightarrow> dsk v < DISKS E \<and> dsk v \<noteq> par (bk v) \<and> bk v < diskblockn"
    and loc_inj: "v < cap \<Longrightarrow> w < cap \<Longrightarrow> dsk v = dsk w \<Longrightarrow> bk v = bk w \<Longrightarrow> v = w"
    and par_lt: "1 \<le> DISKS E \<Longrightarrow> par b < DISKS E"
    and pn_par: "1 \<le> DISKS E \<Longrightarrow> (\<And>i. i < DISKS E \<Longrightarrow> diskn (diskinfo m i) = Suc i) \<Longrightarrow> pn m b = Suc (par b)"
    and nd_le: "nd \<le> DISKS E"
    and sel: "[i \<leftarrow> [0..<nd]. P b i m] = [i \<leftarrow> [0..<DISKS E]. valid (diskinfo m i) \<and> i \<noteq> par b]"
    and repair_switch: "meta_ok t (raidmeta s) \<Longrightarrow> n < DISKS E \<Longrightarrow> \<not> valid (diskinfo (raidmeta s) n) \<Longrightarrow>
       raidrepair E (int (Suc n)) s = bindR (raidrepair_raid4 E n s) (after_switch E)"
begin

lemma load_row_Ok:
  assumes D: "1 \<le> DISKS E" and pg: "0 < page" and b: "b \<le> diskblockn"
    and dn: "\<And>i. i < DISKS E \<Longrightarrow> diskn (diskinfo (raidmeta s) i) = Suc i"
  shows "\<exists>T. load_row E par pn nd P page b s = Ok (s\<lparr>disks := (\<lambda>d c.
      if c = b \<and> d = Suc (par b) \<and> valid (diskinfo (raidmeta s) (par b))
      then xsum (\<lambda>i. disks s (Suc i) b) [i \<leftarrow> [0..<DISKS E]. valid (diskinfo (raidmeta s) i) \<and> i \<noteq> par b]
      else disks s d c), tbuf := T\<rparr>)"
proof -
  let ?x = "xsum (\<lambda>i. disks s (Suc i) b) [i \<leftarrow> [0..<DISKS E]. valid (diskinfo (raidmeta s) i) \<and> i \<noteq> par b]"
  obtain T where T: "for_each (xor_step E (P b) b) [0..<nd] (zero_block, s) = Ok (?x, s\<lparr>tbuf := T\<rparr>)"
    using xor_steps_Ok [OF nd_le b dn, of "P b"] by (auto simp: sel)
  have "device_ok E (Suc (par b)) b" using par_lt [OF D] b by (intro device_ok_Suc)
  moreover have "(disks s)(Suc (par b) := (disks s (Suc (par b)))(b := ?x)) =
      (\<lambda>d c. if c = b \<and> d = Suc (par b) then ?x else disks s d c)"
    by (auto simp: fun_eq_iff)
  ultimately show ?thesis
    using T pg pn_par [OF D dn, of b]
    by (cases "valid (diskinfo (raidmeta s) (par b))")
       (auto simp: load_row_def touch_page_def write_block_Ok)
qed

lemma load_rows_Ok:
  assumes D: "1 \<le> DISKS E" and pg: "0 < page" and c: "c < NCLUSTERS"
    and dn: "\<And>i. i < DISKS E \<Longrightarrow> diskn (diskinfo (raidmeta s) i) = Suc i"
  shows "\<exists>T. for_each (load_row E par pn nd P page) [c * CLUSTER_SIZE..<c * CLUSTER_SIZE + CLUSTER_SIZE] s =
    Ok (s\<lparr>disks := load_disks E par (raidmeta s) c (disks s), tbuf := T\<rparr>)"
proof -
  let ?x = "\<lambda>b. xsum (\<lambda>i. disks s (Suc i) b) [i \<leftarrow> [0..<DISKS E]. valid (diskinfo (raidmeta s) i) \<and> i \<noteq> par b]"
  let ?ds = "\<lambda>k. (\<lambda>d b. if c * CLUSTER_SIZE \<le> b \<and> b < k \<and> d = Suc (par b) \<and> valid (diskinfo (raidmeta s) (par b))
                          then ?x b else disks s d b)"
  let ?I = "\<lambda>k u. \<exists>T. u = s\<lparr>disks := ?ds k, tbuf := T\<rparr>"
  let ?a = "c * CLUSTER_SIZE"
  have "\<exists>s'. for_each (load_row E par pn nd P page) [?a..<?a + CLUSTER_SIZE] s = Ok s' \<and> ?I (?a + CLUSTER_SIZE) s'"
  proof (rule for_each_upt_rule [where I = ?I])
    have "?ds ?a = disks s" by (auto simp: fun_eq_iff)
    then show "?I ?a s" by (auto intro!: exI [of _ "tbuf s"])
  next
    fix k u
    assume k: "?a \<le> k" "k < ?a + CLUSTER_SIZE" and "?I k u"
    then obtain T where u: "u = s\<lparr>disks := ?ds k, tbuf := T\<rparr>" by blast
    have "k \<le> diskblockn" using k c cluster_last cluster_rows by blast
    then obtain U where U: "load_row E par pn nd P page k u = Ok (u\<lparr>disks := (\<lambda>d b.
        if b = k \<and> d = Suc (par k) \<and> valid (diskinfo (raidmeta u) (par k))
        then xsum (\<lambda>i. disks u (Suc i) k) [i \<leftarrow> [0..<DISKS E]. valid (diskinfo (raidmeta u) i) \<and> i \<noteq> par k]
        else disks u d b), tbuf := U\<rparr>)" (is "_ = Ok (u\<lparr>disks := ?e, tbuf := U\<rparr>)")
      using load_row_Ok [OF D pg, of k u] dn by (auto simp: u)
    have "?e = ?ds (Suc k)" using k by (auto simp: u fun_eq_iff less_Suc_eq)
    with U show "\<exists>s'. load_row E par pn nd P page k u = Ok s' \<and> ?I (Suc k) s'" by (auto simp: u)
  qed simp
  then show ?thesis by (auto simp: load_disks_def cluster_rows conj_assoc)
qed

text \<open>Loading a cluster: its parity is stored, the metadata is written with the cluster marked as
  loaded, and locks and memory are as before.\<close>

lemma parity_load_Ok:
  assumes ok: "base_ok E s" and t: "rtype (raidmeta s) = t" and gp: "get_parity (raidmeta s) = Ok p"
    and km: "kmem_inv (kernel_end E) (kmem s) (pg # pgs)" and c: "c < NCLUSTERS"
  defines "s1 \<equiv> set_parity (p\<lparr>cluster_loaded := (cluster_loaded p)(c := True)\<rparr>) s"
  shows "\<exists>T. parity_load E t par pn nd P c s = Ok (s1\<lparr>disks := meta_disks E (pid s) (raidmeta s1)
           (load_disks E par (raidmeta s) c (disks s)), tbuf := T\<rparr>)"
proof -
  note bk = base_okD [OF ok]
  let ?km = "kmem_taken (kmem s)" and ?ds = "load_disks E par (raidmeta s) c (disks s)"
    and ?p = "p\<lparr>cluster_loaded := (cluster_loaded p)(c := True)\<rparr>"
  let ?s0 = "s\<lparr>kmem := ?km\<rparr>"
  let ?sL = "?s0\<lparr>raidmeta := lock_all E (pid s) (raidmeta s)\<rparr>"
  have alloc: "alloc_page s = Ok (pg, ?s0)" by (rule alloc_page_Ok [OF km bk(2)])
  have acq: "acquire_disks E ?s0 = Ok ?sL" using bk acquire_disks_Ok [of ?s0 E] by simp
  obtain T where T: "for_each (load_row E par pn nd P pg)
      [c * CLUSTER_SIZE..<c * CLUSTER_SIZE + CLUSTER_SIZE] ?sL = Ok (?sL\<lparr>disks := ?ds, tbuf := T\<rparr>)"
    using load_rows_Ok [OF bk(7) kmem_inv_nonzero [OF km] c, of ?sL] bk(4)
    by (auto simp: load_disks_def cong: if_cong)
  have gp': "get_parity (raidmeta (?sL\<lparr>disks := ?ds, tbuf := T\<rparr>)) = Ok p" using gp by simp
  let ?u = "s1\<lparr>kmem := ?km, disks := ?ds, tbuf := T\<rparr>"
  have sp: "set_parity ?p (?sL\<lparr>disks := ?ds, tbuf := T\<rparr>) = ?u\<lparr>raidmeta := lock_all E (pid s) (raidmeta ?u)\<rparr>"
    by (simp add: s1_def set_parity_def lock_all_def cong: if_cong)
  have b1: "base_ok E s1" unfolding s1_def by (rule base_ok_set_parity [OF ok])
  have bu: "base_ok E ?u"
    using b1 bk(6) by (intro base_ok_disks base_ok_kmem is_block_load_disks)
  have rel: "release_disks E (?u\<lparr>raidmeta := lock_all E (pid s) (raidmeta ?u)\<rparr>) = Ok ?u"
    using base_okD [OF b1] by (subst release_disks_Ok) (auto simp: s1_def)
  obtain U where "writeraidmeta E ?u =
      Ok (?u\<lparr>disks := meta_disks E (pid ?u) (raidmeta ?u) (disks ?u), tbuf := U\<rparr>)"
    using writeraidmeta_Ok [OF bu] by blast
  then have U: "writeraidmeta E ?u = Ok (?u\<lparr>disks := meta_disks E (pid s) (raidmeta s1) ?ds, tbuf := U\<rparr>)"
    by (simp add: s1_def)
  let ?v = "s1\<lparr>disks := meta_disks E (pid s) (raidmeta s1) ?ds, tbuf := U\<rparr>"
  have free: "free_page E pg (?u\<lparr>disks := meta_disks E (pid s) (raidmeta s1) ?ds, tbuf := U\<rparr>) = Ok ?v"
    using free_page_Ok [OF km, of "?u\<lparr>disks := meta_disks E (pid s) (raidmeta s1) ?ds, tbuf := U\<rparr>"] bk(2)
    by (simp add: s1_def)
  have g: "\<not> rtype (raidmeta s) \<noteq> t" "\<not> NCLUSTERS \<le> c" using t c by auto
  have "parity_load E t par pn nd P c s = Ok ?v"
    unfolding parity_load_def if_not_P [OF g(1)] if_not_P [OF g(2)] alloc bindR.simps prod.case acq T gp'
      sp rel U free ..
  then show ?thesis by blast
qed

lemma write_lost_Ok:
  assumes ok: "base_ok E s" and b: "b \<le> diskblockn" and x: "is_block x" and pg: "0 < page"
    and km: "kmem_inv (kernel_end E) (kmem s) (pg # pgs)" and n: "\<not> valid (diskinfo (raidmeta s) n)"
  shows "\<exists>T. write_lost E pn page n b x s =
    Ok (s\<lparr>disks := stripe_disks E (raidmeta s) n (par b) b x (disks s), tbuf := T\<rparr>)"
proof -
  note bk = base_okD [OF ok]
  let ?s = "s\<lparr>raidmeta := lock_all E (pid s) (raidmeta s)\<rparr>"
  have acq: "acquire_disks E s = Ok ?s" using bk by (simp add: acquire_disks_Ok)
  let ?x = "xsum (\<lambda>i. disks s (Suc i) b) [i \<leftarrow> [0..<DISKS E]. i \<noteq> n]"
  obtain T where T: "readinvalid E n b ?s = Ok (?x, ?s\<lparr>tbuf := T\<rparr>)"
    using readinvalid_Ok [of E ?s pg pgs b n] km bk b by auto
  have dev: "device_ok E (Suc (par b)) b" using par_lt [OF bk(7)] b by (intro device_ok_Suc)
  have pn: "pn (lock_all E (pid s) (raidmeta s)) b = Suc (par b)" using bk(4,7) by (intro pn_par) auto
  show ?thesis
    using acq T dev pn pg n bk
    by (auto simp: write_lost_def touch_page_def read_block_Ok write_block_Ok release_disks_Ok
         stripe_disks_def put_def)
qed

lemma write_both_Ok:
  assumes ok: "base_ok E s" and b: "b \<le> diskblockn" and x: "is_block x" and pg: "0 < page"
    and n: "n < DISKS E" "n \<noteq> par b" "valid (diskinfo (raidmeta s) n)" "valid (diskinfo (raidmeta s) (par b))"
    and ij: "i = n \<and> j = par b \<or> i = par b \<and> j = n"
  shows "\<exists>T. write_both E pn page i j n b x s =
    Ok (s\<lparr>disks := stripe_disks E (raidmeta s) n (par b) b x (disks s), tbuf := T\<rparr>)"
proof -
  note bk = base_okD [OF ok]
  have q: "par b < DISKS E" by (rule par_lt [OF bk(7)])
  have ij': "i < DISKS E" "j < DISKS E" "i \<noteq> j" using ij n q by auto
  let ?i = "diskinfo (raidmeta s) i" and ?j = "diskinfo (raidmeta s) j" and ?h = "held_sleep (pid s)"
  let ?s1 = "set_disk i (?i\<lparr>dlock := ?h\<rparr>) s"
  let ?s2 = "set_disk j (?j\<lparr>dlock := ?h\<rparr>) ?s1"
  have acq: "acquire_disk i s = Ok ?s1" "acquire_disk j ?s1 = Ok ?s2"
    using ij' bk by (simp_all add: acquire_disk_Ok)
  have dev: "device_ok E (Suc (par b)) b" "device_ok E (n + 1) b"
    using q n b device_ok_Suc by auto
  have pn: "pn (raidmeta (?s2\<lparr>disks := ds, tbuf := T\<rparr>)) b = Suc (par b)"
    "pn (raidmeta (?s2\<lparr>tbuf := T\<rparr>)) b = Suc (par b)" for ds T
    using bk(4,7) by (intro pn_par; auto)+
  have rel: "release_disk j (?s2\<lparr>disks := ds, tbuf := T\<rparr>) = Ok (?s1\<lparr>disks := ds, tbuf := T\<rparr>)"
      "release_disk i (?s1\<lparr>disks := ds, tbuf := T\<rparr>) = Ok (s\<lparr>disks := ds, tbuf := T\<rparr>)" for ds T
    using ij' bk by (simp_all add: release_disk_Ok)
  have d2: "disks ?s2 = disks s" "tbuf ?s2 = tbuf s" by simp_all
  have "write_both E pn page i j n b x s =
      bindR (read_block E (n + 1) b ?s2) (\<lambda>(prevdata, s).
      bindR (read_block E (pn (raidmeta s) b) b s) (\<lambda>(parity, s).
      bindR (write_block E (n + 1) b x s) (\<lambda>s.
      bindR (write_block E (pn (raidmeta s) b) b (xor_block parity (xor_block prevdata x)) s) (\<lambda>s.
      bindR (release_disk j s) (\<lambda>s. release_disk i s)))))"
    using acq pg by (simp add: write_both_def touch_page_def)
  then show ?thesis
    using dev pn rel d2 n x
    by (simp add: read_block_Ok write_block_Ok stripe_disks_def put_def del: set_disk_simps) blast
qed

lemma write_branch_Ok:
  assumes "base_ok E s" "n < DISKS E" "n \<noteq> par b" "b \<le> diskblockn" "is_block x" "0 < page"
    and "kmem_inv (kernel_end E) (kmem s) (pg # pgs)"
  shows "\<exists>T. (if \<not> valid (diskinfo (raidmeta s) n) then write_lost E pn page n b x s
              else if \<not> valid (diskinfo (raidmeta s) (par b)) then write_plain E n b x s
              else if n < par b then write_both E pn page n (par b) n b x s
              else write_both E pn page (par b) n n b x s) =
    Ok (s\<lparr>disks := stripe_disks E (raidmeta s) n (par b) b x (disks s), tbuf := T\<rparr>)"
  using assms write_lost_Ok [of s b x page pg pgs n] write_plain_Ok [of E s n b x]
    write_both_Ok [of s b x page n n "par b"] write_both_Ok [of s b x page n "par b" n]
  by (auto simp: stripe_disks_def)

text \<open>The disks when the write itself starts: cluster \<open>b / CLUSTER_SIZE\<close> is loaded. The metadata block
  written in between has the cluster lock held and the write counted.\<close>

definition ready_disks :: "nat \<Rightarrow> ParityData \<Rightarrow> kstate \<Rightarrow> nat \<Rightarrow> nat \<Rightarrow> block" where
  "ready_disks c p s =
     (if cluster_loaded p c then disks s
      else meta_disks E (pid s) (raidmeta (set_parity (p\<lparr>writecount := 1, clusterlock := held_sleep (pid s),
               cluster_loaded := (cluster_loaded p)(c := True)\<rparr>) s))
             (load_disks E par (raidmeta s) c (disks s)))"

lemma is_block_ready:
  "base_ok E s \<Longrightarrow> is_block (ready_disks c p s d b)"
  using base_okD(1,6) [of E s] by (auto simp: ready_disks_def intro!: is_block_meta_disks is_block_load_disks)

lemma load_step:
  assumes ok: "base_ok E s" and t: "rtype (raidmeta s) = t" and gp: "get_parity (raidmeta s) = Ok p"
    and c: "c < NCLUSTERS" and km: "kmem_inv (kernel_end E) km (pg # pgs)"
  defines "p2 \<equiv> p\<lparr>writecount := 1, clusterlock := held_sleep (pid s)\<rparr>"
  shows "\<exists>T. (if \<not> cluster_loaded p2 c
              then parity_load E t par pn nd P c ((set_parity p2 s)\<lparr>kmem := km\<rparr>)
              else Ok ((set_parity p2 s)\<lparr>kmem := km\<rparr>)) =
    Ok ((set_parity (p2\<lparr>cluster_loaded := (cluster_loaded p)(c := True)\<rparr>) s)\<lparr>kmem := km,
          disks := ready_disks c p s, tbuf := T\<rparr>)"
proof (cases "cluster_loaded p c")
  case True
  then have "p2\<lparr>cluster_loaded := (cluster_loaded p)(c := True)\<rparr> = p2"
    by (simp add: p2_def fun_upd_idem)
  with True show ?thesis
    by (auto simp: p2_def ready_disks_def intro!: exI [of _ "tbuf s"])
next
  case False
  let ?s = "(set_parity p2 s)\<lparr>kmem := km\<rparr>"
  have "base_ok E ?s" "rtype (raidmeta ?s) = t" "get_parity (raidmeta ?s) = Ok p2"
      "kmem_inv (kernel_end E) (kmem ?s) (pg # pgs)"
    using ok t gp km by (auto intro!: base_ok_kmem base_ok_set_parity)
  from parity_load_Ok [OF this c] obtain T where
    "parity_load E t par pn nd P c ?s = Ok ((set_parity (p2\<lparr>cluster_loaded := (cluster_loaded p2)(c := True)\<rparr>) ?s)
       \<lparr>disks := meta_disks E (pid ?s)
          (raidmeta (set_parity (p2\<lparr>cluster_loaded := (cluster_loaded p2)(c := True)\<rparr>) ?s))
          (load_disks E par (raidmeta ?s) c (disks ?s)), tbuf := T\<rparr>)"
    by blast
  moreover have "load_disks E par (raidmeta ?s) c (disks ?s) = load_disks E par (raidmeta s) c (disks s)"
    by (simp add: load_disks_def cong: if_cong)
  ultimately show ?thesis
    using False by (intro exI [of _ T]) (simp add: p2_def ready_disks_def)
qed

lemma parity_write_Ok:
  assumes ok: "base_ok E s" and t: "rtype (raidmeta s) = t" and gp: "get_parity (raidmeta s) = Ok p"
    and idle: "parity_idle p" and km: "kmem_inv (kernel_end E) (kmem s) (pg # pg' # pgs)"
    and n: "n < DISKS E" "n \<noteq> par b" and b: "b \<le> diskblockn" and x: "is_block x"
    and one: "valid (diskinfo (raidmeta s) n) \<or> (\<forall>i < DISKS E. i \<noteq> n \<longrightarrow> valid (diskinfo (raidmeta s) i))"
  defines "c \<equiv> b div CLUSTER_SIZE"
  shows "\<exists>T. parity_write E par pn (parity_load E t par pn nd P) n b x s =
    Ok (0, (set_parity (p\<lparr>cluster_loaded := (cluster_loaded p)(c := True)\<rparr>) s)\<lparr>
       disks := stripe_disks E (raidmeta s) n (par b) b x (ready_disks c p s), tbuf := T\<rparr>)"
proof -
  note bk = base_okD [OF ok]
  have p: "clusterlock p = initsleeplock" "repairlock p = initlock" "writecount p = 0" "repairing p = 0"
    using idle by (auto simp: parity_idle_def)
  let ?km = "kmem_taken (kmem s)" and ?ds = "ready_disks c p s"
  let ?p1 = "p\<lparr>writecount := 1\<rparr>" and ?p2 = "p\<lparr>writecount := 1, clusterlock := held_sleep (pid s)\<rparr>"
    and ?p3 = "p\<lparr>writecount := 1, cluster_loaded := (cluster_loaded p)(c := True)\<rparr>"
    and ?p4 = "p\<lparr>cluster_loaded := (cluster_loaded p)(c := True)\<rparr>"
  let ?s2 = "(set_parity ?p2 s)\<lparr>kmem := ?km\<rparr>"
  have g: "\<not> (\<not> valid (diskinfo (raidmeta s) n) \<and>
         list_ex (\<lambda>i. i \<noteq> n \<and> \<not> valid (diskinfo (raidmeta s) i)) [0..<DISKS E])"
    using one by (auto simp: list_ex_iff)
  have km': "kmem_inv (kernel_end E) ?km (pg' # pgs)" by (rule kalloc_Cons(2) [OF km bk(2)])
  have alloc: "alloc_page s = Ok (pg, s\<lparr>kmem := ?km\<rparr>)" by (rule alloc_page_Ok [OF km bk(2)])
  have beg: "begin_write (s\<lparr>kmem := ?km\<rparr>) = Ok ((set_parity ?p1 s)\<lparr>kmem := ?km\<rparr>)"
    using begin_write_Ok [of "s\<lparr>kmem := ?km\<rparr>" p] gp idle bk(2) by simp
  have acq: "acquire_cluster ((set_parity ?p1 s)\<lparr>kmem := ?km\<rparr>) = Ok ?s2"
    using gp p bk(2) by simp
  have gp2: "get_parity (raidmeta ?s2) = Ok ?p2" using gp by simp
  let ?s3 = "\<lambda>T. (set_parity (?p2\<lparr>cluster_loaded := (cluster_loaded p)(c := True)\<rparr>) s)\<lparr>kmem := ?km,
          disks := ?ds, tbuf := T\<rparr>"
  obtain T where load: "(if \<not> cluster_loaded ?p2 c then parity_load E t par pn nd P c ?s2 else Ok ?s2) = Ok (?s3 T)"
    using load_step [OF ok t gp cluster_lt [OF b, folded c_def] km'] by blast
  let ?s4 = "(set_parity ?p3 s)\<lparr>kmem := ?km, disks := ?ds, tbuf := T\<rparr>"
  have rel: "release_cluster (?s3 T) = Ok ?s4"
    using gp p bk(2) release_cluster_Ok [of "?s3 T" _ "pid s"] by simp
  have b4: "base_ok E ?s4"
    by (intro base_ok_disks base_ok_kmem base_ok_set_parity ok is_block_ready)
  obtain U where br: "(if \<not> valid (diskinfo (raidmeta ?s4) n) then write_lost E pn pg n b x ?s4
              else if \<not> valid (diskinfo (raidmeta ?s4) (par b)) then write_plain E n b x ?s4
              else if n < par b then write_both E pn pg n (par b) n b x ?s4
              else write_both E pn pg (par b) n n b x ?s4) =
     Ok (?s4\<lparr>disks := stripe_disks E (raidmeta ?s4) n (par b) b x (disks ?s4), tbuf := U\<rparr>)"
    using write_branch_Ok [OF b4 n b x kmem_inv_nonzero [OF km]] km' by fastforce
  let ?d = "stripe_disks E (raidmeta s) n (par b) b x ?ds"
  have d: "stripe_disks E (raidmeta ?s4) n (par b) b x (disks ?s4) = ?d"
    by (simp add: stripe_disks_def)
  let ?s5 = "(set_parity ?p3 s)\<lparr>disks := ?d, tbuf := U\<rparr>"
  have free: "free_page E pg (?s4\<lparr>disks := ?d, tbuf := U\<rparr>) = Ok ?s5"
    using free_page_Ok [OF km, of "?s4\<lparr>disks := ?d, tbuf := U\<rparr>"] bk(2) by simp
  have fin: "end_write ?s5 = Ok ((set_parity ?p4 s)\<lparr>disks := ?d, tbuf := U\<rparr>)"
    using end_write_Ok [of ?s5 ?p3] gp p bk(2) by simp
  have "parity_write E par pn (parity_load E t par pn nd P) n b x s =
      Ok (0, (set_parity ?p4 s)\<lparr>disks := ?d, tbuf := U\<rparr>)"
    unfolding parity_write_def if_not_P [OF g] alloc bindR.simps prod.case beg acq gp2
      c_def [symmetric] load rel br d free fin ..
  then show ?thesis by blast
qed

abbreviation inv :: "kstate \<Rightarrow> bool" where
  "inv \<equiv> parity_inv E t"

abbreviation stores :: "kstate \<Rightarrow> nat \<Rightarrow> block \<Rightarrow> bool" where
  "stores \<equiv> parity_stores E dsk bk"

lemma inv_elim:
  assumes "inv s"
  obtains p pg pg' pgs where "base_ok E s" "meta_ok t (raidmeta s)" "rtype (raidmeta s) = t"
    "\<not> isDestroyed (raidmeta s)" "get_parity (raidmeta s) = Ok p" "parity_idle p"
    "rows_zero E s (cluster_loaded p)" "kmem_inv (kernel_end E) (kmem s) (pg # pg' # pgs)"
  using assms by (auto simp: parity_inv_def meta_ok_def)

lemma is_block_row: "base_ok E s \<Longrightarrow> is_block (row (disks s) b i)"
  by (simp add: row_def base_okD(6))

text \<open>Rows that are loaded when the write itself starts.\<close>

lemma row_ready_loaded:
  "b < diskblockn \<Longrightarrow> cluster_loaded p (b div CLUSTER_SIZE) \<Longrightarrow> row (ready_disks c p s) b = row (disks s) b"
  by (cases "b div CLUSTER_SIZE = c") (auto simp: ready_disks_def row_meta row_load_other)

lemma ready_zero:
  assumes "base_ok E s" "rows_zero E s (cluster_loaded p)" "\<And>i. i < DISKS E \<Longrightarrow> valid (diskinfo (raidmeta s) i)"
    and "b < diskblockn" "cluster_loaded p (b div CLUSTER_SIZE) \<or> b div CLUSTER_SIZE = c"
  shows "xsum (row (ready_disks c p s) b) [0..<DISKS E] = zero_block"
proof (cases "cluster_loaded p (b div CLUSTER_SIZE)")
  case True
  with assms show ?thesis by (simp add: row_ready_loaded rows_zero_def)
next
  case False
  with assms show ?thesis
    using row_load [of b c E "raidmeta s" par "disks s"] par_lt [OF base_okD(7)] is_block_row [OF assms(1)]
    by (simp add: ready_disks_def row_meta)
qed

text \<open>What a write to a loaded cluster leaves alone.\<close>

lemma parity_write_frame:
  assumes "inv s" "parity_tol (failed_disks E s)" "v < cap" "is_block x"
    and gp: "get_parity (raidmeta s) = Ok p" and ld: "cluster_loaded p (bk v div CLUSTER_SIZE)"
  shows "\<exists>s'. wr (int v) x s = Ok (0, s') \<and> s' = s\<lparr>disks := disks s', tbuf := tbuf s'\<rparr> \<and>
    (\<forall>d b. b \<noteq> bk v \<or> (d \<noteq> Suc (dsk v) \<and> d \<noteq> Suc (par (bk v))) \<longrightarrow> disks s' d b = disks s d b)"
proof -
  obtain p' pg pg' pgs where p: "base_ok E s" "rtype (raidmeta s) = t" "get_parity (raidmeta s) = Ok p'"
    "parity_idle p'" "kmem_inv (kernel_end E) (kmem s) (pg # pg' # pgs)" using inv_elim [OF assms(1)] .
  have l: "dsk v < DISKS E" "dsk v \<noteq> par (bk v)" "bk v \<le> diskblockn" using loc [OF assms(3)] by auto
  have one: "valid (diskinfo (raidmeta s) (dsk v)) \<or> (\<forall>i < DISKS E. i \<noteq> dsk v \<longrightarrow> valid (diskinfo (raidmeta s) i))"
    using tol_others [OF assms(2) l(1)] by blast
  have "parity_idle p" using p gp by simp
  moreover have "p\<lparr>cluster_loaded := (cluster_loaded p)(bk v div CLUSTER_SIZE := True)\<rparr> = p"
    using ld by (simp add: fun_upd_idem)
  moreover have "ready_disks (bk v div CLUSTER_SIZE) p s = disks s" using ld by (simp add: ready_disks_def)
  ultimately have "\<exists>T. wr (int v) x s = Ok (0, s\<lparr>disks :=
      stripe_disks E (raidmeta s) (dsk v) (par (bk v)) (bk v) x (disks s), tbuf := T\<rparr>)"
    using parity_write_Ok [OF p(1,2) gp _ p(5) l(1-3) assms(4) one] wr_row [OF p(2) assms(3)] gp by simp
  then show ?thesis by (auto simp: stripe_disks_def put_apply)
qed

lemma parity_read_law:
  assumes "inv s" "parity_tol (failed_disks E s)" "v < cap" "stores s v x"
  shows "\<exists>T. rd (int v) buf s = Ok (0, x, s\<lparr>tbuf := T\<rparr>)"
proof -
  obtain p pg pg' pgs where p: "base_ok E s" "rtype (raidmeta s) = t"
    "kmem_inv (kernel_end E) (kmem s) (pg # pg' # pgs)" using inv_elim [OF assms(1)] .
  have l: "dsk v < DISKS E" "bk v \<le> diskblockn" using loc [OF assms(3)] by auto
  show ?thesis
  proof (cases "valid (diskinfo (raidmeta s) (dsk v))")
    case True
    with assms(4) parity_read_valid [OF p(1) l True] show ?thesis
      by (simp add: rd_row [OF p(2) assms(3)] parity_stores_def row_def)
  next
    case False
    with assms(4) parity_read_lost [OF p(1) l p(3) False tol_others [OF assms(2) l(1) False]]
    show ?thesis by (simp add: rd_row [OF p(2) assms(3)] parity_stores_def row_eta [of "disks s"])
  qed
qed

lemma parity_fail_law:
  assumes "inv s" "1 \<le> d" "d \<le> DISKS E" "parity_tol (insert d (failed_disks E s))"
  shows "\<exists>s'. raidfail E (int d) s = Ok (0, s') \<and> inv s' \<and>
            failed_disks E s' = insert d (failed_disks E s) \<and> keeps cap stores s s'"
proof -
  obtain i where i: "d = Suc i" "i < DISKS E" using disk_number assms(2,3) by blast
  obtain p pg pg' pgs where p: "base_ok E s" "meta_ok t (raidmeta s)" "\<not> isDestroyed (raidmeta s)"
    "get_parity (raidmeta s) = Ok p" "parity_idle p" "rows_zero E s (cluster_loaded p)"
    "kmem_inv (kernel_end E) (kmem s) (pg # pg' # pgs)" using inv_elim [OF assms(1)] .
  let ?ds = "meta_disks E (pid s) (raidmeta (set_valid i False s)) (disks s)"
  obtain T where T: "raidfail E (int i + 1) s = Ok (0, (set_valid i False s)\<lparr>disks := ?ds, tbuf := T\<rparr>)"
      (is "_ = Ok (0, ?s)")
    using raidfail_Ok [OF p(1,3) i(2)] by blast
  have f: "failed_disks E ?s = insert d (failed_disks E s)"
    using failed_disks_set_valid(2) [OF i(2)] i(1) by simp
  have "base_ok E ?s"
    using p(1) i(2) base_okD(1,6) [OF p(1)] by (intro base_ok_disks base_ok_set_valid is_block_meta_disks) auto
  moreover have "rows_zero E ?s (cluster_loaded p)" using i(2) by (auto simp: rows_zero_def)
  ultimately have "inv ?s" using p by (auto simp: parity_inv_def meta_ok_def)
  moreover have "stores ?s v x" if v: "v < cap" and st: "stores s v x" for v x
  proof -
    have l: "dsk v < DISKS E" "bk v < diskblockn" using loc [OF v] by auto
    have tol': "valid (diskinfo (raidmeta s) k)" if "k < DISKS E" "k \<noteq> i" for k
      using tol_others [of E ?s i k] assms(4) f i(2) that by auto
    consider "dsk v = i" "valid (diskinfo (raidmeta s) i)"
      | "dsk v = i" "\<not> valid (diskinfo (raidmeta s) i)" | "dsk v \<noteq> i" by blast
    then show ?thesis
    proof cases
      case 1
      have "\<And>k. k < DISKS E \<Longrightarrow> valid (diskinfo (raidmeta s) k)" using tol' 1 by metis
      then have "xsum (row (disks s) (bk v)) [0..<DISKS E] = zero_block"
        using p(4,6) st l by (auto simp: rows_zero_def parity_stores_def)
      then show ?thesis
        using st 1 l xsum_zero_iff [OF l(1), of "row (disks s) (bk v)"] is_block_row [OF p(1)]
        by (simp add: parity_stores_def row_meta)
    next
      case 2
      with st l show ?thesis by (simp add: parity_stores_def row_meta)
    next
      case 3
      with st l tol' [OF l(1)] show ?thesis by (simp add: parity_stores_def row_meta)
    qed
  qed
  ultimately show ?thesis using T i(1) f by (auto simp: keeps_def add.commute)
qed

lemma parity_repair_law:
  assumes "inv s" "1 \<le> d" "d \<le> DISKS E" "parity_tol (failed_disks E s)"
  shows "\<exists>s'. raidrepair E (int d) s = Ok (0, s') \<and> inv s' \<and>
            failed_disks E s' = failed_disks E s - {d} \<and> keeps cap stores s s'"
proof -
  obtain n where n: "d = Suc n" "n < DISKS E" using disk_number assms(2,3) by blast
  obtain p pg pg' pgs where p: "base_ok E s" "meta_ok t (raidmeta s)" "\<not> isDestroyed (raidmeta s)"
    "get_parity (raidmeta s) = Ok p" "parity_idle p" "rows_zero E s (cluster_loaded p)"
    "kmem_inv (kernel_end E) (kmem s) (pg # pg' # pgs)" using inv_elim [OF assms(1)] .
  show ?thesis
  proof (cases "valid (diskinfo (raidmeta s) n)")
    case True
    with assms(1) p n show ?thesis
      using raidrepair_valid [OF p(3) n(2)] not_failed [OF n(2), of s] by (auto simp: keeps_def)
  next
    case False
    note others = tol_others [OF assms(4) n(2) False]
    let ?ds = "rebuild_disk E n (cluster_loaded p) (disks s)"
    obtain T where T: "raidrepair_raid4 E n s = Ok (None, (set_valid n True s)\<lparr>disks := ?ds, tbuf := T\<rparr>)"
        (is "_ = Ok (None, ?s)")
      using raidrepair_raid4_Ok [OF p(1,4,5,7) n(2) others] by blast
    have b1: "base_ok E ?s"
      using p(1) n(2) base_okD(6) [OF p(1)] by (intro base_ok_disks base_ok_set_valid is_block_rebuild)
    obtain U where U: "writeraidmeta E ?s =
        Ok (?s\<lparr>disks := meta_disks E (pid ?s) (raidmeta ?s) (disks ?s), tbuf := U\<rparr>)" (is "_ = Ok ?u")
      using writeraidmeta_Ok [OF b1] by blast
    have "base_ok E ?u"
      using base_ok_set_valid [OF p(1) n(2)] base_okD(1,6) [OF b1] by (intro base_ok_disks is_block_meta_disks) auto
    moreover have "xsum (row (disks ?u) b) [0..<DISKS E] = zero_block"
      if b: "b < diskblockn" "cluster_loaded p (b div CLUSTER_SIZE)" for b
      using b n(2) xsum_upd_out [of n "[i \<leftarrow> [0..<DISKS E]. i \<noteq> n]"] is_block_row [OF p(1)]
      by (subst xsum_zero_iff [of n]) (auto simp: row_meta row_rebuild)
    ultimately have "inv ?u"
      using p by (auto simp: parity_inv_def meta_ok_def rows_zero_def)
    moreover have "failed_disks E ?u = failed_disks E s - {d}"
      using failed_disks_set_valid(1) [OF n(2)] n(1) by simp
    moreover have "stores ?u v x" if v: "v < cap" and st: "stores s v x" for v x
      using st loc [OF v] others [of "dsk v"] p(4) False
      by (cases "dsk v = n") (auto simp: parity_stores_def row_meta row_rebuild)
    moreover have "raidrepair E (int d) s = Ok (0, ?u)"
      using repair_switch [OF p(2) n(2) False] T U n(1) by simp
    ultimately show ?thesis by (auto simp: keeps_def)
  qed
qed

lemma parity_write_stores:
  assumes ok: "base_ok E s" and tol: "parity_tol (failed_disks E s)" and v: "v < cap" and x: "is_block x"
    and gp: "get_parity (raidmeta s) = Ok p"
  fixes T
  defines "c \<equiv> bk v div CLUSTER_SIZE"
  defines "s' \<equiv> (set_parity (p\<lparr>cluster_loaded := (cluster_loaded p)(c := True)\<rparr>) s)\<lparr>
     disks := stripe_disks E (raidmeta s) (dsk v) (par (bk v)) (bk v) x (ready_disks c p s), tbuf := T\<rparr>"
  shows "stores s' v x" and "w < cap \<Longrightarrow> w \<noteq> v \<Longrightarrow> stores s w y \<Longrightarrow> stores s' w y"
proof -
  let ?n = "dsk v" and ?q = "par (bk v)" and ?b = "bk v" and ?r = "ready_disks c p s"
  have l: "?n < DISKS E" "?n \<noteq> ?q" "?b < diskblockn" "?q < DISKS E"
    using loc [OF v] par_lt [OF base_okD(7) [OF ok]] by auto
  have blk: "\<And>i. is_block (row ?r ?b i)" by (simp add: row_def is_block_ready [OF ok])
  have gp': "get_parity (raidmeta s') = Ok (p\<lparr>cluster_loaded := (cluster_loaded p)(c := True)\<rparr>)"
    using gp by (simp add: s'_def)
  show "stores s' v x"
    using gp' l row_stripe(1) [of "raidmeta s" ?n ?q] xsum_stripe_lost [OF _ l(2,4) blk x]
    by (simp add: parity_stores_def s'_def c_def)
  assume w: "w < cap" "w \<noteq> v" and st: "stores s w y"
  have lw: "dsk w < DISKS E" "dsk w \<noteq> par (bk w)" "bk w < diskblockn" using loc [OF w(1)] by auto
  have ld: "cluster_loaded p (bk w div CLUSTER_SIZE)" using st gp by (simp add: parity_stores_def)
  then have r: "row ?r (bk w) = row (disks s) (bk w)" using lw by (intro row_ready_loaded)
  show "stores s' w y"
  proof (cases "bk w = ?b")
    case False
    then have "row (disks s') (bk w) = row (disks s) (bk w)" using r by (simp add: s'_def row_stripe_other)
    with st gp' ld show ?thesis by (simp add: parity_stores_def s'_def)
  next
    case True
    then have n: "dsk w \<noteq> ?n" "dsk w \<noteq> ?q" using loc_inj [OF w(1) v] w(2) lw by auto
    have "row (disks s') (bk w) (dsk w) = row (disks s) (bk w) (dsk w)"
      using row_stripe(2) [OF n] r True by (simp add: s'_def)
    moreover have "xsum (row (disks s') (bk w)) [i \<leftarrow> [0..<DISKS E]. i \<noteq> dsk w] =
        xsum (row (disks s) (bk w)) [i \<leftarrow> [0..<DISKS E]. i \<noteq> dsk w]"
      if "\<not> valid (diskinfo (raidmeta s) (dsk w))"
      using xsum_stripe [OF _ _ l(2) blk x, of "raidmeta s" "[i \<leftarrow> [0..<DISKS E]. i \<noteq> dsk w]"]
        tol_others [OF tol lw(1) that] l n r True by (simp add: s'_def)
    ultimately show ?thesis using st gp' ld by (simp add: parity_stores_def s'_def)
  qed
qed

lemma parity_write_law:
  assumes "inv s" "parity_tol (failed_disks E s)" "v < cap" "is_block x"
  shows "\<exists>s'. wr (int v) x s = Ok (0, s') \<and> inv s' \<and> failed_disks E s' = failed_disks E s \<and>
            stores s' v x \<and> (\<forall>w y. w < cap \<longrightarrow> w \<noteq> v \<longrightarrow> stores s w y \<longrightarrow> stores s' w y)"
proof -
  obtain p pg pg' pgs where p: "base_ok E s" "meta_ok t (raidmeta s)" "rtype (raidmeta s) = t"
    "get_parity (raidmeta s) = Ok p" "parity_idle p" "rows_zero E s (cluster_loaded p)"
    "kmem_inv (kernel_end E) (kmem s) (pg # pg' # pgs)" using inv_elim [OF assms(1)] .
  let ?n = "dsk v" and ?q = "par (bk v)" and ?b = "bk v"
  have l: "?n < DISKS E" "?n \<noteq> ?q" "?b \<le> diskblockn" "?q < DISKS E"
    using loc [OF assms(3)] par_lt [OF base_okD(7) [OF p(1)]] by auto
  have one: "valid (diskinfo (raidmeta s) ?n) \<or> (\<forall>i < DISKS E. i \<noteq> ?n \<longrightarrow> valid (diskinfo (raidmeta s) i))"
    using tol_others [OF assms(2) l(1)] by blast
  let ?c = "?b div CLUSTER_SIZE"
  let ?p = "p\<lparr>cluster_loaded := (cluster_loaded p)(?c := True)\<rparr>"
  obtain T where T: "wr (int v) x s = Ok (0, (set_parity ?p s)\<lparr>
       disks := stripe_disks E (raidmeta s) ?n ?q ?b x (ready_disks ?c p s), tbuf := T\<rparr>)" (is "_ = Ok (0, ?s)")
    using parity_write_Ok [OF p(1,3-5,7) l(1-3) assms(4) one] wr_row [OF p(3) assms(3)] by auto
  have "base_ok E ?s"
    using assms(4) by (intro base_ok_disks base_ok_set_parity p(1) is_block_stripe_disks is_block_ready)
  moreover have "rows_zero E ?s (cluster_loaded ?p)"
    unfolding rows_zero_def
  proof (intro impI allI)
    fix b'
    assume "\<forall>i < DISKS E. valid (diskinfo (raidmeta ?s) i)" and b': "b' < diskblockn" "cluster_loaded ?p (b' div CLUSTER_SIZE)"
    then have all: "\<And>i. i < DISKS E \<Longrightarrow> valid (diskinfo (raidmeta s) i)" by simp
    have z: "xsum (row (ready_disks ?c p s) b') [0..<DISKS E] = zero_block"
      using ready_zero [OF p(1,6) all b'(1)] b'(2) by (auto split: if_splits)
    show "xsum (row (disks ?s) b') [0..<DISKS E] = zero_block"
    proof (cases "b' = ?b")
      case False
      with z show ?thesis by (simp add: row_stripe_other)
    next
      case True
      have "\<And>i. is_block (row (ready_disks ?c p s) ?b i)" by (simp add: row_def is_block_ready [OF p(1)])
      then show ?thesis
        using z True xsum_stripe [OF all [OF l(1)] all [OF l(4)] l(2) _ assms(4), of "ready_disks ?c p s" ?b "[0..<DISKS E]"] l
        by simp
    qed
  qed
  ultimately have "inv ?s" using p by (auto simp: parity_inv_def meta_ok_def parity_idle_def)
  moreover have "failed_disks E ?s = failed_disks E s" by (rule failed_disks_cong) simp
  ultimately show ?thesis
    using T parity_write_stores [OF p(1) assms(2-4) p(4), where T = T] by blast
qed

end

sublocale parity_layout \<subseteq> raid_array E rd wr "parity_inv E t" cap parity_tol "parity_stores E dsk bk"
proof (unfold_locales, goal_cases)
  case (1 F G)
  then show ?case unfolding parity_tol_def by blast
next
  case (2 s v x buf)
  then show ?case by (rule parity_read_law)
next
  case (3 s v x)
  then show ?case by (rule parity_write_law)
next
  case (4 s d)
  then show ?case by (rule parity_fail_law)
next
  case (5 s d)
  then show ?case by (rule parity_repair_law)
qed

end
