(* ===== verification/Raid4.thy ===== *)
theory Raid4
  imports Raid_Stripe
begin

text \<open>RAID 4 (kernel/raid4.c): logical block \<open>v\<close> is block \<open>v / (DISKS - 1)\<close> of data disk
  \<open>v % (DISKS - 1)\<close>; the last disk holds the parity. \<open>loadclusterraid4\<close> always returns 0, which its
  caller ignores; the model leaves the value out.\<close>

section \<open>Definitions\<close>

definition loadclusterraid4 :: "platform \<Rightarrow> nat \<Rightarrow> kstate \<Rightarrow> kstate result" where
  "loadclusterraid4 E clustern s =
     (if rtype (raidmeta s) \<noteq> RAID4 then Panic wrong_raid
      else if clustern \<ge> NCLUSTERS then Panic ''Wrong cluster number in loading...''
      else
        bindR (alloc_page s) (\<lambda>(page, s).
        bindR (acquire_disks E s) (\<lambda>s.
        bindR (for_each (\<lambda>i s.
            bindR (touch_page page s) (\<lambda>s.
            bindR (for_each (xor_step E (\<lambda>diskn m. valid (diskinfo m diskn)) i) [0..<DISKS E - 1]
                     (zero_block, s)) (\<lambda>(parity, s).
              if valid (diskinfo (raidmeta s) (DISKS E - 1)) then write_block E (DISKS E) i parity s
              else Ok s)))
            [clustern * CLUSTER_SIZE..<clustern * CLUSTER_SIZE + CLUSTER_SIZE] s) (\<lambda>s.
        bindR (get_parity (raidmeta s)) (\<lambda>raiddata.
        bindR (release_disks E (set_parity
                 (raiddata\<lparr>cluster_loaded := (cluster_loaded raiddata)(clustern := True)\<rparr>) s)) (\<lambda>s.
        bindR (writeraidmeta E s) (\<lambda>s.
        free_page E page s)))))))"

definition readinvalidraid4 :: "platform \<Rightarrow> nat \<Rightarrow> nat \<Rightarrow> kstate \<Rightarrow> (block \<times> kstate) result" where
  "readinvalidraid4 = readinvalid"

definition raid4read :: "platform \<Rightarrow> int \<Rightarrow> block \<Rightarrow> kstate \<Rightarrow> (u64 \<times> block \<times> kstate) result" where
  "raid4read E vblkn data s =
     (if rtype (raidmeta s) \<noteq> RAID4 then Panic wrong_raid
      else if bad_block E (raidmeta s) vblkn then Ok (- 1, data, s)
      else let diskn = nat vblkn mod (DISKS E - 1);
               pblkn = nat vblkn div (DISKS E - 1)
           in if \<not> valid (diskinfo (raidmeta s) diskn)
              then if list_ex (\<lambda>i. i \<noteq> diskn \<and> \<not> valid (diskinfo (raidmeta s) i)) [0..<DISKS E]
                   then Ok (- 1, data, s)
                   else bindR (acquire_disks E s) (\<lambda>s.
                        bindR (readinvalidraid4 E diskn pblkn s) (\<lambda>(data, s).
                        bindR (release_disks E s) (\<lambda>s. Ok (0, data, s))))
              else bindR (acquire_disk diskn s) (\<lambda>s.
                   bindR (read_block E (diskn + 1) pblkn s) (\<lambda>(data, s).
                   bindR (release_disk diskn s) (\<lambda>s. Ok (0, data, s)))))"

definition raid4write :: "platform \<Rightarrow> int \<Rightarrow> block \<Rightarrow> kstate \<Rightarrow> (u64 \<times> kstate) result" where
  "raid4write E vblkn data s =
     (if rtype (raidmeta s) \<noteq> RAID4 then Panic wrong_raid
      else if bad_block E (raidmeta s) vblkn then Ok (- 1, s)
      else
        let diskn = nat vblkn mod (DISKS E - 1);
            pblkn = nat vblkn div (DISKS E - 1);
            clustern = pblkn div CLUSTER_SIZE
        in if \<not> valid (diskinfo (raidmeta s) diskn) \<and>
              list_ex (\<lambda>i. i \<noteq> diskn \<and> \<not> valid (diskinfo (raidmeta s) i)) [0..<DISKS E]
           then Ok (- 1, s)
           else
             bindR (alloc_page s) (\<lambda>(page, s).
             bindR (begin_write s) (\<lambda>s.
             bindR (acquire_cluster s) (\<lambda>s.
             bindR (get_parity (raidmeta s)) (\<lambda>raiddata.
             bindR (if \<not> cluster_loaded raiddata clustern then loadclusterraid4 E clustern s else Ok s) (\<lambda>s.
             bindR (release_cluster s) (\<lambda>s.
             bindR
               (if \<not> valid (diskinfo (raidmeta s) diskn) then
                  bindR (acquire_disks E s) (\<lambda>s.
                  bindR (readinvalidraid4 E diskn pblkn s) (\<lambda>(prevdata, s).
                  bindR (touch_page page s) (\<lambda>s.
                  bindR (read_block E (DISKS E) pblkn s) (\<lambda>(parity, s).
                  bindR (write_block E (DISKS E) pblkn (xor_block parity (xor_block prevdata data)) s) (\<lambda>s.
                  release_disks E s)))))
                else if \<not> valid (diskinfo (raidmeta s) (DISKS E - 1)) then
                  bindR (acquire_disk diskn s) (\<lambda>s.
                  bindR (write_block E (diskn + 1) pblkn data s) (\<lambda>s.
                  release_disk diskn s))
                else
                  bindR (acquire_disk diskn s) (\<lambda>s.
                  bindR (acquire_disk (DISKS E - 1) s) (\<lambda>s.
                  bindR (touch_page page s) (\<lambda>s.
                  bindR (read_block E (diskn + 1) pblkn s) (\<lambda>(prevdata, s).
                  bindR (read_block E (DISKS E) pblkn s) (\<lambda>(parity, s).
                  bindR (write_block E (diskn + 1) pblkn data s) (\<lambda>s.
                  bindR (write_block E (DISKS E) pblkn (xor_block parity (xor_block prevdata data)) s) (\<lambda>s.
                  bindR (release_disk (DISKS E - 1) s) (\<lambda>s.
                  release_disk diskn s))))))))) (\<lambda>s.
             bindR (free_page E page s) (\<lambda>s.
             bindR (end_write s) (\<lambda>s.
             Ok (0, s)))))))))))"

section \<open>The contract\<close>

abbreviation raid4_cap :: "platform \<Rightarrow> nat" where
  "raid4_cap E \<equiv> diskblockn * (DISKS E - 1)"

lemma raid4_range:
  assumes "rtype (raidmeta s) = RAID4" "v < 0 \<or> int (raid4_cap E) \<le> v"
  shows "raid4read E v buf s = Ok (- 1, buf, s)" "raid4write E v x s = Ok (- 1, s)"
  using assms by (auto simp: raid4read_def raid4write_def bad_block_def raidblockn_def)

lemma raid4_loc:
  assumes "v < raid4_cap E"
  shows "v mod (DISKS E - 1) < DISKS E - 1" "v div (DISKS E - 1) < diskblockn"
proof -
  have "0 < DISKS E - 1" using assms by (cases "DISKS E - 1") auto
  then show "v mod (DISKS E - 1) < DISKS E - 1" by simp
  show "v div (DISKS E - 1) < diskblockn" using assms by (rule less_mult_imp_div_less)
qed

lemma loadclusterraid4_form:
  "loadclusterraid4 E = parity_load E RAID4 (\<lambda>b. DISKS E - 1) (\<lambda>m b. DISKS E) (DISKS E - 1)
     (\<lambda>b i m. valid (diskinfo m i))"
  by (simp add: fun_eq_iff loadclusterraid4_def parity_load_def load_row_def [abs_def])

lemma raid4read_form:
  "rtype (raidmeta s) = RAID4 \<Longrightarrow> v < raid4_cap E \<Longrightarrow>
   raid4read E (int v) buf s = parity_read E (v mod (DISKS E - 1)) (v div (DISKS E - 1)) buf s"
  by (simp add: raid4read_def raidblockn_def parity_read_def readinvalidraid4_def Let_def)

lemma raid4write_form:
  "rtype (raidmeta s) = RAID4 \<Longrightarrow> v < raid4_cap E \<Longrightarrow>
   raid4write E (int v) x s = parity_write E (\<lambda>b. DISKS E - 1) (\<lambda>m b. DISKS E) (loadclusterraid4 E)
     (v mod (DISKS E - 1)) (v div (DISKS E - 1)) x s"
  using raid4_loc(1) [of v E]
  by (simp add: raid4write_def raidblockn_def parity_write_def readinvalidraid4_def write_lost_def
       write_plain_def write_both_def Let_def cong: if_cong)

lemma raid4_select:
  "[i \<leftarrow> [0..<D - 1]. Q i] = [i \<leftarrow> [0..<D]. Q i \<and> i \<noteq> D - 1]"
proof (cases D)
  case (Suc k)
  have "[i \<leftarrow> [0..<k]. Q i] = [i \<leftarrow> [0..<k]. Q i \<and> i \<noteq> k]" by (rule filter_cong) auto
  with Suc show ?thesis by (simp add: upt_Suc)
qed simp

lemma raid4_repair:
  "meta_ok RAID4 (raidmeta s) \<Longrightarrow> n < DISKS E \<Longrightarrow> \<not> valid (diskinfo (raidmeta s) n) \<Longrightarrow>
   raidrepair E (int (Suc n)) s = bindR (raidrepair_raid4 E n s) (after_switch E)"
  by (simp add: raidrepair_def meta_ok_def Let_def)

interpretation r4: parity_layout E RAID4 "\<lambda>b. DISKS E - 1" "\<lambda>m b. DISKS E" "DISKS E - 1"
  "\<lambda>b i m. valid (diskinfo m i)" "\<lambda>v. v mod (DISKS E - 1)" "\<lambda>v. v div (DISKS E - 1)" "raid4_cap E"
  "raid4read E" "raid4write E" for E
proof (unfold_locales, goal_cases)
  case (1 s v buf)
  then show ?case by (rule raid4read_form)
next
  case (2 s v x)
  then show ?case by (simp add: raid4write_form loadclusterraid4_form)
next
  case (3 v)
  then show ?case using raid4_loc [OF 3] by auto
next
  case (4 v w)
  then show ?case by (metis div_mult_mod_eq)
next
  case (8 b m)
  then show ?case by (rule raid4_select)
next
  case (9 s n)
  then show ?case by (rule raid4_repair)
qed auto

end
