(* ===== verification/Raid5.thy ===== *)
theory Raid5
  imports Raid_Stripe
begin

text \<open>RAID 5 (kernel/raid5.c): the parity of row \<open>b\<close> is on disk \<open>b % DISKS\<close>, the data blocks of the row
  on the disks that follow it, cyclically. \<open>paritydev\<close> names the expression
  \<open>diskinfo[paritydiskn].diskn\<close>; \<open>loadclusterraid5\<close> always returns 0, which the model leaves out.\<close>

section \<open>Definitions\<close>

definition loadclusterraid5 :: "platform \<Rightarrow> nat \<Rightarrow> kstate \<Rightarrow> kstate result" where
  "loadclusterraid5 E clustern s =
     (if rtype (raidmeta s) \<noteq> RAID5 then Panic wrong_raid
      else if clustern \<ge> NCLUSTERS then Panic ''Wrong cluster number in loading...''
      else
        bindR (alloc_page s) (\<lambda>(page, s).
        bindR (acquire_disks E s) (\<lambda>s.
        bindR (for_each (\<lambda>i s.
            bindR (touch_page page s) (\<lambda>s.
            let paritydiskn = i mod DISKS E
            in bindR (for_each (xor_step E (\<lambda>diskn m. valid (diskinfo m diskn) \<and> diskn \<noteq> paritydiskn) i)
                        [0..<DISKS E] (zero_block, s)) (\<lambda>(parity, s).
                 if valid (diskinfo (raidmeta s) paritydiskn)
                 then write_block E (diskn (diskinfo (raidmeta s) paritydiskn)) i parity s
                 else Ok s)))
            [clustern * CLUSTER_SIZE..<clustern * CLUSTER_SIZE + CLUSTER_SIZE] s) (\<lambda>s.
        bindR (get_parity (raidmeta s)) (\<lambda>raiddata.
        bindR (release_disks E (set_parity
                 (raiddata\<lparr>cluster_loaded := (cluster_loaded raiddata)(clustern := True)\<rparr>) s)) (\<lambda>s.
        bindR (writeraidmeta E s) (\<lambda>s.
        free_page E page s)))))))"

definition readinvalidraid5 :: "platform \<Rightarrow> nat \<Rightarrow> nat \<Rightarrow> kstate \<Rightarrow> (block \<times> kstate) result" where
  "readinvalidraid5 = readinvalid"

definition raid5read :: "platform \<Rightarrow> int \<Rightarrow> block \<Rightarrow> kstate \<Rightarrow> (u64 \<times> block \<times> kstate) result" where
  "raid5read E vblkn data s =
     (if rtype (raidmeta s) \<noteq> RAID5 then Panic wrong_raid
      else if bad_block E (raidmeta s) vblkn then Ok (- 1, data, s)
      else let stripe = nat vblkn div (DISKS E - 1);
               paritydiskn = stripe mod DISKS E;
               stripepos = nat vblkn mod (DISKS E - 1);
               diskn = (paritydiskn + 1 + stripepos) mod DISKS E
           in if \<not> valid (diskinfo (raidmeta s) diskn)
              then if list_ex (\<lambda>i. i \<noteq> diskn \<and> \<not> valid (diskinfo (raidmeta s) i)) [0..<DISKS E]
                   then Ok (- 1, data, s)
                   else bindR (acquire_disks E s) (\<lambda>s.
                        bindR (readinvalidraid5 E diskn stripe s) (\<lambda>(data, s).
                        bindR (release_disks E s) (\<lambda>s. Ok (0, data, s))))
              else bindR (acquire_disk diskn s) (\<lambda>s.
                   bindR (read_block E (diskn + 1) stripe s) (\<lambda>(data, s).
                   bindR (release_disk diskn s) (\<lambda>s. Ok (0, data, s)))))"

definition raid5write :: "platform \<Rightarrow> int \<Rightarrow> block \<Rightarrow> kstate \<Rightarrow> (u64 \<times> kstate) result" where
  "raid5write E vblkn data s =
     (if rtype (raidmeta s) \<noteq> RAID5 then Panic wrong_raid
      else if bad_block E (raidmeta s) vblkn then Ok (- 1, s)
      else
        let stripe = nat vblkn div (DISKS E - 1);
            paritydiskn = stripe mod DISKS E;
            stripepos = nat vblkn mod (DISKS E - 1);
            diskn = (paritydiskn + 1 + stripepos) mod DISKS E;
            clustern = stripe div CLUSTER_SIZE;
            paritydev = (\<lambda>s. DiskInfo.diskn (diskinfo (raidmeta s) paritydiskn))
        in if \<not> valid (diskinfo (raidmeta s) diskn) \<and>
              list_ex (\<lambda>i. i \<noteq> diskn \<and> \<not> valid (diskinfo (raidmeta s) i)) [0..<DISKS E]
           then Ok (- 1, s)
           else
             bindR (alloc_page s) (\<lambda>(page, s).
             bindR (begin_write s) (\<lambda>s.
             bindR (acquire_cluster s) (\<lambda>s.
             bindR (get_parity (raidmeta s)) (\<lambda>raiddata.
             bindR (if \<not> cluster_loaded raiddata clustern then loadclusterraid5 E clustern s else Ok s) (\<lambda>s.
             bindR (release_cluster s) (\<lambda>s.
             bindR
               (if \<not> valid (diskinfo (raidmeta s) diskn) then
                  bindR (acquire_disks E s) (\<lambda>s.
                  bindR (readinvalidraid5 E diskn stripe s) (\<lambda>(prevdata, s).
                  bindR (touch_page page s) (\<lambda>s.
                  bindR (read_block E (paritydev s) stripe s) (\<lambda>(parity, s).
                  bindR (write_block E (paritydev s) stripe (xor_block parity (xor_block prevdata data)) s) (\<lambda>s.
                  release_disks E s)))))
                else if \<not> valid (diskinfo (raidmeta s) paritydiskn) then
                  bindR (acquire_disk diskn s) (\<lambda>s.
                  bindR (write_block E (diskn + 1) stripe data s) (\<lambda>s.
                  release_disk diskn s))
                else
                  bindR (if diskn < paritydiskn
                         then bindR (acquire_disk diskn s) (acquire_disk paritydiskn)
                         else bindR (acquire_disk paritydiskn s) (acquire_disk diskn)) (\<lambda>s.
                  bindR (touch_page page s) (\<lambda>s.
                  bindR (read_block E (diskn + 1) stripe s) (\<lambda>(prevdata, s).
                  bindR (read_block E (paritydev s) stripe s) (\<lambda>(parity, s).
                  bindR (write_block E (diskn + 1) stripe data s) (\<lambda>s.
                  bindR (write_block E (paritydev s) stripe (xor_block parity (xor_block prevdata data)) s) (\<lambda>s.
                  if diskn < paritydiskn
                  then bindR (release_disk paritydiskn s) (release_disk diskn)
                  else bindR (release_disk diskn s) (release_disk paritydiskn)))))))) (\<lambda>s.
             bindR (free_page E page s) (\<lambda>s.
             bindR (end_write s) (\<lambda>s.
             Ok (0, s)))))))))))"

section \<open>The contract\<close>

abbreviation raid5_cap :: "platform \<Rightarrow> nat" where
  "raid5_cap E \<equiv> diskblockn * (DISKS E - 1)"

abbreviation raid5_par :: "platform \<Rightarrow> nat \<Rightarrow> nat" where
  "raid5_par E b \<equiv> b mod DISKS E"

abbreviation raid5_dsk :: "platform \<Rightarrow> nat \<Rightarrow> nat" where
  "raid5_dsk E v \<equiv> (v div (DISKS E - 1) mod DISKS E + 1 + v mod (DISKS E - 1)) mod DISKS E"

lemma raid5_range:
  assumes "rtype (raidmeta s) = RAID5" "v < 0 \<or> int (raid5_cap E) \<le> v"
  shows "raid5read E v buf s = Ok (- 1, buf, s)" "raid5write E v x s = Ok (- 1, s)"
  using assms by (auto simp: raid5read_def raid5write_def bad_block_def raidblockn_def)

lemma mod_shift_le:
  assumes "(k + x) mod D = (k + y) mod D" "y \<le> x" "x < D"
  shows "x = (y :: nat)"
proof -
  have "D dvd (k + x) - (k + y)" using assms(1,2) mod_eq_dvd_iff_nat [of "k + y" "k + x" D] by simp
  with assms show ?thesis using dvd_imp_le [of D "x - y"] by (cases "y < x") auto
qed

lemma rotate_inj:
  assumes "(p + 1 + a) mod D = (p + 1 + b) mod D" "a < D - 1" "b < D - 1"
  shows "a = (b :: nat)"
  using assms mod_shift_le [of "p + 1" a D b] mod_shift_le [of "p + 1" b D a] by linarith

lemma raid5_loc:
  assumes "v < raid5_cap E"
  shows "v mod (DISKS E - 1) < DISKS E - 1" "v div (DISKS E - 1) < diskblockn"
    "raid5_dsk E v < DISKS E" "raid5_dsk E v \<noteq> raid5_par E (v div (DISKS E - 1))"
proof -
  have D: "0 < DISKS E - 1" using assms by (cases "DISKS E - 1") auto
  then show p: "v mod (DISKS E - 1) < DISKS E - 1" by simp
  show "v div (DISKS E - 1) < diskblockn" using assms by (rule less_mult_imp_div_less)
  show "raid5_dsk E v < DISKS E" using D by simp
  have "(q + 1 + a) mod DISKS E \<noteq> q" if "q < DISKS E" "a < DISKS E - 1" for q a
    using that by (cases "q + 1 + a < DISKS E") (auto simp: mod_if)
  then show "raid5_dsk E v \<noteq> raid5_par E (v div (DISKS E - 1))" using D p by auto
qed

lemma loadclusterraid5_form:
  "loadclusterraid5 E = parity_load E RAID5 (raid5_par E) (\<lambda>m b. diskn (diskinfo m (raid5_par E b))) (DISKS E)
     (\<lambda>b i m. valid (diskinfo m i) \<and> i \<noteq> raid5_par E b)"
  by (simp add: fun_eq_iff loadclusterraid5_def parity_load_def load_row_def [abs_def] Let_def)

lemma raid5read_form:
  "rtype (raidmeta s) = RAID5 \<Longrightarrow> v < raid5_cap E \<Longrightarrow>
   raid5read E (int v) buf s = parity_read E (raid5_dsk E v) (v div (DISKS E - 1)) buf s"
  by (simp add: raid5read_def raidblockn_def parity_read_def readinvalidraid5_def Let_def)

lemma raid5write_form:
  "rtype (raidmeta s) = RAID5 \<Longrightarrow> v < raid5_cap E \<Longrightarrow>
   raid5write E (int v) x s = parity_write E (raid5_par E) (\<lambda>m b. diskn (diskinfo m (raid5_par E b)))
     (loadclusterraid5 E) (raid5_dsk E v) (v div (DISKS E - 1)) x s"
  by (cases "raid5_dsk E v < raid5_par E (v div (DISKS E - 1))")
     (simp_all add: raid5write_def raidblockn_def parity_write_def readinvalidraid5_def write_lost_def
       write_plain_def write_both_def Let_def bindR_assoc cong: if_cong)

lemma raid5_repair:
  "meta_ok RAID5 (raidmeta s) \<Longrightarrow> n < DISKS E \<Longrightarrow> \<not> valid (diskinfo (raidmeta s) n) \<Longrightarrow>
   raidrepair E (int (Suc n)) s = bindR (raidrepair_raid4 E n s) (after_switch E)"
  by (simp add: raidrepair_def meta_ok_def raidrepair_raid5_def Let_def)

interpretation r5: parity_layout E RAID5 "raid5_par E" "\<lambda>m b. diskn (diskinfo m (raid5_par E b))" "DISKS E"
  "\<lambda>b i m. valid (diskinfo m i) \<and> i \<noteq> raid5_par E b" "raid5_dsk E" "\<lambda>v. v div (DISKS E - 1)" "raid5_cap E"
  "raid5read E" "raid5write E" for E
proof (unfold_locales, goal_cases)
  case (1 s v buf)
  then show ?case by (rule raid5read_form)
next
  case (2 s v x)
  then show ?case by (simp add: raid5write_form loadclusterraid5_form)
next
  case (3 v)
  then show ?case using raid5_loc [OF 3] by auto
next
  case (4 v w)
  then have "v mod (DISKS E - 1) = w mod (DISKS E - 1)"
    using rotate_inj [OF _ raid5_loc(1) raid5_loc(1)] by metis
  with 4 show ?case by (metis div_mult_mod_eq)
next
  case (9 s n)
  then show ?case by (rule raid5_repair)
qed auto

end
