(* ===== verification/Raid_Top.thy ===== *)
theory Raid_Top
  imports Raid0 Raid1 Raid0_1 Raid4 Raid5
begin

text \<open>
  The entry points of kernel/raid.c that dispatch over the level (\<open>readtable\<close>, \<open>writetable\<close>,
  \<open>readraid\<close>, \<open>writeraid\<close>), the contract of the array behind them, and \<open>setraidtype\<close>, which
  establishes the invariant of a level.
\<close>

section \<open>Dispatch\<close>

definition readtable :: "RAID_TYPE \<Rightarrow> platform \<Rightarrow> int \<Rightarrow> block \<Rightarrow> kstate \<Rightarrow> (u64 \<times> block \<times> kstate) result" where
  "readtable t = (case t of RAID0 \<Rightarrow> raid0read | RAID1 \<Rightarrow> raid1read | RAID0_1 \<Rightarrow> raid0_1read
                          | RAID4 \<Rightarrow> raid4read | RAID5 \<Rightarrow> raid5read)"

definition writetable :: "RAID_TYPE \<Rightarrow> platform \<Rightarrow> int \<Rightarrow> block \<Rightarrow> kstate \<Rightarrow> (u64 \<times> kstate) result" where
  "writetable t = (case t of RAID0 \<Rightarrow> raid0write | RAID1 \<Rightarrow> raid1write | RAID0_1 \<Rightarrow> raid0_1write
                           | RAID4 \<Rightarrow> raid4write | RAID5 \<Rightarrow> raid5write)"

definition readraid :: "platform \<Rightarrow> int \<Rightarrow> block \<Rightarrow> kstate \<Rightarrow> (u64 \<times> block \<times> kstate) result" where
  "readraid E vblkn data s =
     (if isDestroyed (raidmeta s) then Panic destroyed_msg
      else case mread (raidmeta s) of
             Some t \<Rightarrow> readtable t E vblkn data s
           | None \<Rightarrow> Ok (- 1, data, s))"

definition writeraid :: "platform \<Rightarrow> int \<Rightarrow> block \<Rightarrow> kstate \<Rightarrow> (u64 \<times> kstate) result" where
  "writeraid E vblkn data s =
     (if isDestroyed (raidmeta s) then Panic destroyed_msg
      else case mwrite (raidmeta s) of
             Some t \<Rightarrow> writetable t E vblkn data s
           | None \<Rightarrow> Ok (- 1, s))"

lemma readraid_meta_ok: "meta_ok t (raidmeta s) \<Longrightarrow> readraid E v buf s = readtable t E v buf s"
  by (simp add: readraid_def meta_ok_def)

lemma writeraid_meta_ok: "meta_ok t (raidmeta s) \<Longrightarrow> writeraid E v x s = writetable t E v x s"
  by (simp add: writeraid_def meta_ok_def)

text \<open>A level behind the dispatch is an array with the same contract.\<close>

locale raid_level = raid_array +
  fixes t :: RAID_TYPE
  assumes inv_meta: "inv s \<Longrightarrow> meta_ok t (raidmeta s)"
    and rd_table: "rd = readtable t E"
    and wr_table: "wr = writetable t E"
    and range_law: "rtype (raidmeta s) = t \<Longrightarrow> v < 0 \<or> int cap \<le> v \<Longrightarrow>
       rd v buf s = Ok (- 1, buf, s) \<and> wr v x s = Ok (- 1, s)"

sublocale raid_level \<subseteq> top: raid_array E "readraid E" "writeraid E" inv cap tol stores
proof (unfold_locales, goal_cases)
  case (1 F G)
  then show ?case by (rule tol_mono)
next
  case (2 s v x buf)
  then show ?case using read_law [OF 2] by (simp add: readraid_meta_ok [OF inv_meta] rd_table)
next
  case (3 s v x)
  then show ?case using write_law [OF 3] by (simp add: writeraid_meta_ok [OF inv_meta] wr_table)
next
  case (4 s d)
  then show ?case by (rule fail_law)
next
  case (5 s d)
  then show ?case by (rule repair_law)
qed

context raid_level
begin

lemma top_range:
  assumes "inv s" "v < 0 \<or> int cap \<le> v"
  shows "readraid E v buf s = Ok (- 1, buf, s) \<and> writeraid E v x s = Ok (- 1, s)"
  using range_law [of s v buf x] inv_meta [OF assms(1)] assms(2)
  by (auto simp: readraid_meta_ok writeraid_meta_ok rd_table wr_table meta_ok_def)

text \<open>From \<open>setraidtype\<close> on: every legal sequence of operations succeeds, and afterwards a read returns
  what was written last.\<close>

lemma run_from_start:
  assumes "\<exists>s0. setraidtype E c s = Ok (0, s0) \<and> inv s0 \<and> failed_disks E s0 = failed_disks E s"
    and "tol (failed_disks E s)" "legal_run E cap tol (start E s) ps"
  shows "\<exists>s0 s'. setraidtype E c s = Ok (0, s0) \<and> run_ops E (writeraid E) ps s0 = Ok (0, s') \<and> inv s' \<and>
    failed_disks E s' = failed (fold astep ps (start E s)) \<and>
    (\<forall>v x buf. content (fold astep ps (start E s)) v = Some x \<longrightarrow>
       (\<exists>T. readraid E (int v) buf s' = Ok (0, x, s'\<lparr>tbuf := T\<rparr>)))"
proof -
  obtain s0 where s0: "setraidtype E c s = Ok (0, s0)" "inv s0" "failed_disks E s0 = failed_disks E s"
    using assms(1) by blast
  then have "start E s0 = start E s" by (simp add: start_def)
  with s0 assms(2,3) top.read_back [of s0 ps] show ?thesis by auto
qed

end

interpretation l0: raid_level E "raid0read E" "raid0write E" "raid0_inv E" "raid0_cap E" raid0_tol
  "raid0_stores E" RAID0 for E
proof (unfold_locales, goal_cases)
  case (4 s v buf x)
  then show ?case using raid0_range [of s v E] by auto
qed (auto simp: raid0_inv_def readtable_def writetable_def)

abbreviation raid1_inv :: "platform \<Rightarrow> kstate \<Rightarrow> bool" where
  "raid1_inv E \<equiv> mirror_inv E True RAID1 (raid1_pairs E) (\<lambda>k. 2 * k) (\<lambda>k. 2 * k + 1)"

abbreviation raid1_tol :: "platform \<Rightarrow> nat set \<Rightarrow> bool" where
  "raid1_tol E \<equiv> mirror_tol E (raid1_pairs E) (\<lambda>k. 2 * k) (\<lambda>k. 2 * k + 1)"

interpretation l1: raid_level E "raid1read E" "raid1write E" "raid1_inv E" "raid1_cap E" "raid1_tol E"
  "mirror_stores (\<lambda>k. 2 * k) (\<lambda>k. 2 * k + 1) (\<lambda>v. v div diskblockn) (\<lambda>v. v mod diskblockn)" RAID1 for E
proof (unfold_locales, goal_cases)
  case (4 s v buf x)
  then show ?case using raid1_range [of s v E] by auto
qed (auto simp: mirror_inv_def readtable_def writetable_def)

abbreviation raid0_1_inv :: "platform \<Rightarrow> kstate \<Rightarrow> bool" where
  "raid0_1_inv E \<equiv> mirror_inv E (even (DISKS E)) RAID0_1 (DISKS E div 2) (\<lambda>k. k) (\<lambda>k. k + DISKS E div 2)"

abbreviation raid0_1_tol :: "platform \<Rightarrow> nat set \<Rightarrow> bool" where
  "raid0_1_tol E \<equiv> mirror_tol E (DISKS E div 2) (\<lambda>k. k) (\<lambda>k. k + DISKS E div 2)"

interpretation l01: raid_level E "raid0_1read E" "raid0_1write E" "raid0_1_inv E" "raid0_1_cap E" "raid0_1_tol E"
  "mirror_stores (\<lambda>k. k) (\<lambda>k. k + DISKS E div 2) (\<lambda>v. v mod (DISKS E div 2)) (\<lambda>v. v div (DISKS E div 2))"
  RAID0_1 for E
proof (unfold_locales, goal_cases)
  case (4 s v buf x)
  then show ?case using raid0_1_range [of s v E] by auto
qed (auto simp: mirror_inv_def readtable_def writetable_def)

interpretation l4: raid_level E "raid4read E" "raid4write E" "parity_inv E RAID4" "raid4_cap E" parity_tol
  "parity_stores E (\<lambda>v. v mod (DISKS E - 1)) (\<lambda>v. v div (DISKS E - 1))" RAID4 for E
proof (unfold_locales, goal_cases)
  case (4 s v buf x)
  then show ?case using raid4_range [of s v E] by auto
qed (auto simp: parity_inv_def readtable_def writetable_def)

interpretation l5: raid_level E "raid5read E" "raid5write E" "parity_inv E RAID5" "raid5_cap E" parity_tol
  "parity_stores E (raid5_dsk E) (\<lambda>v. v div (DISKS E - 1))" RAID5 for E
proof (unfold_locales, goal_cases)
  case (4 s v buf x)
  then show ?case using raid5_range [of s v E] by auto
qed (auto simp: parity_inv_def readtable_def writetable_def)

section \<open>Choosing the level\<close>

text \<open>The state \<open>setraidtype\<close> leaves when it installs level \<open>t\<close> with data \<open>d\<close>.\<close>

definition with_level :: "RAID_TYPE \<Rightarrow> RAIDData \<Rightarrow> kstate \<Rightarrow> kstate" where
  "with_level t d s = s\<lparr>raidmeta := (raidmeta s)\<lparr>rtype := t, mread := Some t, mwrite := Some t,
      isDestroyed := False, rdata := d\<rparr>\<rparr>"

lemma base_ok_with_level: "base_ok E s \<Longrightarrow> base_ok E (with_level t d s)"
  by (simp add: base_ok_def with_level_def)

lemma with_level_simps [simp]:
  "failed_disks E (with_level t d s) = failed_disks E s" "kmem (with_level t d s) = kmem s"
  "disks (with_level t d s) = disks s" "rdata (raidmeta (with_level t d s)) = d"
  "meta_ok t (raidmeta (with_level t d s))" "diskinfo (raidmeta (with_level t d s)) = diskinfo (raidmeta s)"
  by (simp_all add: with_level_def failed_disks_def meta_ok_def)

definition level_data :: "platform \<Rightarrow> RAID_TYPE \<Rightarrow> kstate \<Rightarrow> RAIDData" where
  "level_data E t s = (case t of
      RAID0 \<Rightarrow> rdata (raidmeta s)
    | RAID1 \<Rightarrow> RAID1Data (\<lambda>i. init_pair (i * 2) (i * 2 + 1))
    | RAID0_1 \<Rightarrow> RAID0_1Data (\<lambda>i. init_pair i (i + DISKS E div 2))
    | RAID4 \<Rightarrow> RAID4Data init_parity
    | RAID5 \<Rightarrow> RAID5Data init_parity)"

lemma setraidtype_Ok:
  assumes "base_ok E s" "raid_type_of type = Some t" "t = RAID4 \<or> t = RAID5 \<Longrightarrow> invalid_count E (raidmeta s) \<le> 1"
  shows "\<exists>T. setraidtype E type s = Ok (0, (with_level t (level_data E t s) s)\<lparr>disks :=
     meta_disks E (pid s) (raidmeta (with_level t (level_data E t s) s)) (disks s), tbuf := T\<rparr>)"
proof -
  let ?s = "with_level t (level_data E t s) s"
  have ic: "invalid_count E ((raidmeta s)\<lparr>rtype := t, mread := Some t, mwrite := Some t, isDestroyed := False\<rparr>)
      = invalid_count E (raidmeta s)" for t
    by (simp add: invalid_count_def)
  have "setraidtype E type s = bindR (writeraidmeta E ?s) (\<lambda>s. Ok (0, s))"
    using assms(2,3) by (cases t) (auto simp: setraidtype_def Let_def with_level_def level_data_def ic)
  then show ?thesis
    using writeraidmeta_Ok [OF base_ok_with_level [OF assms(1), of t "level_data E t s"]]
    by (auto simp: with_level_def)
qed

text \<open>At most one invalid disk, as the code counts it.\<close>

lemma invalid_count_le_1:
  assumes "parity_tol (failed_disks E s)"
  shows "invalid_count E (raidmeta s) \<le> 1"
proof -
  let ?xs = "[i \<leftarrow> [0..<DISKS E]. \<not> valid (diskinfo (raidmeta s) i)]"
  have "a = b" if "a \<in> set ?xs" "b \<in> set ?xs" for a b
    using that tol_others [OF assms, of a b] by auto
  then have "card (set ?xs) \<le> Suc 0" by (subst card_le_Suc0_iff_eq) auto
  then show ?thesis by (simp add: invalid_count_def distinct_card del: set_filter)
qed

lemma raid0_start:
  assumes "base_ok E s"
  shows "\<exists>s'. setraidtype E 0 s = Ok (0, s') \<and> raid0_inv E s' \<and> failed_disks E s' = failed_disks E s"
  using setraidtype_Ok [OF assms, of 0 RAID0] assms base_okD(1,6) [OF assms]
  by (auto simp: raid_type_of_def raid0_inv_def intro!: base_ok_disks base_ok_with_level is_block_meta_disks)

lemma init_pair_idle [simp]: "pair_idle (init_pair i j) i j"
  by (simp add: pair_idle_def init_pair_def)

lemma raid1_start:
  assumes "base_ok E s"
  shows "\<exists>s'. setraidtype E 1 s = Ok (0, s') \<and> raid1_inv E s' \<and> failed_disks E s' = failed_disks E s"
  using setraidtype_Ok [OF assms, of 1 RAID1] assms base_okD(1,6) [OF assms]
  by (auto simp: raid_type_of_def mirror_inv_def pairs_idle_def get_pair_def level_data_def mult.commute
       intro!: base_ok_disks base_ok_with_level is_block_meta_disks)

lemma raid0_1_start:
  assumes "base_ok E s" "even (DISKS E)"
  shows "\<exists>s'. setraidtype E 2 s = Ok (0, s') \<and> raid0_1_inv E s' \<and> failed_disks E s' = failed_disks E s"
  using setraidtype_Ok [OF assms(1), of 2 RAID0_1] assms base_okD(1,6) [OF assms(1)]
  by (auto simp: raid_type_of_def mirror_inv_def pairs_idle_def get_pair_def level_data_def
       intro!: base_ok_disks base_ok_with_level is_block_meta_disks)

lemma init_parity_idle [simp]: "parity_idle init_parity" "\<not> cluster_loaded init_parity c"
  by (simp_all add: parity_idle_def init_parity_def)

lemma raid4_start:
  assumes "base_ok E s" "parity_tol (failed_disks E s)" "kmem_inv (kernel_end E) (kmem s) (pg # pg' # pgs)"
  shows "\<exists>s'. setraidtype E 3 s = Ok (0, s') \<and> parity_inv E RAID4 s' \<and> failed_disks E s' = failed_disks E s"
proof -
  have "base_ok E ((with_level RAID4 (RAID4Data init_parity) s)\<lparr>disks := meta_disks E (pid s) m (disks s), tbuf := T\<rparr>)"
    for m T
    using assms(1) base_okD(1,6) [OF assms(1)] by (intro base_ok_disks base_ok_with_level is_block_meta_disks)
  moreover obtain T where "setraidtype E 3 s = Ok (0, (with_level RAID4 (RAID4Data init_parity) s)\<lparr>disks :=
     meta_disks E (pid s) (raidmeta (with_level RAID4 (RAID4Data init_parity) s)) (disks s), tbuf := T\<rparr>)"
    using setraidtype_Ok [OF assms(1), of 3 RAID4] invalid_count_le_1 [OF assms(2)]
    by (auto simp: raid_type_of_def level_data_def)
  ultimately show ?thesis
    using assms(3) by (auto simp: parity_inv_def rows_zero_def get_parity_def)
qed

lemma raid5_start:
  assumes "base_ok E s" "parity_tol (failed_disks E s)" "kmem_inv (kernel_end E) (kmem s) (pg # pg' # pgs)"
  shows "\<exists>s'. setraidtype E 4 s = Ok (0, s') \<and> parity_inv E RAID5 s' \<and> failed_disks E s' = failed_disks E s"
proof -
  have "base_ok E ((with_level RAID5 (RAID5Data init_parity) s)\<lparr>disks := meta_disks E (pid s) m (disks s), tbuf := T\<rparr>)"
    for m T
    using assms(1) base_okD(1,6) [OF assms(1)] by (intro base_ok_disks base_ok_with_level is_block_meta_disks)
  moreover obtain T where "setraidtype E 4 s = Ok (0, (with_level RAID5 (RAID5Data init_parity) s)\<lparr>disks :=
     meta_disks E (pid s) (raidmeta (with_level RAID5 (RAID5Data init_parity) s)) (disks s), tbuf := T\<rparr>)"
    using setraidtype_Ok [OF assms(1), of 4 RAID5] invalid_count_le_1 [OF assms(2)]
    by (auto simp: raid_type_of_def level_data_def)
  ultimately show ?thesis
    using assms(3) by (auto simp: parity_inv_def rows_zero_def get_parity_def)
qed

end
