(* ===== verification/Raid_Boot.thy ===== *)
theory Raid_Boot
  imports Raid_Top
begin

text \<open>
  Booting: what \<open>loadraid\<close> finds on disk 1 after the operations that write the metadata. Memory is lost
  at a reboot, so \<open>loadraid\<close> starts from an arbitrary \<open>raidmeta\<close>; the disks keep their contents.
\<close>

section \<open>Metadata that survives\<close>

text \<open>The bytes of this \<open>struct RAIDMeta\<close> are read back as the same structure, and they are not all zero
  (the structure contains the disk numbers, which are positive).\<close>

definition persists :: "platform \<Rightarrow> RAIDMeta \<Rightarrow> bool" where
  "persists E m \<longleftrightarrow> meta_of_bytes E (meta_block E m) = m \<and> list_ex (\<lambda>x. x \<noteq> 0) (meta_block E m)"

text \<open>\<open>loadraid\<close> with metadata \<open>m\<close> on disk 1.\<close>

lemma loadraid_persisted:
  assumes "platform_ok E" "disks s 1 diskblockn = meta_block E m" "persists E m" "\<not> isDestroyed m"
  shows "\<exists>T. loadraid E s = Ok (s\<lparr>tbuf := T, raidmeta := unlock_all E m\<rparr>)"
proof -
  have "device_ok E 1 diskblockn" using assms(1) by (intro device_okI) (auto simp: platform_ok_def)
  then show ?thesis
    using assms(2-4) by (auto simp: loadraid_def read_block_Ok persists_def Let_def unlock_all_def cong: if_cong)
qed

lemma loadraid_destroyed:
  assumes "platform_ok E" "disks s 1 diskblockn = meta_block E m" "persists E m" "isDestroyed m"
  shows "loadraid E s = Panic destroyed_msg"
proof -
  have "device_ok E 1 diskblockn" using assms(1) by (intro device_okI) (auto simp: platform_ok_def)
  then show ?thesis
    using assms(2-4) by (auto simp: loadraid_def read_block_Ok persists_def Let_def)
qed

text \<open>Disk 1 receives the metadata exactly when entry 1 of \<open>diskinfo\<close>, which describes disk 2, is valid.\<close>

lemma meta_disks_disk1:
  "1 \<le> DISKS E \<Longrightarrow> meta_disks E p m ds 1 diskblockn =
     (if valid (diskinfo m 1) then meta_block E (lock_all E p m) else ds 1 diskblockn)"
  by (simp add: meta_disks_def)

text \<open>C30. Metadata survives a reboot while disk 2 is valid: after \<open>writeraidmeta\<close>, \<open>loadraid\<close> (from any memory
  contents) restores exactly the metadata that was written, with all locks free, and leaves the disks
  as they are.\<close>

theorem writeraidmeta_reboot:
  assumes "base_ok E s" "valid (diskinfo (raidmeta s) 1)" "\<not> isDestroyed (raidmeta s)"
    and "persists E (lock_all E (pid s) (raidmeta s))"
  shows "\<exists>s1 s2. writeraidmeta E s = Ok s1 \<and> loadraid E (s1\<lparr>raidmeta := m0\<rparr>) = Ok s2 \<and>
    raidmeta s2 = raidmeta s \<and> disks s2 = disks s1"
proof -
  note bk = base_okD [OF assms(1)]
  obtain T where T: "writeraidmeta E s =
      Ok (s\<lparr>disks := meta_disks E (pid s) (raidmeta s) (disks s), tbuf := T\<rparr>)" (is "_ = Ok ?s1")
    using writeraidmeta_Ok [OF assms(1)] by blast
  have "disks (?s1\<lparr>raidmeta := m0\<rparr>) 1 diskblockn = meta_block E (lock_all E (pid s) (raidmeta s))"
    using meta_disks_disk1 [OF bk(7)] assms(2) by simp
  from loadraid_persisted [OF bk(1) this assms(4)] assms(3) obtain U where
    U: "loadraid E (?s1\<lparr>raidmeta := m0\<rparr>) = Ok (?s1\<lparr>tbuf := U, raidmeta := unlock_all E (lock_all E (pid s) (raidmeta s))\<rparr>)"
    by auto
  moreover have "unlock_all E (lock_all E (pid s) (raidmeta s)) = raidmeta s"
    using bk(3) by (intro unlock_lock_all) auto
  ultimately show ?thesis using T by auto
qed

section \<open>First boot\<close>

text \<open>A disk full of zeros; \<open>fresh_meta\<close> is a structure whose bytes are all zero.\<close>

definition fresh_meta :: "platform \<Rightarrow> RAIDMeta \<Rightarrow> bool" where
  "fresh_meta E m \<longleftrightarrow> rtype m = RAID0 \<and> \<not> isDestroyed m \<and> dlock (diskinfo m (DISKS E)) = initsleeplock"

text \<open>First boot: when the metadata block of disk 1 is zero, \<open>loadraid\<close> succeeds and leaves a RAID 0 array with all
  disks valid, all locks free and the read and write functions of RAID 0.\<close>

theorem loadraid_fresh:
  assumes "platform_ok E" "cpu_idle (hart s)" "\<And>d b. is_block (disks s d b)"
    and "disks s 1 diskblockn = zero_block" "fresh_meta E (meta_of_bytes E zero_block)"
  shows "\<exists>s'. loadraid E s = Ok s' \<and> raid0_inv E s' \<and> failed_disks E s' = {}"
proof -
  let ?m = "meta_of_bytes E zero_block"
  let ?n = "?m\<lparr>diskinfo := (\<lambda>i. if i < DISKS E
       then (diskinfo ?m i)\<lparr>dlock := initsleeplock, diskn := i + 1, valid := True\<rparr>
       else if i = DISKS E then (diskinfo ?m i)\<lparr>valid := False\<rparr> else diskinfo ?m i),
     mread := Some (rtype ?m), mwrite := Some (rtype ?m)\<rparr>"
  have "device_ok E 1 diskblockn" using assms(1) by (intro device_okI) (auto simp: platform_ok_def)
  moreover have "\<not> list_ex (\<lambda>x. x \<noteq> 0) zero_block" by (auto simp: list_ex_iff zero_block_def)
  moreover define T where "T = (tbuf s)(1 := \<lparr>blockno = diskblockn, bdata = zero_block\<rparr>)"
  ultimately have l: "loadraid E s = writeraidmeta E (s\<lparr>tbuf := T, raidmeta := ?n\<rparr>)"
    using assms(4,5)
    by (simp add: loadraid_def read_block_Ok fresh_meta_def Let_def cong: if_cong)
  have b: "base_ok E (s\<lparr>tbuf := T, raidmeta := ?n\<rparr>)"
    using assms by (auto simp: base_ok_def fresh_meta_def)
  obtain U where U: "loadraid E s = Ok (s\<lparr>tbuf := T, raidmeta := ?n, disks := meta_disks E (pid s) ?n (disks s), tbuf := U\<rparr>)"
      (is "_ = Ok ?u")
    using writeraidmeta_Ok [OF b] l by auto
  have "base_ok E ?u"
    using b assms(1,3) base_ok_disks [OF b, of "meta_disks E (pid s) ?n (disks s)" U] is_block_meta_disks by simp
  moreover have "meta_ok RAID0 (raidmeta ?u)" using assms(5) by (simp add: meta_ok_def fresh_meta_def)
  moreover have "failed_disks E ?u = {}" by (auto simp: failed_disks_def)
  ultimately show ?thesis using U by (auto simp: raid0_inv_def)
qed

section \<open>Failures of disk 2\<close>

text \<open>C31. The failure of disk 2 is lost at a reboot: \<open>raidfail(2)\<close> returns 0 and marks disk 2 invalid in memory, but
  disk 1 keeps the metadata it had, and the next \<open>loadraid\<close> finds disk 2 valid again.\<close>

theorem raidfail_2_lost:
  assumes "base_ok E s" "2 \<le> DISKS E" "\<not> isDestroyed (raidmeta s)" "valid (diskinfo (raidmeta s) 1)"
    and "disks s 1 diskblockn = meta_block E m" "persists E m" "\<not> isDestroyed m" "valid (diskinfo m 1)"
  shows "\<exists>s1 s2. raidfail E 2 s = Ok (0, s1) \<and> \<not> valid (diskinfo (raidmeta s1) 1) \<and>
    loadraid E (s1\<lparr>raidmeta := m0\<rparr>) = Ok s2 \<and> valid (diskinfo (raidmeta s2) 1)"
proof -
  note bk = base_okD [OF assms(1)]
  let ?ds = "meta_disks E (pid s) (raidmeta (set_valid 1 False s)) (disks s)"
  obtain T where T: "raidfail E 2 s = Ok (0, (set_valid 1 False s)\<lparr>disks := ?ds, tbuf := T\<rparr>)" (is "_ = Ok (0, ?s1)")
    using raidfail_Ok [OF assms(1,3), of 1] assms(2) by auto
  have "disks (?s1\<lparr>raidmeta := m0\<rparr>) 1 diskblockn = meta_block E m"
    using meta_disks_disk1 [OF bk(7)] assms(5) by simp
  from loadraid_persisted [OF bk(1) this assms(6,7)] T assms(8) show ?thesis
    by (auto simp: unlock_all_def)
qed

section \<open>Reboot after a write to a parity level\<close>

text \<open>The metadata that \<open>loadcluster\<close> writes, with the cluster lock held and the write counted.\<close>

definition saved_meta :: "platform \<Rightarrow> nat \<Rightarrow> ParityData \<Rightarrow> kstate \<Rightarrow> RAIDMeta" where
  "saved_meta E c p s = lock_all E (pid s) (raidmeta (set_parity (p\<lparr>writecount := 1,
     clusterlock := held_sleep (pid s), cluster_loaded := (cluster_loaded p)(c := True)\<rparr>) s))"

context parity_layout
begin

lemma write_blocked:
  assumes "base_ok E s" "rtype (raidmeta s) = t" "get_parity (raidmeta s) = Ok p" "slocked (clusterlock p)"
    "lk (clusterlock p) = initlock" "repairlock p = initlock" "repairing p = 0"
    and "kmem_inv (kernel_end E) (kmem s) (pg # pgs)"
    and "v < cap" "valid (diskinfo (raidmeta s) (dsk v))"
  shows "wr (int v) x s = Blocked"
proof -
  note bk = base_okD [OF assms(1)]
  have "begin_write (s\<lparr>kmem := kmem_taken (kmem s)\<rparr>) =
      Ok (set_parity (p\<lparr>writecount := writecount p + 1\<rparr>) (s\<lparr>kmem := kmem_taken (kmem s)\<rparr>))"
    using assms(3,6,7) bk(2) by (simp add: begin_write_def)
  moreover have "acquire_cluster (set_parity (p\<lparr>writecount := writecount p + 1\<rparr>) (s\<lparr>kmem := kmem_taken (kmem s)\<rparr>))
      = Blocked"
    using assms(3,4,5) by (simp add: acquire_cluster_def acquiresleep_def)
  ultimately show ?thesis
    using assms(10) alloc_page_Ok [OF assms(8) bk(2)]
    by (simp add: wr_row [OF assms(2,9)] parity_write_def)
qed

lemma reboot_blocks:
  assumes "inv s" "parity_tol (failed_disks E s)" "v < cap" "is_block x" "w < cap"
    and gp: "get_parity (raidmeta s) = Ok p" and c: "\<not> cluster_loaded p (bk v div CLUSTER_SIZE)"
    and valid: "valid (diskinfo (raidmeta s) 1)" "valid (diskinfo (raidmeta s) (dsk w))"
    and pers: "persists E (saved_meta E (bk v div CLUSTER_SIZE) p s)"
  shows "\<exists>s1 s2. wr (int v) x s = Ok (0, s1) \<and> loadraid E (s1\<lparr>raidmeta := m0\<rparr>) = Ok s2 \<and>
    wr (int w) y s2 = Blocked"
proof -
  obtain p' pg pg' pgs where p: "base_ok E s" "rtype (raidmeta s) = t" "\<not> isDestroyed (raidmeta s)"
    "get_parity (raidmeta s) = Ok p'" "parity_idle p'" 
    "kmem_inv (kernel_end E) (kmem s) (pg # pg' # pgs)" using inv_elim [OF assms(1)] .
  with gp have idle: "parity_idle p" by simp
  note bk' = base_okD [OF p(1)]
  let ?c = "bk v div CLUSTER_SIZE" and ?M = "saved_meta E (bk v div CLUSTER_SIZE) p s"
  have l: "dsk v < DISKS E" "dsk v \<noteq> par (bk v)" "bk v \<le> diskblockn" "bk v \<noteq> diskblockn"
    using loc [OF assms(3)] by auto
  have one: "valid (diskinfo (raidmeta s) (dsk v)) \<or> (\<forall>i < DISKS E. i \<noteq> dsk v \<longrightarrow> valid (diskinfo (raidmeta s) i))"
    using tol_others [OF assms(2) l(1)] by blast
  obtain T where T: "wr (int v) x s = Ok (0, (set_parity (p\<lparr>cluster_loaded := (cluster_loaded p)(?c := True)\<rparr>) s)\<lparr>
       disks := stripe_disks E (raidmeta s) (dsk v) (par (bk v)) (bk v) x (ready_disks ?c p s), tbuf := T\<rparr>)"
      (is "_ = Ok (0, ?s1)")
    using parity_write_Ok [OF p(1,2) gp idle p(6) l(1-3) assms(4) one] wr_row [OF p(2) assms(3)] by auto
  have "row (disks ?s1) diskblockn = row (ready_disks ?c p s) diskblockn"
    using l(4) by (simp add: row_stripe_other)
  then have "disks ?s1 1 diskblockn = ready_disks ?c p s 1 diskblockn"
    by (metis One_nat_def row_def)
  also have "\<dots> = meta_block E ?M"
    using c valid(1) meta_disks_disk1 [OF bk'(7)] by (simp add: ready_disks_def saved_meta_def)
  finally have "disks (?s1\<lparr>raidmeta := m0\<rparr>) 1 diskblockn = meta_block E ?M" by simp
  from loadraid_persisted [OF bk'(1) this pers] p(3) obtain U where
    U: "loadraid E (?s1\<lparr>raidmeta := m0\<rparr>) = Ok (?s1\<lparr>tbuf := U, raidmeta := unlock_all E ?M\<rparr>)" (is "_ = Ok ?s2")
    by (auto simp: saved_meta_def)
  let ?p = "p\<lparr>writecount := 1, clusterlock := held_sleep (pid s), cluster_loaded := (cluster_loaded p)(?c := True)\<rparr>"
  have M: "unlock_all E ?M = raidmeta (set_parity ?p s)"
    unfolding saved_meta_def using bk'(3) by (intro unlock_lock_all) auto
  have "base_ok E ?s2"
  proof -
    have "base_ok E ((set_parity ?p s)\<lparr>disks := disks ?s1, tbuf := U\<rparr>)"
      using assms(4) by (auto intro!: base_ok_disks base_ok_set_parity p(1) is_block_stripe_disks is_block_ready)
    then show ?thesis by (simp add: base_ok_def M)
  qed
  moreover have "get_parity (raidmeta ?s2) = Ok ?p" using gp by (simp add: M)
  ultimately have "wr (int w) y ?s2 = Blocked"
    using idle p(2,6) valid(2) assms(5)
    by (intro write_blocked [of _ ?p]) (auto simp: M parity_idle_def held_sleep_def)
  with T U show ?thesis by blast
qed

text \<open>A write with no free page: the pages the functions allocate are used without a test.\<close>

lemma write_no_memory:
  assumes "base_ok E s" "rtype (raidmeta s) = t" "get_parity (raidmeta s) = Ok p" "parity_idle p"
    and "kmem_inv (kernel_end E) (kmem s) []" "v < cap" "cluster_loaded p (bk v div CLUSTER_SIZE)"
    and "valid (diskinfo (raidmeta s) (dsk v))" "valid (diskinfo (raidmeta s) (par (bk v)))"
  shows "wr (int v) x s = Fault"
proof -
  note bk' = base_okD [OF assms(1)]
  have l: "dsk v < DISKS E" "par (bk v) < DISKS E" "dsk v \<noteq> par (bk v)"
    using loc [OF assms(6)] par_lt [OF bk'(7)] by auto
  have p: "clusterlock p = initsleeplock" using assms(4) by (simp add: parity_idle_def)
  have alloc: "alloc_page s = Ok (0, s)" using kalloc_Nil [OF assms(5) bk'(2)] by (simp add: alloc_page_def)
  let ?p1 = "p\<lparr>writecount := 1\<rparr>" and ?p2 = "p\<lparr>writecount := 1, clusterlock := held_sleep (pid s)\<rparr>"
  have beg: "begin_write s = Ok (set_parity ?p1 s)"
    by (rule begin_write_Ok [OF assms(3,4) bk'(2)])
  have acq: "acquire_cluster (set_parity ?p1 s) = Ok (set_parity ?p2 s)"
    using assms(3) p bk'(2) by simp
  have gp: "get_parity (raidmeta (set_parity ?p2 s)) = Ok ?p2" using assms(3) by simp
  have rel: "release_cluster (set_parity ?p2 s) = Ok (set_parity ?p1 s)"
    using assms(3) p bk'(2) release_cluster_Ok [OF gp, of "pid s"] by simp
  have both: "write_both E pn 0 i j n b x (set_parity ?p1 s) = Fault" if "i < DISKS E" "j < DISKS E" "i \<noteq> j" for i j n b
    using that bk' by (simp add: write_both_def acquire_disk_Ok touch_page_def)
  show ?thesis
    using assms(7-9) alloc beg acq gp rel both l
    by (simp add: wr_row [OF assms(2,6)] parity_write_def)
qed

end

end
