(* ===== verification/Raid_Example.thy ===== *)
theory Raid_Example
  imports Raid_Boot
begin

text \<open>
  A concrete machine: \<open>n\<close> disks of zeros, all valid, one idle hart, two free pages. The theorems of the
  development are applied to it at the end of each theory that states one.
\<close>

definition demo_meta :: "nat \<Rightarrow> RAIDMeta" where
  "demo_meta n = \<lparr>rtype = RAID0, diskinfo = (\<lambda>i. \<lparr>valid = (i < n), diskn = Suc i, dlock = initsleeplock\<rparr>),
     isDestroyed = False, rdata = RAID0Data, mread = Some RAID0, mwrite = Some RAID0\<rparr>"

text \<open>A layout in which every structure has the one byte 1, and that byte is read back as \<open>m\<close>.\<close>

definition demo_platform :: "nat \<Rightarrow> RAIDMeta \<Rightarrow> platform" where
  "demo_platform n m = \<lparr>DISKS = n, meta_bytes = (\<lambda>_. [1]), meta_of_bytes = (\<lambda>_. m), kernel_end = 0x80021000\<rparr>"

abbreviation demo_E :: "nat \<Rightarrow> platform" where
  "demo_E n \<equiv> demo_platform n (demo_meta n)"

definition demo_kmem :: kmem where
  "demo_kmem = \<lparr>klock = initlock, freelist = 0x80030000, nextp = (\<lambda>_. 0)(0x80030000 := 0x80031000)\<rparr>"

definition demo_state :: "nat \<Rightarrow> kstate" where
  "demo_state n = \<lparr>hart = \<lparr>cid = 0, noff = 0, intena = True, intr = True\<rparr>, pid = 3, kmem = demo_kmem,
     raidmeta = demo_meta n, disks = (\<lambda>_ _. zero_block), tbuf = (\<lambda>_. \<lparr>blockno = 0, bdata = []\<rparr>)\<rparr>"

text \<open>The block of bytes \<open>c\<close>.\<close>

definition fill :: "byte \<Rightarrow> block" where
  "fill c = replicate BSIZE c"

lemma is_block_fill [simp]: "is_block (fill c)"
  by (simp add: fill_def is_block_def)

lemma demo_platform_simps [simp]:
  "DISKS (demo_platform n m) = n" "kernel_end (demo_platform n m) = 0x80021000"
  "meta_of_bytes (demo_platform n m) x = m"
  by (simp_all add: demo_platform_def)

lemma demo_platform_ok: "1 \<le> n \<Longrightarrow> n \<le> 8 \<Longrightarrow> platform_ok (demo_platform n m)"
  by (simp add: platform_ok_def demo_platform_def BSIZE_def)

lemma demo_base_ok [simp]: "1 \<le> n \<Longrightarrow> n \<le> 8 \<Longrightarrow> base_ok (demo_platform n m) (demo_state n)"
  by (simp add: base_ok_def demo_platform_ok demo_state_def demo_meta_def cpu_idle_def)

lemma demo_failed [simp]: "failed_disks (demo_platform n m) (demo_state n) = {}"
  by (auto simp: failed_disks_def demo_state_def demo_meta_def)

lemma demo_start [simp]:
  "start (demo_platform n m) (demo_state n) = \<lparr>failed = {}, content = Map.empty\<rparr>"
  by (simp add: start_def)

lemma demo_kmem_inv: "kmem_inv 0x80021000 demo_kmem [0x80030000, 0x80031000]"
  by (simp add: kmem_inv_def demo_kmem_def page_ok_def PGSIZE_def PHYSTOP_def)

lemma demo_persists [simp]: "persists (demo_platform n m) m"
  by (simp add: persists_def demo_platform_def meta_block_def)

lemma demo_state_simps [simp]:
  "kmem (demo_state n) = demo_kmem" "raidmeta (demo_state n) = demo_meta n" "pid (demo_state n) = 3"
  "disks (demo_state n) d b = zero_block" "cpu_idle (hart (demo_state n))"
  by (simp_all add: demo_state_def cpu_idle_def)

lemma demo_meta_simps [simp]:
  "rtype (demo_meta n) = RAID0" "\<not> isDestroyed (demo_meta n)" "valid (diskinfo (demo_meta n) i) = (i < n)"
  "diskn (diskinfo (demo_meta n) i) = Suc i" "dlock (diskinfo (demo_meta n) i) = initsleeplock"
  by (simp_all add: demo_meta_def)

lemma demo_meta_ok: "meta_ok RAID0 (demo_meta n)"
  by (simp add: meta_ok_def demo_meta_def)

lemma raid_type_of_simps [simp]:
  "raid_type_of 0 = Some RAID0" "raid_type_of 1 = Some RAID1" "raid_type_of 2 = Some RAID0_1"
  "raid_type_of 3 = Some RAID4" "raid_type_of 4 = Some RAID5"
  by (simp_all add: raid_type_of_def)

lemma all_less_2: "(\<forall>k < (2 :: nat). P k) \<longleftrightarrow> P 0 \<and> P 1"
  using less_2_cases by auto

text \<open>The machine after \<open>setraidtype\<close>.\<close>

lemma demo_raid1: "1 \<le> n \<Longrightarrow> n \<le> 8 \<Longrightarrow> \<exists>s. setraidtype (demo_platform n m) 1 (demo_state n) = Ok (0, s) \<and>
    raid1_inv (demo_platform n m) s \<and> failed_disks (demo_platform n m) s = {}"
  using raid1_start [of "demo_platform n m" "demo_state n"] by auto

lemma demo_parity:
  assumes "1 \<le> n" "n \<le> 8"
  shows "\<exists>s. setraidtype (demo_platform n m) 3 (demo_state n) = Ok (0, s) \<and>
      parity_inv (demo_platform n m) RAID4 s \<and> failed_disks (demo_platform n m) s = {}"
    and "\<exists>s. setraidtype (demo_platform n m) 4 (demo_state n) = Ok (0, s) \<and>
      parity_inv (demo_platform n m) RAID5 s \<and> failed_disks (demo_platform n m) s = {}"
proof -
  have "kmem_inv (kernel_end (demo_platform n m)) (kmem (demo_state n)) [0x80030000, 0x80031000]"
      "parity_tol (failed_disks (demo_platform n m) (demo_state n))"
    using demo_kmem_inv by (simp_all add: parity_tol_def)
  then show "\<exists>s. setraidtype (demo_platform n m) 3 (demo_state n) = Ok (0, s) \<and>
      parity_inv (demo_platform n m) RAID4 s \<and> failed_disks (demo_platform n m) s = {}"
    "\<exists>s. setraidtype (demo_platform n m) 4 (demo_state n) = Ok (0, s) \<and>
      parity_inv (demo_platform n m) RAID5 s \<and> failed_disks (demo_platform n m) s = {}"
    using raid4_start [of "demo_platform n m" "demo_state n"] raid5_start [of "demo_platform n m" "demo_state n"] assms
    by auto
qed

end
