(* ===== verification/Raid_Layout.thy ===== *)
theory Raid_Layout
  imports Raid_Meta
begin

text \<open>
  The size of \<open>struct RAIDMeta\<close> (kernel/raid.h) in memory. A C type is its size and alignment; structures are
  laid out as the RISC-V ABI prescribes (LP64: pointers have 8 bytes, \<open>int\<close> and enumerations 4).
\<close>

section \<open>Layout of C types\<close>

type_synonym ctype = "nat \<times> nat"

definition align_up :: "nat \<Rightarrow> nat \<Rightarrow> nat" where
  "align_up n a = (n + a - 1) div a * a"

fun fields_end :: "nat \<Rightarrow> ctype list \<Rightarrow> nat" where
  "fields_end off [] = off"
| "fields_end off (t # ts) = fields_end (align_up off (snd t) + fst t) ts"

definition max_align :: "ctype list \<Rightarrow> nat" where
  "max_align ts = foldr (\<lambda>t. max (snd t)) ts 1"

definition struct_t :: "ctype list \<Rightarrow> ctype" where
  "struct_t ts = (align_up (fields_end 0 ts) (max_align ts), max_align ts)"

definition union_t :: "ctype list \<Rightarrow> ctype" where
  "union_t ts = (align_up (foldr (\<lambda>t. max (fst t)) ts 0) (max_align ts), max_align ts)"

definition array_t :: "nat \<Rightarrow> ctype \<Rightarrow> ctype" where
  "array_t n t = (n * fst t, snd t)"

abbreviation u8_t :: ctype where "u8_t \<equiv> (1, 1)"
abbreviation int_t :: ctype where "int_t \<equiv> (4, 4)"
abbreviation ptr_t :: ctype where "ptr_t \<equiv> (8, 8)"

lemmas ctype_defs = struct_t_def union_t_def array_t_def align_up_def max_align_def

section \<open>The structures\<close>

definition spinlock_t :: ctype where
  "spinlock_t = struct_t [int_t, ptr_t, ptr_t]"

definition sleeplock_t :: ctype where
  "sleeplock_t = struct_t [int_t, spinlock_t, ptr_t, int_t]"

definition DiskInfo_t :: ctype where
  "DiskInfo_t = struct_t [u8_t, u8_t, sleeplock_t]"

definition DiskPair_t :: ctype where
  "DiskPair_t = struct_t [spinlock_t, array_t 2 ptr_t, u8_t, array_t 2 u8_t]"

definition RAID4Data_t :: ctype where
  "RAID4Data_t = struct_t [array_t NCLUSTERS u8_t, sleeplock_t, spinlock_t, int_t, int_t]"

definition RAIDMeta_t :: "nat \<Rightarrow> ctype" where
  "RAIDMeta_t n = struct_t [int_t, array_t (n + 1) DiskInfo_t, int_t,
     union_t [struct_t [], struct_t [array_t ((n + 1) div 2) DiskPair_t], struct_t [array_t (n div 2) DiskPair_t],
              RAID4Data_t, RAID4Data_t],
     ptr_t, ptr_t]"

lemma spinlock_t_val: "spinlock_t = (24, 8)"
  by (simp add: spinlock_t_def ctype_defs)

lemma sleeplock_t_val: "sleeplock_t = (48, 8)"
  by (simp add: sleeplock_t_def spinlock_t_val ctype_defs)

lemma DiskInfo_t_val: "DiskInfo_t = (56, 8)"
  by (simp add: DiskInfo_t_def sleeplock_t_val ctype_defs)

lemma DiskPair_t_val: "DiskPair_t = (48, 8)"
  by (simp add: DiskPair_t_def spinlock_t_val ctype_defs)

lemma RAID4Data_t_val: "RAID4Data_t = (144, 8)"
  by (simp add: RAID4Data_t_def spinlock_t_val sleeplock_t_val NCLUSTERS_val ctype_defs)

lemmas raid_t_vals = DiskInfo_t_val DiskPair_t_val RAID4Data_t_val

lemma RAIDMeta_t_vals:
  "fst (RAIDMeta_t 1) = 288" "fst (RAIDMeta_t 2) = 344" "fst (RAIDMeta_t 3) = 400" "fst (RAIDMeta_t 4) = 456"
  "fst (RAIDMeta_t 5) = 512" "fst (RAIDMeta_t 6) = 568" "fst (RAIDMeta_t 7) = 672" "fst (RAIDMeta_t 8) = 728"
  by (simp_all add: RAIDMeta_t_def raid_t_vals ctype_defs)

text \<open>The metadata fits into one disk block for every number of disks the build allows (1 to 8), so
  \<open>memmove(data, &raidmeta, sizeof(raidmeta))\<close> stays inside \<open>data[BSIZE]\<close>.\<close>

theorem raidmeta_fits:
  assumes "1 \<le> DISKS E" "DISKS E \<le> 8" "\<And>m. length (meta_bytes E m) = fst (RAIDMeta_t (DISKS E))"
  shows "fst (RAIDMeta_t (DISKS E)) \<le> BSIZE \<and> platform_ok E"
proof -
  have "DISKS E \<in> {1, 2, 3, 4, 5, 6, 7, 8}" using assms(1,2) by auto
  then have "fst (RAIDMeta_t (DISKS E)) \<le> 1024" by (elim insertE) (auto simp: RAIDMeta_t_vals RAIDMeta_t_vals(1) [unfolded One_nat_def])
  with assms show ?thesis by (simp add: platform_ok_def BSIZE_def)
qed

theorem raidmeta_fits_witness:
  "platform_ok \<lparr>DISKS = 6, meta_bytes = (\<lambda>_. replicate 568 0), meta_of_bytes = (\<lambda>_. undefined), kernel_end = 0\<rparr>"
  using raidmeta_fits [of "\<lparr>DISKS = 6, meta_bytes = (\<lambda>_. replicate 568 0), meta_of_bytes = (\<lambda>_. undefined), kernel_end = 0\<rparr>"]
  by (simp add: RAIDMeta_t_vals)

end
