(* ===== verification/Pair_Protocol.thy ===== *)
theory Pair_Protocol
  imports Main
begin

text \<open>
  Several kernel threads on one mirrored pair (\<open>readdiskpair\<close>, \<open>writediskpair\<close> and the cases RAID1 and
  RAID0_1 of \<open>raidrepair\<close> in kernel/raid.c), with disk failures at any time. What a thread does between
  \<open>acquire(&diskpair->mutex)\<close> and the \<open>release\<close> or \<open>sleep\<close> that follows is one step; disk transfers,
  the assignment to \<open>valid\<close> after a repair and \<open>wakeup\<close>, which run without the mutex, are steps of
  their own. The data of a disk is a number that stands for the contents of all its blocks.
\<close>

section \<open>States and steps\<close>

text \<open>
  Program points of a thread: \<open>Enter\<close> points hold the mutex at the top of the loop, \<open>Sleep\<close> points
  sleep on the channel \<open>&diskpair->mutex\<close>, and \<open>Wakeup\<close> is the call of \<open>wakeup\<close> at the end.
  \<open>PCheck\<close> is the entry of \<open>raidrepair\<close>, before it tests \<open>pair->valid\<close>.
\<close>

datatype pc =
    Idle
  | REnter | RSleep | RRead nat
  | WEnter nat | WSleep nat | WWrite nat nat
  | PCheck nat | PEnter nat | PSleep nat | PCopy nat | PValid nat | PDone nat
  | Wakeup

record pairsys =
  pvalid :: "nat \<Rightarrow> bool"
  pwriting :: bool
  preading :: "nat \<Rightarrow> bool"
  pdata :: "nat \<Rightarrow> nat"
  pcs :: "nat \<Rightarrow> pc"

definition goto :: "nat \<Rightarrow> pc \<Rightarrow> pairsys \<Rightarrow> pairsys" where
  "goto t p s = s\<lparr>pcs := (pcs s)(t := p)\<rparr>"

text \<open>\<open>for (i = 0; i < 2; i++) if (!reading[i] && disk[i]->valid)\<close>\<close>

definition free_slot :: "pairsys \<Rightarrow> nat option" where
  "free_slot s = find (\<lambda>i. \<not> preading s i \<and> pvalid s i) [0, 1]"

fun woken :: "pc \<Rightarrow> pc" where
  "woken RSleep = REnter"
| "woken (WSleep x) = WEnter x"
| "woken (PSleep n) = PEnter n"
| "woken p = p"

definition all_lost :: "pairsys \<Rightarrow> bool" where
  "all_lost s \<longleftrightarrow> \<not> pvalid s 0 \<and> \<not> pvalid s 1"

definition busy :: "pairsys \<Rightarrow> bool" where
  "busy s \<longleftrightarrow> pwriting s \<or> preading s 0 \<or> preading s 1"

inductive pstep :: "pairsys \<Rightarrow> pairsys \<Rightarrow> bool" where
  call_read: "pcs s t = Idle \<Longrightarrow> pstep s (goto t REnter s)"
| call_write: "pcs s t = Idle \<Longrightarrow> pstep s (goto t (WEnter x) s)"
| call_repair: "pcs s t = Idle \<Longrightarrow> n < 2 \<Longrightarrow> \<not> pvalid s n \<Longrightarrow> pstep s (goto t (PCheck n) s)"
| disk_fail: "n < 2 \<Longrightarrow> pstep s (s\<lparr>pvalid := (pvalid s)(n := False)\<rparr>)"
| read_lost: "pcs s t = REnter \<Longrightarrow> all_lost s \<Longrightarrow> pstep s (goto t Idle s)"
| read_wait: "pcs s t = REnter \<Longrightarrow> \<not> all_lost s \<Longrightarrow> pwriting s \<or> free_slot s = None \<Longrightarrow> pstep s (goto t RSleep s)"
| read_take: "pcs s t = REnter \<Longrightarrow> \<not> all_lost s \<Longrightarrow> \<not> pwriting s \<Longrightarrow> free_slot s = Some i \<Longrightarrow>
    pstep s (goto t (RRead i) (s\<lparr>preading := (preading s)(i := True)\<rparr>))"
| read_done: "pcs s t = RRead i \<Longrightarrow> pstep s (goto t Wakeup (s\<lparr>preading := (preading s)(i := False)\<rparr>))"
| write_lost: "pcs s t = WEnter x \<Longrightarrow> all_lost s \<Longrightarrow> pstep s (goto t Idle s)"
| write_wait: "pcs s t = WEnter x \<Longrightarrow> \<not> all_lost s \<Longrightarrow> busy s \<Longrightarrow> pstep s (goto t (WSleep x) s)"
| write_take: "pcs s t = WEnter x \<Longrightarrow> \<not> all_lost s \<Longrightarrow> \<not> busy s \<Longrightarrow>
    pstep s (goto t (WWrite x 0) (s\<lparr>pwriting := True\<rparr>))"
| write_disk: "pcs s t = WWrite x i \<Longrightarrow> i < 2 \<Longrightarrow>
    pstep s (goto t (WWrite x (Suc i)) (if pvalid s i then s\<lparr>pdata := (pdata s)(i := x)\<rparr> else s))"
| write_done: "pcs s t = WWrite x 2 \<Longrightarrow> pstep s (goto t Wakeup (s\<lparr>pwriting := False\<rparr>))"
| repair_lost: "pcs s t = PCheck n \<Longrightarrow> \<not> pvalid s (1 - n) \<Longrightarrow> pstep s (goto t Idle s)"
| repair_enter: "pcs s t = PCheck n \<Longrightarrow> pvalid s (1 - n) \<Longrightarrow> pstep s (goto t (PEnter n) s)"
| repair_wait: "pcs s t = PEnter n \<Longrightarrow> busy s \<Longrightarrow> pstep s (goto t (PSleep n) s)"
| repair_take: "pcs s t = PEnter n \<Longrightarrow> \<not> busy s \<Longrightarrow> pstep s (goto t (PCopy n) (s\<lparr>pwriting := True\<rparr>))"
| repair_copy: "pcs s t = PCopy n \<Longrightarrow> pstep s (goto t (PValid n) (s\<lparr>pdata := (pdata s)(n := pdata s (1 - n))\<rparr>))"
| repair_valid: "pcs s t = PValid n \<Longrightarrow> pstep s (goto t (PDone n) (s\<lparr>pvalid := (pvalid s)(n := True)\<rparr>))"
| repair_done: "pcs s t = PDone n \<Longrightarrow> pstep s (goto t Wakeup (s\<lparr>pwriting := False\<rparr>))"
| wake: "pcs s t = Wakeup \<Longrightarrow> pstep s (s\<lparr>pcs := (\<lambda>u. if u = t then Idle else woken (pcs s u))\<rparr>)"

definition pstart :: "nat \<Rightarrow> pairsys" where
  "pstart x = \<lparr>pvalid = (\<lambda>_. True), pwriting = False, preading = (\<lambda>_. False), pdata = (\<lambda>_. x), pcs = (\<lambda>_. Idle)\<rparr>"

inductive preach :: "nat \<Rightarrow> pairsys \<Rightarrow> bool" where
  start: "preach x (pstart x)"
| step: "preach x s \<Longrightarrow> pstep s s' \<Longrightarrow> preach x s'"

section \<open>Invariants\<close>

fun is_writer :: "pc \<Rightarrow> bool" where
  "is_writer (WWrite x i) = True"
| "is_writer (PCopy n) = True"
| "is_writer (PValid n) = True"
| "is_writer (PDone n) = True"
| "is_writer p = False"

fun sleeps :: "pc \<Rightarrow> bool" where
  "sleeps RSleep = True"
| "sleeps (WSleep x) = True"
| "sleeps (PSleep n) = True"
| "sleeps p = False"

definition writers :: "pairsys \<Rightarrow> nat set" where
  "writers s = {t. is_writer (pcs s t)}"

definition readers :: "pairsys \<Rightarrow> nat \<Rightarrow> nat set" where
  "readers s i = {t. pcs s t = RRead i}"

text \<open>A flag is set exactly while one thread owns it.\<close>

definition owner :: "nat set \<Rightarrow> bool \<Rightarrow> bool" where
  "owner T b \<longleftrightarrow> (if b then \<exists>t. T = {t} else T = {})"

text \<open>The flags say what the threads do: \<open>writing\<close> that one thread writes or repairs, \<open>reading[i]\<close> that one
  thread reads disk \<open>i\<close>, and never both.\<close>

definition exclusive :: "pairsys \<Rightarrow> bool" where
  "exclusive s \<longleftrightarrow> owner (writers s) (pwriting s) \<and> (\<forall>i. owner (readers s i) (preading s i)) \<and>
     (\<forall>i. preading s i \<longrightarrow> i < 2 \<and> \<not> pwriting s)"

text \<open>A thread that sleeps will be woken: some flag is still set, or \<open>wakeup\<close> is about to be called.\<close>

definition no_lost_wakeup :: "pairsys \<Rightarrow> bool" where
  "no_lost_wakeup s \<longleftrightarrow> (\<exists>t. sleeps (pcs s t)) \<longrightarrow> busy s \<or> (\<exists>t. pcs s t = Wakeup)"

text \<open>Outside writes the valid disks agree. \<open>data_ok\<close> is what a thread knows about the data at its program
  point: a writer that its data is on the disks it has passed, a repair that the disks are equal.\<close>

fun data_ok :: "pairsys \<Rightarrow> pc \<Rightarrow> bool" where
  "data_ok s (WWrite x i) \<longleftrightarrow> i \<le> 2 \<and> (\<forall>j < i. pvalid s j \<longrightarrow> pdata s j = x)"
| "data_ok s (PCopy n) \<longleftrightarrow> n < 2"
| "data_ok s (PValid n) \<longleftrightarrow> n < 2 \<and> pdata s 0 = pdata s 1"
| "data_ok s (PDone n) \<longleftrightarrow> pdata s 0 = pdata s 1"
| "data_ok s (PCheck n) \<longleftrightarrow> n < 2"
| "data_ok s (PEnter n) \<longleftrightarrow> n < 2"
| "data_ok s (PSleep n) \<longleftrightarrow> n < 2"
| "data_ok s p \<longleftrightarrow> True"

definition agree :: "pairsys \<Rightarrow> bool" where
  "agree s \<longleftrightarrow> (\<not> pwriting s \<longrightarrow> pvalid s 0 \<longrightarrow> pvalid s 1 \<longrightarrow> pdata s 0 = pdata s 1) \<and> (\<forall>t. data_ok s (pcs s t))"

lemma free_slot_Some: "free_slot s = Some i \<Longrightarrow> i < 2 \<and> \<not> preading s i \<and> pvalid s i"
  by (auto simp: free_slot_def split: if_splits)

lemma free_slot_None: "free_slot s = None \<Longrightarrow> \<not> all_lost s \<Longrightarrow> preading s 0 \<or> preading s 1"
  by (auto simp: free_slot_def all_lost_def split: if_splits)

lemma woken_simps [simp]:
  "is_writer (woken p) = is_writer p" "\<not> sleeps (woken p)"
  "woken p = RRead i \<longleftrightarrow> p = RRead i" "woken p = WWrite x i \<longleftrightarrow> p = WWrite x i"
  "woken p = PCopy n \<longleftrightarrow> p = PCopy n" "woken p = PValid n \<longleftrightarrow> p = PValid n"
  "woken p = PDone n \<longleftrightarrow> p = PDone n" "woken p = PCheck n \<longleftrightarrow> p = PCheck n"
  "woken p = PEnter n \<longleftrightarrow> p = PEnter n \<or> p = PSleep n" "woken p \<noteq> PSleep n"
  by (cases p; auto)+

lemma goto_simps [simp]:
  "pvalid (goto t p s) = pvalid s" "pwriting (goto t p s) = pwriting s" "preading (goto t p s) = preading s"
  "pdata (goto t p s) = pdata s" "pcs (goto t p s) = (pcs s)(t := p)"
  by (simp_all add: goto_def)

lemma writers_goto: "writers (goto t p s) = (if is_writer p then insert t (writers s) else writers s - {t})"
  by (auto simp: writers_def)

lemma readers_goto: "readers (goto t p s) i = (if p = RRead i then insert t (readers s i) else readers s i - {t})"
  by (auto simp: readers_def)

lemma in_writers [simp]: "t \<in> writers s \<longleftrightarrow> is_writer (pcs s t)"
  by (simp add: writers_def)

lemma in_readers [simp]: "t \<in> readers s i \<longleftrightarrow> pcs s t = RRead i"
  by (simp add: readers_def)

lemma owners_upd [simp]:
  "writers (s\<lparr>pvalid := v\<rparr>) = writers s" "readers (s\<lparr>pvalid := v\<rparr>) = readers s"
  "writers (s\<lparr>pwriting := w\<rparr>) = writers s" "readers (s\<lparr>pwriting := w\<rparr>) = readers s"
  "writers (s\<lparr>preading := r\<rparr>) = writers s" "readers (s\<lparr>preading := r\<rparr>) = readers s"
  "writers (s\<lparr>pdata := d\<rparr>) = writers s" "readers (s\<lparr>pdata := d\<rparr>) = readers s"
  by (auto simp: writers_def readers_def fun_eq_iff)

lemma owner_remove:
  "owner T b \<Longrightarrow> t \<notin> T \<Longrightarrow> owner (T - {t}) b" "owner T b \<Longrightarrow> t \<in> T \<Longrightarrow> owner (T - {t}) False"
  "owner T b \<Longrightarrow> t \<in> T \<Longrightarrow> b \<and> owner (insert t T) b" "owner T False \<Longrightarrow> owner (insert t T) True"
  by (auto simp: owner_def split: if_splits)

lemma owner_set [simp]: "owner T b \<Longrightarrow> t \<in> T \<Longrightarrow> b"
  by (auto simp: owner_def split: if_splits)

lemma not_busy: "exclusive s \<Longrightarrow> \<not> busy s \<Longrightarrow> \<not> pwriting s \<and> (\<forall>i. \<not> preading s i)"
  by (auto simp: exclusive_def busy_def dest: less_2_cases)

lemma owners_wake:
  assumes "pcs s t = Wakeup"
  shows "writers (s\<lparr>pcs := \<lambda>u. if u = t then Idle else woken (pcs s u)\<rparr>) = writers s"
    and "readers (s\<lparr>pcs := \<lambda>u. if u = t then Idle else woken (pcs s u)\<rparr>) = readers s"
  using assms by (auto simp: writers_def readers_def fun_eq_iff)

lemma exclusive_step: "pstep s s' \<Longrightarrow> exclusive s \<Longrightarrow> exclusive s'"
proof (induction rule: pstep.induct)
  case (read_take s t i)
  note fs = free_slot_Some [OF read_take(4)]
  then have "owner (readers s i) False" using read_take(5) unfolding exclusive_def by metis
  with read_take fs show ?case
    by (auto simp: exclusive_def writers_goto readers_goto owner_remove)
next
  case (read_done s t i)
  then have "owner (readers s i - {t}) False"
    using owner_remove(2) [of "readers s i" "preading s i" t] by (auto simp: exclusive_def)
  with read_done show ?case
    by (auto simp: exclusive_def writers_goto readers_goto owner_remove)
next
  case (write_take s t x)
  then have "\<not> pwriting s" "\<And>i. \<not> preading s i" using not_busy by blast+
  with write_take show ?case
    by (simp add: exclusive_def writers_goto readers_goto owner_remove)
next
  case (repair_take s t n)
  then have "\<not> pwriting s" "\<And>i. \<not> preading s i" using not_busy by blast+
  with repair_take show ?case
    by (simp add: exclusive_def writers_goto readers_goto owner_remove)
next
  case (wake s t)
  then show ?case by (simp add: exclusive_def owners_wake)
qed (auto simp: exclusive_def writers_goto readers_goto owner_remove)

lemma writer_unique:
  "exclusive s \<Longrightarrow> is_writer (pcs s t) \<Longrightarrow> is_writer (pcs s u) \<Longrightarrow> t = u"
  by (auto simp: exclusive_def owner_def set_eq_iff split: if_splits)

lemma writer_flag: "exclusive s \<Longrightarrow> is_writer (pcs s t) \<Longrightarrow> pwriting s"
  by (auto simp: exclusive_def owner_def split: if_splits)

lemma busy_upd [simp]:
  "busy (goto t p s) = busy s" "busy (s\<lparr>pvalid := v\<rparr>) = busy s" "busy (s\<lparr>pdata := d\<rparr>) = busy s"
  "busy (s\<lparr>pwriting := True\<rparr>)"
  by (simp_all add: busy_def)

lemma no_lost_wakeup_intros:
  "busy s \<Longrightarrow> no_lost_wakeup s" "pcs s t = Wakeup \<Longrightarrow> no_lost_wakeup s"
  by (auto simp: no_lost_wakeup_def)

lemma no_lost_wakeup_goto:
  assumes "no_lost_wakeup s" "\<not> sleeps p" "pcs s t \<noteq> Wakeup"
  shows "no_lost_wakeup (goto t p s)"
proof -
  have "sleeps (pcs s u)" if "sleeps (pcs (goto t p s) u)" for u
    using that assms(2) by (auto split: if_splits)
  moreover have "pcs (goto t p s) u = Wakeup" if "pcs s u = Wakeup" for u
    using that assms(3) by auto
  ultimately show ?thesis using assms(1) unfolding no_lost_wakeup_def busy_upd by blast
qed

lemma no_lost_wakeup_step: "pstep s s' \<Longrightarrow> exclusive s \<Longrightarrow> no_lost_wakeup s \<Longrightarrow> no_lost_wakeup s'"
proof (induction rule: pstep.induct)
  case (disk_fail n s)
  then show ?case by (simp add: no_lost_wakeup_def)
next
  case (read_wait s t)
  then show ?case using free_slot_None [of s] by (intro no_lost_wakeup_intros(1)) (auto simp: busy_def)
next
  case (read_take s t i)
  then show ?case
    using free_slot_Some [of s i] by (intro no_lost_wakeup_intros(1)) (auto simp: busy_def dest: less_2_cases)
next
  case (write_disk s t x i)
  then show ?case using writer_flag [of s t] by (intro no_lost_wakeup_intros(1)) (simp add: busy_def)
next
  case (repair_copy s t n)
  then show ?case using writer_flag [of s t] by (intro no_lost_wakeup_intros(1)) (simp add: busy_def)
next
  case (repair_valid s t n)
  then show ?case using writer_flag [of s t] by (intro no_lost_wakeup_intros(1)) (simp add: busy_def)
next
  case (wake s t)
  then show ?case by (simp add: no_lost_wakeup_def)
next
  case (read_done s t i)
  show ?case by (rule no_lost_wakeup_intros(2) [of _ t]) simp
next
  case (write_done s t x)
  show ?case by (rule no_lost_wakeup_intros(2) [of _ t]) simp
next
  case (repair_done s t n)
  show ?case by (rule no_lost_wakeup_intros(2) [of _ t]) simp
qed (auto intro: no_lost_wakeup_intros(1) no_lost_wakeup_goto)

lemma data_ok_other: "\<not> is_writer p \<Longrightarrow> data_ok s p \<Longrightarrow> data_ok s' p"
  by (cases p) auto

lemma data_ok_cong: "pvalid s' = pvalid s \<Longrightarrow> pdata s' = pdata s \<Longrightarrow> data_ok s' p = data_ok s p"
  by (cases p) auto

lemma data_ok_fail: "data_ok s p \<Longrightarrow> data_ok (s\<lparr>pvalid := (pvalid s)(n := False)\<rparr>) p"
  by (cases p) auto

lemma data_ok_woken [simp]: "data_ok s (woken p) = data_ok s p"
  by (cases p) auto

lemma agree_goto:
  assumes "agree s" "data_ok s p" "pvalid s' = pvalid s" "pdata s' = pdata s" "pcs s' = pcs s"
    and "pwriting s' \<or> pwriting s' = pwriting s"
  shows "agree (goto t p s')"
  using assms data_ok_cong [of "goto t p s'" s] by (auto simp: agree_def)

text \<open>A step of the writer changes what it alone relies on.\<close>

lemma agree_writer:
  assumes "exclusive s" "is_writer (pcs s t)" "agree s" "data_ok s' p" "pwriting s'" "pcs s' = (pcs s)(t := p)"
  shows "agree s'"
proof -
  have "data_ok s' (pcs s u)" if "u \<noteq> t" for u
    using that writer_unique [OF assms(1,2), of u] assms(3) data_ok_other [of "pcs s u" s s'] by (auto simp: agree_def)
  with assms(4-6) show ?thesis by (auto simp: agree_def)
qed

lemma agree_step: "pstep s s' \<Longrightarrow> exclusive s \<Longrightarrow> agree s \<Longrightarrow> agree s'"
proof (induction rule: pstep.induct)
  case (disk_fail n s)
  then show ?case using data_ok_fail [of s _ n] by (auto simp: agree_def)
next
  case (write_disk s t x i)
  then have "data_ok s (WWrite x i)" unfolding agree_def by metis
  then show ?case
    using write_disk writer_flag [of s t]
    by (intro agree_writer [OF write_disk(3) _ write_disk(4), of t _ "WWrite x (Suc i)"])
       (auto simp: less_Suc_eq)
next
  case (write_done s t x)
  then have "data_ok s (WWrite x 2)" unfolding agree_def by metis
  with write_done show ?case by (auto simp: agree_def data_ok_cong [of "goto t Wakeup (s\<lparr>pwriting := False\<rparr>)" s])
next
  case (repair_copy s t n)
  then have "data_ok s (PCopy n)" unfolding agree_def by metis
  then show ?case
    using repair_copy writer_flag [of s t] less_2_cases [of n]
    by (intro agree_writer [OF repair_copy(2) _ repair_copy(3), of t _ "PValid n"]) auto
next
  case (repair_valid s t n)
  then have "data_ok s (PValid n)" unfolding agree_def by metis
  then show ?case
    using repair_valid writer_flag [of s t]
    by (intro agree_writer [OF repair_valid(2) _ repair_valid(3), of t _ "PDone n"]) auto
next
  case (repair_done s t n)
  then have "data_ok s (PDone n)" unfolding agree_def by metis
  with repair_done show ?case by (auto simp: agree_def data_ok_cong [of "goto t Wakeup (s\<lparr>pwriting := False\<rparr>)" s])
next
  case (wake s t)
  then show ?case by (auto simp: agree_def data_ok_cong [of "s\<lparr>pcs := _\<rparr>" s])
next
  case (repair_lost s t n)
  then show ?case by (intro agree_goto [of s]) auto
next
  case (repair_enter s t n)
  then have "data_ok s (PCheck n)" unfolding agree_def by metis
  with repair_enter show ?case by (intro agree_goto [of s]) auto
next
  case (repair_wait s t n)
  then have "data_ok s (PEnter n)" unfolding agree_def by metis
  with repair_wait show ?case by (intro agree_goto [of s]) auto
next
  case (repair_take s t n)
  then have "data_ok s (PEnter n)" unfolding agree_def by metis
  with repair_take show ?case by (intro agree_goto [of s]) auto
qed (auto intro!: agree_goto)

lemma preach_inv: "preach x s \<Longrightarrow> exclusive s \<and> no_lost_wakeup s \<and> agree s"
proof (induction rule: preach.induct)
  case (start x)
  have "exclusive (pstart x)" by (auto simp: exclusive_def owner_def writers_def readers_def pstart_def)
  then show ?case by (simp add: no_lost_wakeup_def agree_def pstart_def)
next
  case (step x s s')
  then show ?case using exclusive_step no_lost_wakeup_step agree_step by blast
qed

section \<open>Properties\<close>

text \<open>C7. A thread that writes to a mirrored pair or repairs it is alone: no other thread writes or repairs, and
  none reads; and two readers never use the same disk of the pair.\<close>

theorem pair_exclusion:
  assumes "preach x s"
  shows "(is_writer (pcs s t) \<longrightarrow> u \<noteq> t \<longrightarrow> \<not> is_writer (pcs s u) \<and> pcs s u \<noteq> RRead i) \<and>
    (pcs s t = RRead i \<longrightarrow> pcs s u = RRead i \<longrightarrow> t = u)"
proof -
  have ex: "exclusive s" using preach_inv [OF assms] by simp
  have "\<not> pwriting s" if "pcs s v = RRead i" for v
    using ex that owner_set [of "readers s i" "preading s i" v] by (auto simp: exclusive_def)
  moreover have "owner (readers s i) (preading s i)" using ex by (simp add: exclusive_def)
  ultimately show ?thesis
    using writer_unique [OF ex] writer_flag [OF ex] by (auto simp: owner_def set_eq_iff split: if_splits)
qed



section \<open>Runs\<close>

text \<open>Three threads and two disks, written out.\<close>

definition st :: "bool \<Rightarrow> bool \<Rightarrow> bool \<Rightarrow> bool \<Rightarrow> nat \<Rightarrow> nat \<Rightarrow> pc \<Rightarrow> pc \<Rightarrow> pc \<Rightarrow> pairsys" where
  "st v0 v1 w r d0 d1 p1 p2 p3 =
     \<lparr>pvalid = (\<lambda>_. True)(0 := v0, 1 := v1), pwriting = w, preading = (\<lambda>_. False)(0 := r),
      pdata = (\<lambda>_. 0)(0 := d0, 1 := d1), pcs = (\<lambda>_. Idle)(1 := p1, 2 := p2, 3 := p3)\<rparr>"

lemma st_start: "preach 0 (st True True False False 0 0 Idle Idle Idle)"
proof -
  have "pstart 0 = st True True False False 0 0 Idle Idle Idle" by (simp add: pstart_def st_def fun_eq_iff)
  then show ?thesis using preach.start [of 0] by simp
qed

lemma preach_to: "preach x s \<Longrightarrow> pstep s s'' \<Longrightarrow> s'' = s' \<Longrightarrow> preach x s'"
  using preach.step by blast

lemmas st_simps = st_def goto_def fun_eq_iff all_lost_def busy_def free_slot_def

text \<open>Thread 1 writes 5 while thread 2 waits to read.\<close>

lemma st_write: "preach 0 (st True True True False 0 0 (WWrite 5 0) RSleep Idle)"
proof -
  note start = st_start
  have "preach 0 (st True True False False 0 0 (WEnter 5) Idle Idle)"
    by (rule preach_to [OF start pstep.call_write [of _ 1 5]]) (auto simp: st_simps)
  then have "preach 0 (st True True True False 0 0 (WWrite 5 0) Idle Idle)"
    by (rule preach_to [OF _ pstep.write_take [of _ 1 5]]) (auto simp: st_simps)
  then have "preach 0 (st True True True False 0 0 (WWrite 5 0) REnter Idle)"
    by (rule preach_to [OF _ pstep.call_read [of _ 2]]) (auto simp: st_simps)
  then show ?thesis
    by (rule preach_to [OF _ pstep.read_wait [of _ 2]]) (auto simp: st_simps)
qed

theorem pair_exclusion_witness:
  "pcs (st True True True False 0 0 (WWrite 5 0) RSleep Idle) 2 \<noteq> RRead 0 \<and>
   \<not> is_writer (pcs (st True True True False 0 0 (WWrite 5 0) RSleep Idle) 3)"
proof -
  have "is_writer (pcs (st True True True False 0 0 (WWrite 5 0) RSleep Idle) 1)" by (simp add: st_def)
  then show ?thesis
    using pair_exclusion [OF st_write, of 1 2 0] pair_exclusion [OF st_write, of 1 3 0] by auto
qed



text \<open>Disk 0 fails, threads 1 and 2 both start to repair it, and thread 1 finishes.\<close>

lemma st_repaired: "preach 0 (st True True False False 0 0 Idle (PEnter 0) Idle)"
proof -
  note start = st_start
  have "preach 0 (st False True False False 0 0 Idle Idle Idle)"
    by (rule preach_to [OF start pstep.disk_fail [of 0]]) (auto simp: st_simps)
  then have "preach 0 (st False True False False 0 0 (PCheck 0) Idle Idle)"
    by (rule preach_to [OF _ pstep.call_repair [of _ 1 0]]) (auto simp: st_simps)
  then have "preach 0 (st False True False False 0 0 (PCheck 0) (PCheck 0) Idle)"
    by (rule preach_to [OF _ pstep.call_repair [of _ 2 0]]) (auto simp: st_simps)
  then have "preach 0 (st False True False False 0 0 (PCheck 0) (PEnter 0) Idle)"
    by (rule preach_to [OF _ pstep.repair_enter [of _ 2 0]]) (auto simp: st_simps)
  then have "preach 0 (st False True False False 0 0 (PEnter 0) (PEnter 0) Idle)"
    by (rule preach_to [OF _ pstep.repair_enter [of _ 1 0]]) (auto simp: st_simps)
  then have "preach 0 (st False True True False 0 0 (PCopy 0) (PEnter 0) Idle)"
    by (rule preach_to [OF _ pstep.repair_take [of _ 1 0]]) (auto simp: st_simps)
  then have "preach 0 (st False True True False 0 0 (PValid 0) (PEnter 0) Idle)"
    by (rule preach_to [OF _ pstep.repair_copy [of _ 1 0]]) (auto simp: st_simps)
  then have "preach 0 (st True True True False 0 0 (PDone 0) (PEnter 0) Idle)"
    by (rule preach_to [OF _ pstep.repair_valid [of _ 1 0]]) (auto simp: st_simps)
  then have "preach 0 (st True True False False 0 0 Wakeup (PEnter 0) Idle)"
    by (rule preach_to [OF _ pstep.repair_done [of _ 1 0]]) (auto simp: st_simps)
  then show ?thesis
    by (rule preach_to [OF _ pstep.wake [of _ 1]]) (auto simp: st_simps)
qed

text \<open>Then disk 1 fails, and thread 3 writes 5 to the pair, that is to disk 0.\<close>

lemma st_written: "preach 0 (st True False False False 5 0 Idle (PEnter 0) Idle)"
proof -
  note start = st_repaired
  have "preach 0 (st True False False False 0 0 Idle (PEnter 0) Idle)"
    by (rule preach_to [OF start pstep.disk_fail [of 1]]) (auto simp: st_simps)
  then have "preach 0 (st True False False False 0 0 Idle (PEnter 0) (WEnter 5))"
    by (rule preach_to [OF _ pstep.call_write [of _ 3 5]]) (auto simp: st_simps)
  then have "preach 0 (st True False True False 0 0 Idle (PEnter 0) (WWrite 5 0))"
    by (rule preach_to [OF _ pstep.write_take [of _ 3 5]]) (auto simp: st_simps)
  then have "preach 0 (st True False True False 5 0 Idle (PEnter 0) (WWrite 5 1))"
    by (rule preach_to [OF _ pstep.write_disk [of _ 3 5 0]]) (auto simp: st_simps)
  then have "preach 0 (st True False True False 5 0 Idle (PEnter 0) (WWrite 5 2))"
    by (rule preach_to [OF _ pstep.write_disk [of _ 3 5 1]]) (auto simp: st_simps)
  then have "preach 0 (st True False False False 5 0 Idle (PEnter 0) Wakeup)"
    by (rule preach_to [OF _ pstep.write_done [of _ 3 5]]) (auto simp: st_simps)
  then show ?thesis
    by (rule preach_to [OF _ pstep.wake [of _ 3]]) (auto simp: st_simps)
qed

lemma pstep_to: "pstep s s'' \<Longrightarrow> s'' = s' \<Longrightarrow> pstep\<^sup>*\<^sup>* s s'"
  by blast

text \<open>C33. A completed write can be undone by a late repair. Two threads ask to repair disk 0; the second one has tested its
  partner before the first one finishes. When the partner then fails and a write has stored 5 on disk 0, the second
  repair still copies the stale partner over disk 0, which stays marked valid.\<close>

theorem pair_late_repair_loses_write:
  "\<exists>s s'. preach 0 s \<and> pcs s = (\<lambda>t. Idle)(2 := PEnter 0) \<and> pvalid s 0 \<and> \<not> pwriting s \<and> pdata s 0 = 5 \<and>
     pstep\<^sup>*\<^sup>* s s' \<and> (\<forall>t. pcs s' t = Idle) \<and> pvalid s' 0 \<and> \<not> pvalid s' 1 \<and> pdata s' 0 = 0"
proof -
  let ?s = "st True False False False 5 0 Idle (PEnter 0) Idle"
  have "pstep\<^sup>*\<^sup>* ?s (st True False True False 5 0 Idle (PCopy 0) Idle)"
    by (rule pstep_to [OF pstep.repair_take [of _ 2 0]]) (auto simp: st_simps)
  also have "pstep\<^sup>*\<^sup>* \<dots> (st True False True False 0 0 Idle (PValid 0) Idle)"
    by (rule pstep_to [OF pstep.repair_copy [of _ 2 0]]) (auto simp: st_simps)
  also have "pstep\<^sup>*\<^sup>* \<dots> (st True False True False 0 0 Idle (PDone 0) Idle)"
    by (rule pstep_to [OF pstep.repair_valid [of _ 2 0]]) (auto simp: st_simps)
  also have "pstep\<^sup>*\<^sup>* \<dots> (st True False False False 0 0 Idle Wakeup Idle)"
    by (rule pstep_to [OF pstep.repair_done [of _ 2 0]]) (auto simp: st_simps)
  also have "pstep\<^sup>*\<^sup>* \<dots> (st True False False False 0 0 Idle Idle Idle)"
    by (rule pstep_to [OF pstep.wake [of _ 2]]) (auto simp: st_simps)
  finally have "pstep\<^sup>*\<^sup>* ?s (st True False False False 0 0 Idle Idle Idle)" .
  then show ?thesis
    using st_written by (intro exI [of _ ?s] exI [of _ "st True False False False 0 0 Idle Idle Idle"]) (auto simp: st_def)
qed

end
