(* ===== verification/Repair_Protocol.thy ===== *)
theory Repair_Protocol
  imports Main
begin

text \<open>
  Several kernel threads on one RAID 4 or RAID 5 array: the counters \<open>writecount\<close> and \<open>repairing\<close> with
  which \<open>raid4write\<close> and \<open>raid5write\<close> (kernel/raid4.c, kernel/raid5.c) keep out \<open>raidrepair\<close>
  (kernel/raid.c). What a thread does between \<open>acquire(&repairlock)\<close> and the \<open>release\<close> or \<open>sleep\<close> that
  follows is one step; the calls of \<open>wakeup\<close> are made while the lock is held.
\<close>

section \<open>States and steps\<close>

datatype rpc = RIdle | WLoop | WWait | WBody | RLoop | RWait | RBody

record repsys =
  wcount :: int
  repcount :: int
  rpcs :: "nat \<Rightarrow> rpc"

definition jump :: "nat \<Rightarrow> rpc \<Rightarrow> repsys \<Rightarrow> repsys" where
  "jump t p s = s\<lparr>rpcs := (rpcs s)(t := p)\<rparr>"

text \<open>\<open>wakeup\<close> of the threads sleeping on \<open>&writecount\<close> or on \<open>&repairing\<close>.\<close>

definition wake_repairs :: "repsys \<Rightarrow> repsys" where
  "wake_repairs s = s\<lparr>rpcs := (\<lambda>t. if rpcs s t = RWait then RLoop else rpcs s t)\<rparr>"

definition wake_writes :: "repsys \<Rightarrow> repsys" where
  "wake_writes s = s\<lparr>rpcs := (\<lambda>t. if rpcs s t = WWait then WLoop else rpcs s t)\<rparr>"

inductive rstep :: "repsys \<Rightarrow> repsys \<Rightarrow> bool" where
  write_call: "rpcs s t = RIdle \<Longrightarrow> rstep s (jump t WLoop s)"
| write_sleep: "rpcs s t = WLoop \<Longrightarrow> repcount s \<noteq> 0 \<Longrightarrow> rstep s (jump t WWait s)"
| write_enter: "rpcs s t = WLoop \<Longrightarrow> repcount s = 0 \<Longrightarrow> rstep s (jump t WBody (s\<lparr>wcount := wcount s + 1\<rparr>))"
| write_leave: "rpcs s t = WBody \<Longrightarrow> s1 = jump t RIdle (s\<lparr>wcount := wcount s - 1\<rparr>) \<Longrightarrow>
    rstep s (if wcount s1 = 0 then wake_repairs s1 else s1)"
| repair_call: "rpcs s t = RIdle \<Longrightarrow> s1 = s\<lparr>repcount := repcount s + 1\<rparr> \<Longrightarrow>
    rstep s (jump t (if wcount s1 \<noteq> 0 \<and> repcount s1 \<noteq> 0 then RWait else RBody) s1)"
| repair_loop: "rpcs s t = RLoop \<Longrightarrow>
    rstep s (jump t (if wcount s \<noteq> 0 \<and> repcount s \<noteq> 0 then RWait else RBody) s)"
| repair_leave: "rpcs s t = RBody \<Longrightarrow> s1 = jump t RIdle (s\<lparr>repcount := repcount s - 1\<rparr>) \<Longrightarrow>
    rstep s (if repcount s1 = 0 then wake_writes s1 else s1)"

inductive rreach :: "repsys \<Rightarrow> bool" where
  start: "rreach \<lparr>wcount = 0, repcount = 0, rpcs = (\<lambda>_. RIdle)\<rparr>"
| step: "rreach s \<Longrightarrow> rstep s s' \<Longrightarrow> rreach s'"

section \<open>Invariant\<close>

definition wset :: "repsys \<Rightarrow> nat set" where
  "wset s = {t. rpcs s t = WBody}"

definition rset :: "repsys \<Rightarrow> nat set" where
  "rset s = {t. rpcs s t \<in> {RLoop, RWait, RBody}}"

definition counted :: "repsys \<Rightarrow> bool" where
  "counted s \<longleftrightarrow> finite (wset s) \<and> wcount s = int (card (wset s)) \<and>
     finite (rset s) \<and> repcount s = int (card (rset s))"

definition kept_out :: "repsys \<Rightarrow> bool" where
  "kept_out s \<longleftrightarrow> ((\<exists>t. rpcs s t = RBody) \<longrightarrow> wcount s = 0)"

definition waits_justified :: "repsys \<Rightarrow> bool" where
  "waits_justified s \<longleftrightarrow> ((\<exists>t. rpcs s t = RWait) \<longrightarrow> wcount s \<noteq> 0) \<and> ((\<exists>t. rpcs s t = WWait) \<longrightarrow> repcount s \<noteq> 0)"

lemma jump_simps [simp]:
  "wcount (jump t p s) = wcount s" "repcount (jump t p s) = repcount s" "rpcs (jump t p s) = (rpcs s)(t := p)"
  by (simp_all add: jump_def)

lemma wset_jump: "wset (jump t p s) = (if p = WBody then insert t (wset s) else wset s - {t})"
  by (auto simp: wset_def)

lemma rset_jump: "rset (jump t p s) = (if p \<in> {RLoop, RWait, RBody} then insert t (rset s) else rset s - {t})"
  by (auto simp: rset_def)

lemma sets_upd [simp]:
  "wset (s\<lparr>wcount := n\<rparr>) = wset s" "rset (s\<lparr>wcount := n\<rparr>) = rset s"
  "wset (s\<lparr>repcount := n\<rparr>) = wset s" "rset (s\<lparr>repcount := n\<rparr>) = rset s"
  "wset (wake_repairs s) = wset s" "rset (wake_repairs s) = rset s"
  "wset (wake_writes s) = wset s" "rset (wake_writes s) = rset s"
  by (auto simp: wset_def rset_def wake_repairs_def wake_writes_def)

lemma wake_simps [simp]:
  "wcount (wake_repairs s) = wcount s" "repcount (wake_repairs s) = repcount s"
  "wcount (wake_writes s) = wcount s" "repcount (wake_writes s) = repcount s"
  by (simp_all add: wake_repairs_def wake_writes_def)

lemma in_sets [simp]: "t \<in> wset s \<longleftrightarrow> rpcs s t = WBody" "t \<in> rset s \<longleftrightarrow> rpcs s t \<in> {RLoop, RWait, RBody}"
  by (simp_all add: wset_def rset_def)

lemma counted_step: "rstep s s' \<Longrightarrow> counted s \<Longrightarrow> counted s'"
proof (induction rule: rstep.induct)
  case (write_leave s t s1)
  then have "wset s \<noteq> {}" by (auto simp: set_eq_iff)
  with write_leave show ?case
    by (auto simp: counted_def wset_jump rset_jump card_Diff_singleton card_gt_0_iff of_nat_diff Suc_leI)
next
  case (repair_leave s t s1)
  then have "rset s \<noteq> {}" by (auto simp: set_eq_iff)
  with repair_leave show ?case
    by (auto simp: counted_def wset_jump rset_jump card_Diff_singleton card_gt_0_iff of_nat_diff Suc_leI)
next
  case (repair_loop s t)
  then have "t \<in> rset s" "t \<notin> wset s" by auto
  then have "insert t (rset s) = rset s" "wset s - {t} = wset s" by auto
  with repair_loop show ?case by (simp add: counted_def wset_jump rset_jump)
qed (auto simp: counted_def wset_jump rset_jump)

lemma counted_zero:
  assumes "counted s"
  shows "repcount s = 0 \<longleftrightarrow> rset s = {}" "wcount s = 0 \<longleftrightarrow> wset s = {}" "0 \<le> repcount s" "0 \<le> wcount s"
  using assms by (auto simp: counted_def)

lemma repcount_pos: "counted s \<Longrightarrow> rpcs s t \<in> {RLoop, RWait, RBody} \<Longrightarrow> repcount s \<noteq> 0"
  using counted_zero(1) in_sets(2) by (metis empty_iff)

lemma wcount_pos: "counted s \<Longrightarrow> rpcs s t = WBody \<Longrightarrow> wcount s \<noteq> 0"
  using counted_zero(2) in_sets(1) by (metis empty_iff)

lemma kept_out_step: "rstep s s' \<Longrightarrow> counted s \<Longrightarrow> kept_out s \<Longrightarrow> kept_out s'"
proof (induction rule: rstep.induct)
  case (write_enter s t)
  then have "rpcs s u \<noteq> RBody" for u using repcount_pos [of s u] by auto
  then show ?case by (auto simp: kept_out_def)
next
  case (write_leave s t s1)
  then have "rpcs s u \<noteq> RBody" for u
    using wcount_pos [of s t] by (auto simp: kept_out_def)
  with write_leave show ?case by (auto simp: kept_out_def wake_repairs_def)
next
  case (repair_call s t s1)
  then have "repcount s1 \<noteq> 0" using counted_zero(3) [of s] by auto
  with repair_call show ?case by (auto simp: kept_out_def)
next
  case (repair_loop s t)
  then have "repcount s \<noteq> 0" using repcount_pos [of s t] by simp
  with repair_loop show ?case by (auto simp: kept_out_def)
qed (auto simp: kept_out_def wake_writes_def split: if_splits)

lemma waits_justified_step: "rstep s s' \<Longrightarrow> counted s \<Longrightarrow> waits_justified s \<Longrightarrow> waits_justified s'"
proof (induction rule: rstep.induct)
  case (write_enter s t)
  then show ?case using counted_zero(4) [of s] by (auto simp: waits_justified_def)
next
  case (repair_call s t s1)
  then show ?case using counted_zero(3) [of s] by (auto simp: waits_justified_def)
qed (auto simp: waits_justified_def wake_writes_def wake_repairs_def split: if_splits)

lemma rreach_inv: "rreach s \<Longrightarrow> counted s \<and> kept_out s \<and> waits_justified s"
proof (induction rule: rreach.induct)
  case start
  then show ?case by (auto simp: counted_def wset_def rset_def kept_out_def waits_justified_def)
next
  case (step s s')
  then show ?case using counted_step kept_out_step waits_justified_step by blast
qed

section \<open>Properties\<close>

text \<open>C10. While a repair rebuilds a disk of a RAID 4 or RAID 5 array, no write is in progress, and while a write is in
  progress no repair starts to rebuild.\<close>

theorem repair_excludes_writes:
  assumes "rreach s" "rpcs s t = RBody"
  shows "rpcs s u \<noteq> WBody"
proof -
  have "counted s" "kept_out s" using rreach_inv [OF assms(1)] by auto
  then show ?thesis using assms(2) wcount_pos [of s u] by (auto simp: kept_out_def)
qed

text \<open>C11. Writes and repairs do not deadlock on the counters: whenever a thread waits, some thread is in a write or a
  repair, or is about to examine the condition again.\<close>

theorem repair_no_deadlock:
  assumes "rreach s" "rpcs s t = WWait \<or> rpcs s t = RWait"
  shows "\<exists>u. rpcs s u = WBody \<or> rpcs s u = RBody \<or> rpcs s u = RLoop"
proof -
  have inv: "counted s" "waits_justified s" using rreach_inv [OF assms(1)] by auto
  have w: "\<exists>u. rpcs s u = WBody" if "rpcs s v = RWait" for v
    using that inv(2) counted_zero(2) [OF inv(1)] by (auto simp: waits_justified_def set_eq_iff)
  have "\<exists>u. rpcs s u \<in> {RLoop, RWait, RBody}" if "rpcs s t = WWait"
    using that inv(2) counted_zero(1) [OF inv(1)] by (auto simp: waits_justified_def set_eq_iff)
  with w assms(2) show ?thesis by blast
qed

text \<open>Thread 1 writes and thread 2 waits to repair.\<close>

definition demo_wait :: repsys where
  "demo_wait = \<lparr>wcount = 1, repcount = 1, rpcs = (\<lambda>_. RIdle)(1 := WBody, 2 := RWait)\<rparr>"

lemma rreach_to: "rreach s \<Longrightarrow> rstep s s'' \<Longrightarrow> s'' = s' \<Longrightarrow> rreach s'"
  using rreach.step by blast

lemma demo_wait_reach: "rreach demo_wait"
proof -
  have "rreach \<lparr>wcount = 0, repcount = 0, rpcs = (\<lambda>_. RIdle)(1 := WLoop)\<rparr>"
    by (rule rreach_to [OF rreach.start rstep.write_call [of _ 1]]) (auto simp: jump_def)
  then have "rreach \<lparr>wcount = 1, repcount = 0, rpcs = (\<lambda>_. RIdle)(1 := WBody)\<rparr>"
    by (rule rreach_to [OF _ rstep.write_enter [of _ 1]]) (auto simp: jump_def)
  then show ?thesis
    by (rule rreach_to [OF _ rstep.repair_call [of _ 2, OF _ refl]]) (auto simp: jump_def demo_wait_def)
qed

theorem repair_no_deadlock_witness: "\<exists>u. rpcs demo_wait u = WBody \<or> rpcs demo_wait u = RBody \<or> rpcs demo_wait u = RLoop"
  by (rule repair_no_deadlock [OF demo_wait_reach, of 2]) (simp add: demo_wait_def)

theorem repair_excludes_writes_witness:
  "\<exists>s. rreach s \<and> rpcs s 2 = RBody \<and> rpcs s 1 \<noteq> WBody"
proof -
  let ?s = "\<lparr>wcount = 0, repcount = 1, rpcs = (\<lambda>_. RIdle)(2 := RBody)\<rparr>"
  have r: "rreach ?s"
    by (rule rreach_to [OF rreach.start rstep.repair_call [of _ 2, OF _ refl]]) (auto simp: jump_def)
  then show ?thesis using repair_excludes_writes [OF r, of 2 1] by (intro exI [of _ ?s]) simp
qed

end
