(* ===== verification/String_Lib.thy ===== *)
theory String_Lib
  imports Kernel_Prelude
begin

text \<open>
  The memory and string functions of kernel/string.c on a byte-addressed memory. Pointers are
  addresses; reads and writes go through the same memory, so that overlapping arguments behave as in
  the code. Loops that only end at a NUL byte are partial: \<open>None\<close> stands for a loop that runs forever.
\<close>

type_synonym mem = "nat \<Rightarrow> byte"

section \<open>Memory areas\<close>

text \<open>\<open>memset\<close>: the fill value is an \<open>int\<close>, of which the assignment to a \<open>char\<close> keeps the low byte.\<close>

definition memset :: "nat \<Rightarrow> int \<Rightarrow> nat \<Rightarrow> mem \<Rightarrow> mem" where
  "memset dst c n m = fold (\<lambda>i m. m(dst + i := word_of_int c)) [0..<n] m"

fun memcmp :: "nat \<Rightarrow> nat \<Rightarrow> nat \<Rightarrow> mem \<Rightarrow> int" where
  "memcmp s1 s2 0 m = 0"
| "memcmp s1 s2 (Suc n) m =
     (if m s1 \<noteq> m s2 then uint (m s1) - uint (m s2) else memcmp (s1 + 1) (s2 + 1) n m)"

text \<open>The two loops of \<open>memmove\<close>.\<close>

fun copy_forward :: "nat \<Rightarrow> nat \<Rightarrow> nat \<Rightarrow> mem \<Rightarrow> mem" where
  "copy_forward d s 0 m = m"
| "copy_forward d s (Suc n) m = copy_forward (d + 1) (s + 1) n (m(d := m s))"

fun copy_backward :: "nat \<Rightarrow> nat \<Rightarrow> nat \<Rightarrow> mem \<Rightarrow> mem" where
  "copy_backward d s 0 m = m"
| "copy_backward d s (Suc n) m = copy_backward (d - 1) (s - 1) n (m(d - 1 := m (s - 1)))"

definition memmove :: "nat \<Rightarrow> nat \<Rightarrow> nat \<Rightarrow> mem \<Rightarrow> mem" where
  "memmove dst src n m =
     (if n = 0 then m
      else if src < dst \<and> src + n > dst then copy_backward (dst + n) (src + n) n m
      else copy_forward dst src n m)"

definition memcpy :: "nat \<Rightarrow> nat \<Rightarrow> nat \<Rightarrow> mem \<Rightarrow> mem" where
  "memcpy dst src n m = memmove dst src n m"

section \<open>Strings\<close>

fun strncmp :: "nat \<Rightarrow> nat \<Rightarrow> nat \<Rightarrow> mem \<Rightarrow> int" where
  "strncmp p q 0 m = 0"
| "strncmp p q (Suc n) m =
     (if m p \<noteq> 0 \<and> m p = m q then strncmp (p + 1) (q + 1) n m else uint (m p) - uint (m q))"

text \<open>The second loop of \<open>strncpy\<close> fills the rest of the \<open>n\<close> bytes with NUL.\<close>

fun strncpy_pad :: "nat \<Rightarrow> nat \<Rightarrow> mem \<Rightarrow> mem" where
  "strncpy_pad s 0 m = m"
| "strncpy_pad s (Suc n) m = strncpy_pad (s + 1) n (m(s := 0))"

fun strncpy_loop :: "nat \<Rightarrow> nat \<Rightarrow> nat \<Rightarrow> mem \<Rightarrow> mem" where
  "strncpy_loop s t 0 m = m"
| "strncpy_loop s t (Suc n) m =
     (if m t \<noteq> 0 then strncpy_loop (s + 1) (t + 1) n (m(s := m t)) else strncpy_pad (s + 1) n (m(s := m t)))"

definition strncpy :: "nat \<Rightarrow> nat \<Rightarrow> int \<Rightarrow> mem \<Rightarrow> mem" where
  "strncpy s t n m = strncpy_loop s t (nat n) m"

fun safestrcpy_loop :: "nat \<Rightarrow> nat \<Rightarrow> nat \<Rightarrow> mem \<Rightarrow> mem" where
  "safestrcpy_loop s t (Suc (Suc n)) m =
     (if m t \<noteq> 0 then safestrcpy_loop (s + 1) (t + 1) (Suc n) (m(s := m t)) else (m(s := m t))(s + 1 := 0))"
| "safestrcpy_loop s t n m = m(s := 0)"

definition safestrcpy :: "nat \<Rightarrow> nat \<Rightarrow> int \<Rightarrow> mem \<Rightarrow> mem" where
  "safestrcpy s t n m = (if n \<le> 0 then m else safestrcpy_loop s t (nat n) m)"

partial_function (option) strlen_loop :: "nat \<Rightarrow> nat \<Rightarrow> mem \<Rightarrow> nat option" where
  "strlen_loop n s m = (if m (s + n) \<noteq> 0 then strlen_loop (n + 1) s m else Some n)"

definition strlen :: "nat \<Rightarrow> mem \<Rightarrow> nat option" where
  "strlen s m = strlen_loop 0 s m"

text \<open>\<open>while (*p) p++\<close>, the first loop of \<open>strcat\<close> and of the second half of \<open>itoa\<close>.\<close>

partial_function (option) str_end :: "nat \<Rightarrow> mem \<Rightarrow> nat option" where
  "str_end p m = (if m p \<noteq> 0 then str_end (p + 1) m else Some p)"

partial_function (option) strcat_loop :: "nat \<Rightarrow> nat \<Rightarrow> mem \<Rightarrow> mem option" where
  "strcat_loop os s2 m =
     (if m s2 \<noteq> 0 then strcat_loop (os + 1) (s2 + 1) (m(os := m s2)) else Some (m(os := 0)))"

definition strcat :: "nat \<Rightarrow> nat \<Rightarrow> mem \<Rightarrow> mem option" where
  "strcat s1 s2 m = Option.bind (str_end s1 m) (\<lambda>os. strcat_loop os s2 m)"

text \<open>
  \<open>itoa\<close> for the non-negative numbers it is used with: the digits are collected in \<open>buf\<close> from the
  lowest one on and appended to the string \<open>result\<close> in reverse order. A base without digits and a
  number with more digits than \<open>buf\<close> has bytes have no result.
\<close>

definition digits :: "byte list" where
  "digits = [48, 49, 50, 51, 52, 53, 54, 55, 56, 57, 97, 98, 99, 100, 101, 102]"

function itoa_digits :: "nat \<Rightarrow> nat \<Rightarrow> byte list" where
  "itoa_digits xx base =
     digits ! (xx mod base) # (if xx div base \<noteq> 0 \<and> 1 < base then itoa_digits (xx div base) base else [])"
  by pat_completeness auto
termination
proof (relation "measure fst", goal_cases)
  case (2 xx base)
  then have "0 < xx" by (cases xx) auto
  with 2 show ?case by (simp add: div_less_dividend)
qed simp

declare itoa_digits.simps [simp del]

fun itoa_put :: "nat \<Rightarrow> byte list \<Rightarrow> mem \<Rightarrow> mem" where
  "itoa_put p [] m = m(p := 0)"
| "itoa_put p (x # xs) m = itoa_put (p + 1) xs (m(p := x))"

definition itoa :: "nat \<Rightarrow> nat \<Rightarrow> nat \<Rightarrow> mem \<Rightarrow> mem option" where
  "itoa xx base result m =
     (if base < 2 \<or> base > length digits \<or> length (itoa_digits xx base) > 16 then None
      else Option.bind (str_end result m) (\<lambda>p. Some (itoa_put p (rev (itoa_digits xx base)) m)))"

section \<open>Reference definitions\<close>

definition block_copy :: "nat \<Rightarrow> nat \<Rightarrow> nat \<Rightarrow> mem \<Rightarrow> mem" where
  "block_copy dst src n m = (\<lambda>a. if dst \<le> a \<and> a < dst + n then m (src + (a - dst)) else m a)"

definition get_bytes :: "mem \<Rightarrow> nat \<Rightarrow> nat \<Rightarrow> byte list" where
  "get_bytes m a n = map (\<lambda>i. m (a + i)) [0..<n]"

definition put_bytes :: "nat \<Rightarrow> byte list \<Rightarrow> mem \<Rightarrow> mem" where
  "put_bytes a xs m = (\<lambda>b. if a \<le> b \<and> b < a + length xs then xs ! (b - a) else m b)"

definition str_at :: "mem \<Rightarrow> nat \<Rightarrow> byte list \<Rightarrow> bool" where
  "str_at m p xs \<longleftrightarrow> get_bytes m p (length xs) = xs \<and> 0 \<notin> set xs \<and> m (p + length xs) = 0"

section \<open>Memory areas: facts\<close>

lemma memset_apply: "memset dst c n m a = (if dst \<le> a \<and> a < dst + n then word_of_int c else m a)"
proof (induction n)
  case (Suc n)
  then show ?case by (auto simp: memset_def upt_Suc)
qed (auto simp: memset_def)

lemma length_get_bytes [simp]: "length (get_bytes m a n) = n"
  by (simp add: get_bytes_def)

lemma nth_get_bytes [simp]: "i < n \<Longrightarrow> get_bytes m a n ! i = m (a + i)"
  by (simp add: get_bytes_def)

lemma get_bytes_0 [simp]: "get_bytes m a 0 = []"
  by (simp add: get_bytes_def)

lemma get_bytes_Suc: "get_bytes m a (Suc n) = m a # get_bytes m (a + 1) n"
  by (rule nth_equalityI) (auto simp: nth_Cons split: nat.splits)

lemma get_bytes_add: "get_bytes m a (i + j) = get_bytes m a i @ get_bytes m (a + i) j"
  by (rule nth_equalityI) (auto simp: nth_append)

lemma get_bytes_cong: "(\<And>i. i < n \<Longrightarrow> m (a + i) = m' (a' + i)) \<Longrightarrow> get_bytes m a n = get_bytes m' a' n"
  by (simp add: get_bytes_def)

lemma get_put_bytes [simp]: "get_bytes (put_bytes a xs m) a (length xs) = xs"
  by (rule nth_equalityI) (auto simp: put_bytes_def)

lemma put_bytes_apply: "put_bytes a xs m b = (if a \<le> b \<and> b < a + length xs then xs ! (b - a) else m b)"
  by (simp add: put_bytes_def)

lemma put_bytes_Nil [simp]: "put_bytes a [] m = m"
  by (auto simp: put_bytes_def fun_eq_iff)

lemma put_bytes_Cons: "put_bytes a (x # xs) m = put_bytes (a + 1) xs (m(a := x))"
proof
  fix b
  show "put_bytes a (x # xs) m b = put_bytes (a + 1) xs (m(a := x)) b"
    by (cases "b = a") (auto simp: put_bytes_def nth_Cons' Suc_le_eq)
qed

lemma put_bytes_append: "put_bytes a (xs @ ys) m = put_bytes (a + length xs) ys (put_bytes a xs m)"
  by (rule ext) (auto simp: put_bytes_def nth_append)

lemma block_copy_bytes: "block_copy dst src n m = put_bytes dst (get_bytes m src n) m"
  by (rule ext) (auto simp: block_copy_def put_bytes_def)

lemma block_copy_0 [simp]: "block_copy d s 0 m = m"
  by (auto simp: block_copy_def fun_eq_iff)

lemma copy_forward_block: "d \<le> s \<or> s + n \<le> d \<Longrightarrow> copy_forward d s n m = block_copy d s n m"
proof (induction n arbitrary: d s m)
  case 0
  then show ?case by simp
next
  case (Suc n)
  then have "copy_forward d s (Suc n) m = block_copy (d + 1) (s + 1) n (m(d := m s))" by (auto intro: Suc.IH)
  also have "\<dots> = block_copy d s (Suc n) m"
  proof
    fix a
    consider "a = d" | "d < a" "a < d + Suc n" | "a < d" | "d + Suc n \<le> a" by linarith
    then show "block_copy (d + 1) (s + 1) n (m(d := m s)) a = block_copy d s (Suc n) m a"
    proof cases
      case 2
      then have "s + 1 + (a - (d + 1)) = s + (a - d)" by simp
      moreover have "s + (a - d) \<noteq> d" using 2 Suc.prems by linarith
      ultimately show ?thesis using 2 by (simp add: block_copy_def)
    qed (auto simp: block_copy_def)
  qed
  finally show ?case .
qed

lemma copy_backward_block: "s \<le> d \<Longrightarrow> copy_backward (d + n) (s + n) n m = block_copy d s n m"
proof (induction n arbitrary: m)
  case 0
  then show ?case by simp
next
  case (Suc n)
  have "copy_backward (d + Suc n) (s + Suc n) (Suc n) m = block_copy d s n (m(d + n := m (s + n)))"
    using Suc by simp
  also have "\<dots> = block_copy d s (Suc n) m"
  proof
    fix a
    consider "a = d + n" | "d \<le> a" "a < d + n" | "a < d" | "d + Suc n \<le> a" by linarith
    then show "block_copy d s n (m(d + n := m (s + n))) a = block_copy d s (Suc n) m a"
    proof cases
      case 2
      then have "s + (a - d) \<noteq> d + n" using Suc.prems by linarith
      with 2 show ?thesis by (simp add: block_copy_def)
    qed (auto simp: block_copy_def)
  qed
  finally show ?case .
qed

lemma memmove_bytes: "memmove dst src n m = put_bytes dst (get_bytes m src n) m"
  using copy_forward_block [of dst src n m] copy_backward_block [of src dst n m]
  by (auto simp: memmove_def block_copy_bytes [symmetric] block_copy_def not_less)

text \<open>C25. \<open>memmove\<close> copies \<open>n\<close> bytes as if through a separate buffer, whether or not the two areas overlap and
  in whichever direction they do: each byte of the destination gets the old value of its source byte, and no
  other byte changes.\<close>

theorem memmove_copies: "memmove dst src n m a = (if dst \<le> a \<and> a < dst + n then m (src + (a - dst)) else m a)"
  unfolding memmove_bytes block_copy_bytes [symmetric] block_copy_def by simp

lemma memcmp_lex:
  "(memcmp s1 s2 n m < 0 \<longleftrightarrow> (get_bytes m s1 n, get_bytes m s2 n) \<in> lexord {(a, b). a < b}) \<and>
   (memcmp s1 s2 n m = 0 \<longleftrightarrow> get_bytes m s1 n = get_bytes m s2 n)"
proof (induction n arbitrary: s1 s2)
  case (Suc n)
  then show ?case
    by (auto simp: get_bytes_Suc word_less_def word_uint_eq_iff)
qed simp

section \<open>Strings: facts\<close>

lemma str_at_Nil [simp]: "str_at m p [] \<longleftrightarrow> m p = 0"
  by (simp add: str_at_def)

lemma str_at_Cons: "str_at m p (x # xs) \<longleftrightarrow> m p = x \<and> x \<noteq> 0 \<and> str_at m (p + 1) xs"
  by (auto simp: str_at_def get_bytes_Suc)

lemma strlen_loop_str: "str_at m (s + n) xs \<Longrightarrow> strlen_loop n s m = Some (n + length xs)"
proof (induction xs arbitrary: n)
  case Nil
  then show ?case by (subst strlen_loop.simps) simp
next
  case (Cons x xs)
  then show ?case by (subst strlen_loop.simps) (simp add: str_at_Cons)
qed

lemma str_end_str: "str_at m p xs \<Longrightarrow> str_end p m = Some (p + length xs)"
proof (induction xs arbitrary: p)
  case Nil
  then show ?case by (subst str_end.simps) simp
next
  case (Cons x xs)
  then show ?case by (subst str_end.simps) (simp add: str_at_Cons)
qed

lemma strncmp_str:
  assumes "str_at m p xs" "str_at m q ys"
  shows "strncmp p q n m = 0 \<longleftrightarrow> take n xs = take n ys"
  using assms
proof (induction n arbitrary: p q xs ys)
  case (Suc n)
  show ?case
  proof (cases xs)
    case Nil
    with Suc.prems show ?thesis by (cases ys) (auto simp: str_at_Cons word_uint_eq_iff)
  next
    case (Cons x xs')
    then show ?thesis
      using Suc.prems Suc.IH [of "p + 1" xs' "q + 1"]
      by (cases ys) (auto simp: str_at_Cons word_uint_eq_iff)
  qed
qed simp

lemma get_bytes_eq_Cons: "get_bytes m a (Suc n) = x # xs \<longleftrightarrow> m a = x \<and> get_bytes m (a + 1) n = xs"
  by (simp add: get_bytes_Suc)

text \<open>The copying loops leave everything outside the destination as it was.\<close>

lemma strncpy_pad_apply: "strncpy_pad s n m a = (if s \<le> a \<and> a < s + n then 0 else m a)"
  by (induction n arbitrary: s m) auto

lemma strncpy_loop_frame: "a < s \<or> s + n \<le> a \<Longrightarrow> strncpy_loop s t n m a = m a"
  by (induction n arbitrary: s t m) (auto simp: strncpy_pad_apply)

lemma safestrcpy_loop_frame: "a < s \<or> s + n \<le> a \<Longrightarrow> 0 < n \<Longrightarrow> safestrcpy_loop s t n m a = m a"
  by (induction s t n m rule: safestrcpy_loop.induct) auto

lemma str_at_upd: "a < p \<or> p + length xs < a \<Longrightarrow> str_at (m(a := v)) p xs = str_at m p xs"
proof -
  assume "a < p \<or> p + length xs < a"
  then have "get_bytes (m(a := v)) p (length xs) = get_bytes m p (length xs)" "(m(a := v)) (p + length xs) = m (p + length xs)"
    by (auto intro!: get_bytes_cong)
  then show ?thesis by (simp only: str_at_def)
qed

lemma safestrcpy_loop_str:
  assumes "str_at m t xs" "s + Suc n \<le> t \<or> t + length xs < s"
  shows "str_at (safestrcpy_loop s t (Suc n) m) s (take n xs)"
  using assms
proof (induction n arbitrary: s t m xs)
  case (Suc n)
  show ?case
  proof (cases xs)
    case (Cons x ys)
    then have "str_at (m(s := x)) (t + 1) ys"
      using Suc.prems by (subst str_at_upd) (auto simp: str_at_Cons)
    then have "str_at (safestrcpy_loop (s + 1) (t + 1) (Suc n) (m(s := x))) (s + 1) (take n ys)"
      by (rule Suc.IH) (use Suc.prems Cons in auto)
    moreover have "safestrcpy_loop (s + 1) (t + 1) (Suc n) (m(s := x)) s = x"
      by (simp add: safestrcpy_loop_frame)
    ultimately show ?thesis using Suc.prems Cons by (simp add: str_at_Cons)
  qed (use Suc.prems in simp)
qed simp

lemma strncpy_loop_bytes:
  assumes "str_at m t xs" "s + n \<le> t \<or> t + length xs < s"
  shows "get_bytes (strncpy_loop s t n m) s n = take n xs @ replicate (n - length xs) 0"
  using assms
proof (induction n arbitrary: s t m xs)
  case (Suc n)
  show ?case
  proof (cases xs)
    case Nil
    then have "m t = 0" using Suc.prems by simp
    then show ?thesis using Nil by (auto intro!: nth_equalityI simp: strncpy_pad_apply nth_Cons')
  next
    case (Cons x ys)
    then have "str_at (m(s := x)) (t + 1) ys"
      using Suc.prems by (subst str_at_upd) (auto simp: str_at_Cons)
    then have "get_bytes (strncpy_loop (s + 1) (t + 1) n (m(s := x))) (s + 1) n = take n ys @ replicate (n - length ys) 0"
      by (rule Suc.IH) (use Suc.prems Cons in auto)
    moreover have "strncpy_loop (s + 1) (t + 1) n (m(s := x)) s = x"
      by (simp add: strncpy_loop_frame)
    ultimately show ?thesis using Suc.prems Cons by (auto simp: str_at_Cons get_bytes_Suc take_Cons')
  qed
qed simp

text \<open>C26. \<open>safestrcpy\<close> never writes outside the \<open>n\<close> bytes of its destination and always leaves a terminated string there,
  the longest prefix of the source that fits; \<open>strncpy\<close> fills exactly \<open>n\<close> bytes with the string and NUL bytes.\<close>

theorem safestrcpy_bounded:
  assumes "str_at m t xs" "0 < n" "s + nat n \<le> t \<or> t + length xs < s"
  shows "str_at (safestrcpy s t n m) s (take (nat n - 1) xs) \<and>
    get_bytes (strncpy s t n m) s (nat n) = take (nat n) xs @ replicate (nat n - length xs) 0 \<and>
    (\<forall>a. a < s \<or> s + nat n \<le> a \<longrightarrow> safestrcpy s t n m a = m a \<and> strncpy s t n m a = m a)"
proof (intro conjI allI impI)
  obtain k where "nat n = Suc k" using assms(2) by (cases "nat n") auto
  then show "str_at (safestrcpy s t n m) s (take (nat n - 1) xs)"
    using safestrcpy_loop_str [of m t xs s k] assms by (auto simp: safestrcpy_def)
  show "get_bytes (strncpy s t n m) s (nat n) = take (nat n) xs @ replicate (nat n - length xs) 0"
    using strncpy_loop_bytes [of m t xs s "nat n"] assms by (simp add: strncpy_def)
qed (use assms(2) in \<open>simp_all add: safestrcpy_def strncpy_def safestrcpy_loop_frame strncpy_loop_frame\<close>)

theorem safestrcpy_bounded_witness:
  "str_at (safestrcpy 10 0 2 ((\<lambda>_. 7)(0 := 97, 1 := 98, 2 := 0))) 10 [97] \<and>
   get_bytes (strncpy 10 0 4 ((\<lambda>_. 7)(0 := 97, 1 := 98, 2 := 0))) 10 4 = [97, 98, 0, 0]"
proof -
  have "str_at ((\<lambda>_. 7)(0 := 97, 1 := 98, 2 := 0)) 0 [97, 98]" by (simp add: str_at_Cons)
  from safestrcpy_bounded [OF this, of 2 10] safestrcpy_bounded [OF this, of 4 10] show ?thesis
    by (simp add: numeral_eq_Suc)
qed

section \<open>Concatenation and numbers\<close>

lemma strcat_loop_str:
  assumes "str_at m s2 ys" "os + length ys < s2 \<or> s2 + length ys < os"
  shows "strcat_loop os s2 m = Some (put_bytes os (ys @ [0]) m)"
  using assms
proof (induction ys arbitrary: os s2 m)
  case Nil
  then show ?case by (subst strcat_loop.simps) (simp add: put_bytes_Cons)
next
  case (Cons y ys)
  then have "str_at (m(os := y)) (s2 + 1) ys" by (subst str_at_upd) (auto simp: str_at_Cons)
  moreover have "strcat_loop os s2 m = strcat_loop (os + 1) (s2 + 1) (m(os := y))"
    using Cons.prems by (subst strcat_loop.simps) (simp add: str_at_Cons)
  moreover have "os + 1 + length ys < s2 + 1 \<or> s2 + 1 + length ys < os + 1" using Cons.prems(2) by auto
  ultimately show ?case using Cons.IH [OF \<open>str_at (m(os := y)) (s2 + 1) ys\<close>] by (simp only: put_bytes_Cons append_Cons)
qed

lemma str_at_put:
  assumes "str_at m p xs" "0 \<notin> set ys"
  shows "str_at (put_bytes (p + length xs) (ys @ [0]) m) p (xs @ ys)"
proof -
  have "get_bytes (put_bytes (p + length xs) (ys @ [0]) m) p (length xs) = xs"
    using assms(1) by (auto simp: str_at_def put_bytes_apply list_eq_iff_nth_eq)
  moreover have "get_bytes (put_bytes (p + length xs) (ys @ [0]) m) (p + length xs) (length ys) = ys"
    by (auto intro!: nth_equalityI simp: put_bytes_apply nth_append)
  moreover have "put_bytes (p + length xs) (ys @ [0]) m (p + length (xs @ ys)) = 0"
    by (simp add: put_bytes_apply nth_append)
  ultimately show ?thesis
    using assms by (simp add: str_at_def get_bytes_add)
qed

lemma itoa_put_bytes: "itoa_put p xs m = put_bytes p (xs @ [0]) m"
  by (induction xs arbitrary: p m) (simp_all add: put_bytes_Cons)

text \<open>The value of a list of digits, the highest one first.\<close>

definition digits_val :: "nat \<Rightarrow> nat list \<Rightarrow> nat" where
  "digits_val base ds = foldl (\<lambda>v d. v * base + d) 0 ds"

lemma digits_val_snoc [simp]: "digits_val base (ds @ [d]) = digits_val base ds * base + d"
  by (simp add: digits_val_def)

lemma itoa_digits_val:
  assumes "2 \<le> base"
  shows "\<exists>ds. rev (itoa_digits xx base) = map ((!) digits) ds \<and> digits_val base ds = xx \<and> (\<forall>d \<in> set ds. d < base)"
proof (induction xx rule: less_induct)
  case (less xx)
  show ?case
  proof (cases "xx div base = 0")
    case True
    then have "xx < base" using assms by (simp add: div_eq_0_iff)
    then show ?thesis
      using True by (intro exI [of _ "[xx]"]) (simp add: itoa_digits.simps digits_val_def)
  next
    case False
    then have "xx div base < xx" using assms by (cases xx) auto
    from less.IH [OF this] obtain ds where ds: "rev (itoa_digits (xx div base) base) = map ((!) digits) ds"
      "digits_val base ds = xx div base" "\<forall>d \<in> set ds. d < base" by blast
    have "rev (itoa_digits xx base) = map ((!) digits) (ds @ [xx mod base])"
      using False assms ds(1) by (subst itoa_digits.simps) simp
    moreover have "digits_val base (ds @ [xx mod base]) = xx" by (simp add: ds(2))
    moreover have "\<forall>d \<in> set (ds @ [xx mod base]). d < base" using ds(3) assms by simp
    ultimately show ?thesis by blast
  qed
qed

lemma itoa_digits_length: "2 \<le> base \<Longrightarrow> xx < base ^ Suc n \<Longrightarrow> length (itoa_digits xx base) \<le> Suc n"
proof (induction n arbitrary: xx)
  case 0
  then show ?case by (subst itoa_digits.simps) simp
next
  case (Suc n)
  then have "xx div base < base ^ Suc n" by (simp add: less_mult_imp_div_less mult.commute)
  with Suc show ?case by (subst itoa_digits.simps) simp
qed

lemma digits_not_0: "d < 16 \<Longrightarrow> digits ! d \<noteq> 0"
proof -
  have "\<forall>d \<in> set [0..<16]. digits ! d \<noteq> 0" by (simp add: digits_def upt_rec)
  then show "d < 16 \<Longrightarrow> digits ! d \<noteq> 0" by simp
qed

lemma itoa_str:
  assumes "str_at m r xs" "2 \<le> base" "base \<le> 16" "xx < base ^ 16"
  shows "\<exists>ds. itoa xx base r m = Some (put_bytes (r + length xs) (map ((!) digits) ds @ [0]) m) \<and>
    str_at (put_bytes (r + length xs) (map ((!) digits) ds @ [0]) m) r (xs @ map ((!) digits) ds) \<and> digits_val base ds = xx \<and> (\<forall>d \<in> set ds. d < base)"
proof -
  obtain ds where ds: "rev (itoa_digits xx base) = map ((!) digits) ds" "digits_val base ds = xx" "\<forall>d \<in> set ds. d < base"
    using itoa_digits_val [OF assms(2)] by blast
  then have "0 \<notin> set (map ((!) digits) ds)" using assms(3) digits_not_0 by fastforce
  then have "str_at (put_bytes (r + length xs) (map ((!) digits) ds @ [0]) m) r (xs @ map ((!) digits) ds)"
    using assms(1) by (rule str_at_put [rotated])
  moreover have "length (itoa_digits xx base) \<le> 16" using itoa_digits_length [of base xx 15] assms by simp
  moreover have "length digits = 16" by (simp add: digits_def)
  ultimately show ?thesis
    using ds assms by (auto simp: itoa_def str_end_str itoa_put_bytes)
qed

end
