(* ===== verification/Kernel_Words.thy ===== *)
theory Kernel_Words
  imports String_Lib
begin

text \<open>
  Shared facts about 64-bit words: shifts and masks as arithmetic of the unsigned value, rounding to
  page boundaries, and little-endian access to 64-bit words in memory.
\<close>

unbundle bit_operations_syntax

section \<open>Shifts, masks and sums\<close>

lemma u64_less: "unat (v :: u64) < 2 ^ 64"
  using unsigned_less [of v] by simp

lemma unat_eqI: "unat x = unat y \<Longrightarrow> x = y" for x y :: "'a::len word"
  by (rule unsigned_word_eqI)

lemma unat_of_nat64: "n < 2 ^ 64 \<Longrightarrow> unat (of_nat n :: u64) = n"
  by (simp add: unsigned_of_nat take_bit_nat_eq_self)

lemma unat_drop: "unat (drop_bit n (x :: u64)) = unat x div 2 ^ n"
  unfolding unsigned_drop_bit_eq using u64_less [of x] by (simp add: drop_bit_eq_div take_bit_nat_eq_self)

lemma unat_push: "unat x * 2 ^ n < 2 ^ 64 \<Longrightarrow> unat (push_bit n (x :: u64)) = unat x * 2 ^ n"
  unfolding unsigned_push_bit_eq by (simp add: push_bit_eq_mult take_bit_nat_eq_self)

lemma unat_mask9: "unat ((x :: u64) AND 0x1FF) = unat x mod 512"
proof -
  have "x AND 0x1FF = take_bit 9 x" by (simp add: take_bit_eq_mask mask_eq_exp_minus_1)
  then have "unat (x AND 0x1FF) = take_bit 9 (unat x)" by (simp only: unsigned_take_bit_eq)
  then show ?thesis by (simp add: take_bit_eq_mod)
qed

lemma flag_bit: "f < 1024 \<Longrightarrow> \<not> bit (f :: u64) (n + 10)"
proof -
  assume "f < 1024"
  then have "unat f < 2 ^ 10" by (simp add: word_less_nat_alt)
  then have "unat (take_bit 10 f) = unat f" unfolding unsigned_take_bit_eq by (rule take_bit_nat_eq_self)
  then have "take_bit 10 f = f" by (rule unat_eqI)
  then show ?thesis by (metis bit_take_bit_iff not_add_less2)
qed

lemma drop_or_flags: "f < 1024 \<Longrightarrow> drop_bit 10 (x OR f) = drop_bit 10 (x :: u64)"
  by (rule bit_eqI) (simp add: bit_simps flag_bit add.commute)

lemma and_not_4095: "(a :: u64) AND NOT 4095 = a - take_bit 12 a"
proof -
  have "a - take_bit 12 a = a AND NOT (take_bit 12 a)" by (rule disjunctive_diff) (simp add: bit_simps)
  also have "\<dots> = a AND NOT (mask 12)" by (rule bit_eqI) (auto simp: bit_simps)
  finally show ?thesis by (simp add: mask_eq_exp_minus_1)
qed

lemma unat_and_not_4095: "unat ((a :: u64) AND NOT 4095) = unat a div 4096 * 4096"
proof -
  have "take_bit 12 a \<le> a" by (simp add: word_le_nat_alt unsigned_take_bit_eq take_bit_nat_less_eq_self)
  then have "unat (a - take_bit 12 a) = unat a - take_bit 12 (unat a)" by (simp only: unat_sub unsigned_take_bit_eq)
  then show ?thesis by (simp only: and_not_4095) (simp add: take_bit_eq_mod minus_mod_eq_div_mult)
qed

lemma unat_add64: "unat a + unat b < 2 ^ 64 \<Longrightarrow> unat (a + b :: u64) = unat a + unat b"
  by (simp add: unat_word_ariths)

lemma unat_sub64: "unat b \<le> unat a \<Longrightarrow> unat (a - b :: u64) = unat a - unat b"
  by (simp add: unat_sub word_le_nat_alt)

section \<open>Words in memory\<close>

text \<open>A 64-bit access is little-endian.\<close>

definition bytes_val :: "byte list \<Rightarrow> nat" where
  "bytes_val bs = foldr (\<lambda>b v. unat b + 256 * v) bs 0"

definition load64 :: "mem \<Rightarrow> nat \<Rightarrow> u64" where
  "load64 m a = of_nat (bytes_val (get_bytes m a 8))"

definition bytes64 :: "u64 \<Rightarrow> byte list" where
  "bytes64 v = map (\<lambda>i. of_nat (unat v div 256 ^ i)) [0..<8]"

definition store64 :: "nat \<Rightarrow> u64 \<Rightarrow> mem \<Rightarrow> mem" where
  "store64 a v m = put_bytes a (bytes64 v) m"

lemma bytes_val_Nil [simp]: "bytes_val [] = 0"
  by (simp add: bytes_val_def)

lemma bytes_val_Cons [simp]: "bytes_val (b # bs) = unat b + 256 * bytes_val bs"
  by (simp add: bytes_val_def)

lemma bytes_val_digits: "bytes_val (map (\<lambda>i. of_nat (v div 256 ^ i)) [k..<k + n]) = v div 256 ^ k mod 256 ^ n"
proof (induction n arbitrary: k)
  case (Suc n)
  have "[k..<k + Suc n] = k # [Suc k..<Suc k + n]" by (simp add: upt_conv_Cons)
  then show ?case
    using Suc.IH [of "Suc k"]
    by (simp add: unat_of_nat mod_mult2_eq div_mult2_eq [symmetric] mult.commute)
qed simp

lemma length_bytes64 [simp]: "length (bytes64 v) = 8"
  by (simp add: bytes64_def)

lemma load64_store64 [simp]: "load64 (store64 a v m) a = v"
proof -
  have "get_bytes (store64 a v m) a 8 = bytes64 v"
    using get_put_bytes [of a "bytes64 v" m] by (simp add: store64_def)
  moreover have "bytes_val (bytes64 v) = unat v"
    using bytes_val_digits [of "unat v" 0 8] u64_less [of v] by (simp add: bytes64_def)
  ultimately show ?thesis by (simp add: load64_def)
qed

lemma load64_cong: "(\<And>i. i < 8 \<Longrightarrow> m (a + i) = m' (a + i)) \<Longrightarrow> load64 m a = load64 m' a"
  using get_bytes_cong [of 8 m a m' a] by (simp add: load64_def)

lemma load64_store64_other: "a + 8 \<le> b \<or> b + 8 \<le> a \<Longrightarrow> load64 (store64 b v m) a = load64 m a"
  by (rule load64_cong) (auto simp: store64_def put_bytes_apply)

lemma store64_apply: "b + 8 \<le> a \<or> a < b \<Longrightarrow> store64 b v m a = m a"
  by (auto simp: store64_def put_bytes_apply)

lemma load64_zero: "(\<And>i. i < 8 \<Longrightarrow> m (a + i) = 0) \<Longrightarrow> load64 m a = 0"
proof -
  assume "\<And>i. i < 8 \<Longrightarrow> m (a + i) = 0"
  then have "get_bytes m a 8 = replicate 8 0" by (intro nth_equalityI) auto
  moreover have "bytes_val (replicate n 0) = 0" for n by (induction n) auto
  ultimately show ?thesis by (simp add: load64_def)
qed

lemma load64_memset: "p \<le> a \<Longrightarrow> a + 8 \<le> p + n \<Longrightarrow> load64 (memset p 0 n m) a = 0"
  by (rule load64_zero) (simp add: memset_apply)

end
