(* ===== verification/Page_Table.thy ===== *)
theory Page_Table
  imports Kalloc Kernel_Words
begin

text \<open>
  Sv39 page tables in physical memory (first half of kernel/vm.c and the macros of kernel/riscv.h):
  \<open>walk\<close>, \<open>walkaddr\<close>, \<open>mappages\<close>, \<open>kvmmap\<close>. Physical addresses index a byte memory, virtual addresses
  and page table entries are 64-bit words. The contents of pages live in \<open>vmem\<close>; the free list of the
  allocator is threaded through \<open>nextp\<close> of \<^typ>\<open>kmem\<close>.
\<close>

unbundle bit_operations_syntax

section \<open>Macros of riscv.h\<close>

definition PTE_V :: u64 where "PTE_V = 1"

definition PTE_R :: u64 where "PTE_R = 2"

definition PTE_W :: u64 where "PTE_W = 4"

definition PTE_X :: u64 where "PTE_X = 8"

definition PTE_U :: u64 where "PTE_U = 16"

definition PA2PTE :: "nat \<Rightarrow> u64" where
  "PA2PTE pa = push_bit 10 (drop_bit 12 (of_nat pa))"

definition PTE2PA :: "u64 \<Rightarrow> nat" where
  "PTE2PA pte = unat (push_bit 12 (drop_bit 10 pte))"

definition PTE_FLAGS :: "u64 \<Rightarrow> u64" where
  "PTE_FLAGS pte = pte AND 0x3FF"

definition PX :: "nat \<Rightarrow> u64 \<Rightarrow> nat" where
  "PX level va = unat (drop_bit (12 + 9 * level) va AND 0x1FF)"

definition MAXVA :: u64 where "MAXVA = push_bit (9 + 9 + 9 + 12 - 1) 1"

text \<open>\<open>PGROUNDDOWN\<close> and \<open>PGROUNDUP\<close> on 64-bit addresses, where the addition may wrap around.\<close>

definition PGROUNDDOWN :: "u64 \<Rightarrow> u64" where
  "PGROUNDDOWN a = a AND NOT (0x1000 - 1)"

definition uPGROUNDUP :: "u64 \<Rightarrow> u64" where
  "uPGROUNDUP sz = (sz + 0x1000 - 1) AND NOT (0x1000 - 1)"

section \<open>State and page allocation\<close>

record vmstate =
  vhart :: cpu
  vkmem :: kmem
  vmem :: mem

text \<open>\<open>kalloc\<close> and \<open>kfree\<close> with the contents of the page: \<open>memset\<close> with junk, and on \<open>kfree\<close> the
  link of the free list in the first word.\<close>

definition vkalloc :: "vmstate \<Rightarrow> (nat \<times> vmstate) result" where
  "vkalloc s =
     bindR (kalloc (vkmem s) (vhart s)) (\<lambda>(r, k, c).
       Ok (r, s\<lparr>vkmem := k, vhart := c, vmem := (if r \<noteq> 0 then memset r 5 PGSIZE (vmem s) else vmem s)\<rparr>))"

definition vkfree :: "nat \<Rightarrow> nat \<Rightarrow> vmstate \<Rightarrow> vmstate result" where
  "vkfree kend pa s =
     bindR (kfree kend pa (vkmem s) (vhart s)) (\<lambda>(k, c).
       Ok (s\<lparr>vkmem := k, vhart := c, vmem := store64 pa (of_nat (nextp k pa)) (memset pa 1 PGSIZE (vmem s))\<rparr>))"

section \<open>walk, walkaddr, mappages, kvmmap\<close>

text \<open>The loop over the levels; \<open>alloc\<close> allows missing page-table pages to be created. The result 0 is the
  null pointer.\<close>

fun walk_loop :: "nat \<Rightarrow> nat \<Rightarrow> u64 \<Rightarrow> bool \<Rightarrow> vmstate \<Rightarrow> (nat \<times> vmstate) result" where
  "walk_loop 0 pagetable va alloc s = Ok (pagetable + 8 * PX 0 va, s)"
| "walk_loop (Suc level) pagetable va alloc s =
     (let pte = pagetable + 8 * PX (Suc level) va
      in if load64 (vmem s) pte AND PTE_V \<noteq> 0
         then walk_loop level (PTE2PA (load64 (vmem s) pte)) va alloc s
         else if \<not> alloc then Ok (0, s)
         else bindR (vkalloc s) (\<lambda>(pagetable, s).
                if pagetable = 0 then Ok (0, s)
                else let s = s\<lparr>vmem := memset pagetable 0 PGSIZE (vmem s)\<rparr>;
                         s = s\<lparr>vmem := store64 pte (PA2PTE pagetable OR PTE_V) (vmem s)\<rparr>
                     in walk_loop level pagetable va alloc s))"

definition walk :: "nat \<Rightarrow> u64 \<Rightarrow> bool \<Rightarrow> vmstate \<Rightarrow> (nat \<times> vmstate) result" where
  "walk pagetable va alloc s =
     (if va \<ge> MAXVA then Ok (0, s) else walk_loop 2 pagetable va alloc s)"

text \<open>Without \<open>alloc\<close> nothing is changed: \<open>walkaddr\<close> only returns the address.\<close>

definition walkaddr :: "nat \<Rightarrow> u64 \<Rightarrow> vmstate \<Rightarrow> nat result" where
  "walkaddr pagetable va s =
     (if va \<ge> MAXVA then Ok 0
      else bindR (walk pagetable va False s) (\<lambda>(pte, s).
        if pte = 0 then Ok 0
        else if load64 (vmem s) pte AND PTE_V = 0 then Ok 0
        else if load64 (vmem s) pte AND PTE_U = 0 then Ok 0
        else Ok (PTE2PA (load64 (vmem s) pte))))"

text \<open>Loops with an early return: the body returns \<open>Some\<close> to leave the function.\<close>

primrec for_ret :: "('i \<Rightarrow> 's \<Rightarrow> ('r option \<times> 's) result) \<Rightarrow> 'i list \<Rightarrow> 's \<Rightarrow> ('r option \<times> 's) result" where
  "for_ret f [] s = Ok (None, s)"
| "for_ret f (i # is) s = bindR (f i s) (\<lambda>(r, s). case r of None \<Rightarrow> for_ret f is s | Some x \<Rightarrow> Ok (Some x, s))"

definition mappages_step :: "nat \<Rightarrow> u64 \<Rightarrow> nat \<Rightarrow> u64 \<Rightarrow> nat \<Rightarrow> vmstate \<Rightarrow> (int option \<times> vmstate) result" where
  "mappages_step pagetable a pa perm k s =
     bindR (walk pagetable (a + of_nat (k * PGSIZE)) True s) (\<lambda>(pte, s).
       if pte = 0 then Ok (Some (- 1), s)
       else if load64 (vmem s) pte AND PTE_V \<noteq> 0 then Panic ''mappages: remap''
       else Ok (None, s\<lparr>vmem := store64 pte (PA2PTE (pa + k * PGSIZE) OR perm OR PTE_V) (vmem s)\<rparr>))"

text \<open>The loop advances \<open>a\<close> and \<open>pa\<close> by a page until \<open>a\<close> is the last page; its iterations are numbered
  from 0 here.\<close>

definition mappages :: "nat \<Rightarrow> u64 \<Rightarrow> u64 \<Rightarrow> nat \<Rightarrow> u64 \<Rightarrow> vmstate \<Rightarrow> (int \<times> vmstate) result" where
  "mappages pagetable va sz pa perm s =
     (if sz = 0 then Panic ''mappages: size''
      else let a = PGROUNDDOWN va;
               last = PGROUNDDOWN (va + sz - 1)
           in bindR (for_ret (mappages_step pagetable a pa perm) [0..<Suc (unat (last - a) div PGSIZE)] s) (\<lambda>(r, s).
              case r of Some r \<Rightarrow> Ok (r, s) | None \<Rightarrow> Ok (0, s)))"

definition kvmmap :: "nat \<Rightarrow> u64 \<Rightarrow> nat \<Rightarrow> u64 \<Rightarrow> u64 \<Rightarrow> vmstate \<Rightarrow> vmstate result" where
  "kvmmap kpgtbl va pa sz perm s =
     bindR (mappages kpgtbl va sz pa perm s) (\<lambda>(r, s). if r \<noteq> 0 then Panic ''kvmmap'' else Ok s)"

section \<open>Addresses and entries\<close>

definition vpn :: "u64 \<Rightarrow> nat" where
  "vpn va = unat va div PGSIZE"

lemma unat_MAXVA [simp]: "unat MAXVA = 2 ^ 38"
  by (simp add: MAXVA_def push_bit_eq_mult)

lemma less_MAXVA: "va < MAXVA \<longleftrightarrow> unat va < 2 ^ 38"
  by (simp add: word_less_nat_alt)

lemma below_MAXVA: "va < MAXVA \<Longrightarrow> MAXVA \<le> va \<longleftrightarrow> False"
  by auto

lemma vpn_less: "va < MAXVA \<Longrightarrow> vpn va < 2 ^ 26"
  by (simp add: vpn_def less_MAXVA PGSIZE_def less_mult_imp_div_less)

lemma unat_PGROUNDDOWN: "unat (PGROUNDDOWN va) = unat va div PGSIZE * PGSIZE"
  using unat_and_not_4095 [of va] by (simp add: PGROUNDDOWN_def PGSIZE_def)

lemma unat_uPGROUNDUP: "unat sz + PGSIZE \<le> 2 ^ 64 \<Longrightarrow> unat (uPGROUNDUP sz) = PGROUNDUP (unat sz)"
proof -
  assume *: "unat sz + PGSIZE \<le> 2 ^ 64"
  have "unat (sz + 0xFFF) = unat sz + 4095" using * by (subst unat_add64) (simp_all add: PGSIZE_def)
  moreover have "sz + 0x1000 - 1 = sz + 0xFFF" by simp
  ultimately show ?thesis
    using unat_and_not_4095 [of "sz + 0xFFF"] by (simp add: uPGROUNDUP_def PGROUNDUP_def PGSIZE_def add.commute)
qed

lemma PX_vpn: "PX level va = vpn va div 512 ^ level mod 512"
proof -
  have "unat (drop_bit (12 + 9 * level) va) = unat va div 2 ^ (12 + 9 * level)" by (rule unat_drop)
  also have "(2 :: nat) ^ (12 + 9 * level) = PGSIZE * 512 ^ level"
  proof -
    have "(2 :: nat) ^ (12 + 9 * level) = 2 ^ 12 * (2 ^ 9) ^ level" by (simp only: power_add power_mult)
    then show ?thesis by (simp add: PGSIZE_def)
  qed
  finally show ?thesis by (simp add: PX_def unat_mask9 vpn_def div_mult2_eq)
qed

lemma PX_less [simp]: "PX level va < 512"
  by (simp add: PX_vpn)

lemma and_V [simp]: "e AND PTE_V = 0 \<longleftrightarrow> even e"
  by (simp add: PTE_V_def and_one_eq even_iff_mod_2_eq_zero)

lemma PHYSTOP_less: "p < PHYSTOP \<Longrightarrow> p < 2 ^ 54"
  by (simp add: PHYSTOP_def)

lemma unat_PA2PTE: "p < PHYSTOP \<Longrightarrow> unat (PA2PTE p) = p div 4096 * 1024"
proof -
  assume "p < PHYSTOP"
  then have "p < 2 ^ 64" "p div 4096 * 1024 < 2 ^ 64" by (auto simp: PHYSTOP_def)
  then have "unat (drop_bit 12 (of_nat p :: u64)) = p div 4096" by (simp add: unat_drop unat_of_nat64)
  then show ?thesis using \<open>p div 4096 * 1024 < 2 ^ 64\<close> by (simp add: PA2PTE_def unat_push)
qed

lemma PTE2PA_PA2PTE: "p mod PGSIZE = 0 \<Longrightarrow> p < PHYSTOP \<Longrightarrow> f < 1024 \<Longrightarrow> PTE2PA (PA2PTE p OR f) = p"
proof -
  assume p: "p mod PGSIZE = 0" "p < PHYSTOP" and "f < 1024"
  then have "drop_bit 10 (PA2PTE p OR f) = drop_bit 10 (PA2PTE p)" by (simp only: drop_or_flags)
  moreover have "unat (drop_bit 10 (PA2PTE p)) = p div 4096" using p(2) by (simp add: unat_drop unat_PA2PTE)
  moreover have "p div 4096 * 4096 = p" using p(1) by (auto simp: PGSIZE_def)
  ultimately show ?thesis using PHYSTOP_less [OF p(2)] by (simp add: PTE2PA_def unat_push)
qed

lemma even_PA2PTE [simp]: "even (PA2PTE p)"
  by (simp add: PA2PTE_def)

lemma odd_or_V [simp]: "odd (x OR PTE_V)"
  by (simp add: PTE_V_def even_or_iff)

lemma PTE_V_less: "PTE_V < 1024"
  by (simp add: PTE_V_def)

lemma flags_less: "(f :: u64) < 1024 \<longleftrightarrow> take_bit 10 f = f"
proof
  assume "f < 1024"
  then have "unat f < 2 ^ 10" by (simp add: word_less_nat_alt)
  then have "unat (take_bit 10 f) = unat f" unfolding unsigned_take_bit_eq by (rule take_bit_nat_eq_self)
  then show "take_bit 10 f = f" by (rule unat_eqI)
next
  assume "take_bit 10 f = f"
  then have "unat f = take_bit 10 (unat f)" by (metis unsigned_take_bit_eq)
  then have "unat f < 2 ^ 10" by (metis take_bit_nat_less_exp)
  then show "f < 1024" by (simp add: word_less_nat_alt)
qed

lemma or_flags_less: "f < 1024 \<Longrightarrow> g < 1024 \<Longrightarrow> f OR g < (1024 :: u64)"
  by (simp only: flags_less take_bit_or)

section \<open>Page tables as trees\<close>

text \<open>
  A page table is a tree of pages: \<open>T\<close> maps the path of indices from the root to the address of the
  page-table page found there. The entries of the pages at depth 0 and 1 point to their children; the
  pages at depth 2 hold the leaf entries.
\<close>

type_synonym ptree = "nat list \<Rightarrow> nat option"

definition pt_shape :: "nat \<Rightarrow> ptree \<Rightarrow> bool" where
  "pt_shape kend T \<longleftrightarrow>
     T [] \<noteq> None \<and> inj_on T (dom T) \<and> (\<forall>p q. T p = Some q \<longrightarrow> page_ok kend q) \<and>
     (\<forall>p q. T p = Some q \<longrightarrow> length p \<le> 2 \<and> set p \<subseteq> {..<512}) \<and>
     (\<forall>p i. T p = None \<longrightarrow> T (p @ [i]) = None)"

definition entry_ok :: "mem \<Rightarrow> nat \<Rightarrow> nat option \<Rightarrow> bool" where
  "entry_ok m a c \<longleftrightarrow> (case c of None \<Rightarrow> even (load64 m a) | Some c \<Rightarrow> load64 m a = PA2PTE c OR PTE_V)"

definition pt_tree :: "nat \<Rightarrow> mem \<Rightarrow> ptree \<Rightarrow> bool" where
  "pt_tree kend m T \<longleftrightarrow> pt_shape kend T \<and>
     (\<forall>p q i. T p = Some q \<longrightarrow> length p < 2 \<longrightarrow> i < 512 \<longrightarrow> entry_ok m (q + 8 * i) (T (p @ [i])))"

text \<open>The path of a page number, and the leaf entry of each virtual page (0 where there is no leaf table).\<close>

definition vpath :: "nat \<Rightarrow> nat list" where
  "vpath v = [v div 262144, v div 512 mod 512]"

definition leaf :: "mem \<Rightarrow> ptree \<Rightarrow> nat \<Rightarrow> u64" where
  "leaf m T v = (case T (vpath v) of None \<Rightarrow> 0 | Some q \<Rightarrow> load64 m (q + 8 * (v mod 512)))"

lemma vpath_eqD: "vpath v = vpath w \<Longrightarrow> v mod 512 = w mod 512 \<Longrightarrow> v = w"
proof -
  assume p: "vpath v = vpath w" and "v mod 512 = w mod 512"
  have "v div 262144 = v div 512 div 512" "w div 262144 = w div 512 div 512" by (simp_all add: div_mult2_eq [symmetric])
  with p have "v div 512 div 512 = w div 512 div 512" "v div 512 mod 512 = w div 512 mod 512" by (simp_all add: vpath_def)
  then have "v div 512 = w div 512" by (metis div_mult_mod_eq)
  with \<open>v mod 512 = w mod 512\<close> show ?thesis by (metis div_mult_mod_eq)
qed

lemma vpath_vpn: "va < MAXVA \<Longrightarrow> vpath (vpn va) = [PX 2 va, PX 1 va] \<and> vpn va mod 512 = PX 0 va"
proof -
  assume "va < MAXVA"
  from vpn_less [OF this] have "vpn va div 262144 < 512" by simp
  then show ?thesis by (simp add: vpath_def PX_vpn power2_eq_square)
qed

lemma aligned_le: "q mod PGSIZE = 0 \<Longrightarrow> q' mod PGSIZE = 0 \<Longrightarrow> q < q' \<Longrightarrow> q + PGSIZE \<le> q'"
proof -
  assume a: "q mod PGSIZE = 0" "q' mod PGSIZE = 0" "q < q'"
  then obtain x y where "q = PGSIZE * x" "q' = PGSIZE * y" by (auto elim!: dvdE simp: mod_eq_0_iff_dvd)
  with a show ?thesis by (cases "x < y") (auto simp: PGSIZE_def)
qed

lemma entry_disjoint:
  assumes "q mod PGSIZE = 0" "q' mod PGSIZE = 0" "i < 512" "i' < 512" "(q, i) \<noteq> (q', i')"
  shows "q + 8 * i + 8 \<le> q' + 8 * i' \<or> q' + 8 * i' + 8 \<le> q + 8 * i"
proof -
  consider "q = q'" "i < i'" | "q = q'" "i' < i" | "q < q'" | "q' < q" using assms(5) by fastforce
  then show ?thesis
    using aligned_le [OF assms(1,2)] aligned_le [OF assms(2,1)] assms(3,4) by cases (auto simp: PGSIZE_def)
qed

lemma page_ok_aligned [simp]: "page_ok kend q \<Longrightarrow> q mod PGSIZE = 0"
  by (simp add: page_ok_def)

lemma load64_entry_other:
  assumes "page_ok kend q" "page_ok kend q'" "i < 512" "i' < 512" "(q, i) \<noteq> (q', i')"
  shows "load64 (store64 (q' + 8 * i') e m) (q + 8 * i) = load64 m (q + 8 * i)"
  using entry_disjoint [of q q' i i'] assms by (intro load64_store64_other) auto

lemma load64_page_memset:
  assumes "page_ok kend q" "page_ok kend c" "q \<noteq> c" "i < 512"
  shows "load64 (memset c x PGSIZE m) (q + 8 * i) = load64 m (q + 8 * i)"
proof (rule load64_cong)
  fix j :: nat
  assume "j < 8"
  have "q + PGSIZE \<le> c \<or> c + PGSIZE \<le> q"
    using aligned_le [of q c] aligned_le [of c q] assms by (auto simp: neq_iff)
  then show "memset c x PGSIZE m (q + 8 * i + j) = m (q + 8 * i + j)"
    using assms(4) \<open>j < 8\<close> by (auto simp: memset_apply PGSIZE_def)
qed

lemma pt_treeD:
  assumes "pt_tree kend m T"
  shows pt_tree_page: "T p = Some q \<Longrightarrow> page_ok kend q"
    and pt_tree_inj: "T p = Some q \<Longrightarrow> T p' = Some q \<Longrightarrow> p = p'"
    and pt_tree_path: "T p = Some q \<Longrightarrow> length p \<le> 2 \<and> set p \<subseteq> {..<512}"
    and pt_tree_prefix: "T p = None \<Longrightarrow> T (p @ [i]) = None"
    and pt_tree_entry: "T p = Some q \<Longrightarrow> length p < 2 \<Longrightarrow> i < 512 \<Longrightarrow> entry_ok m (q + 8 * i) (T (p @ [i]))"
proof -
  have shape: "pt_shape kend T" using assms by (simp add: pt_tree_def)
  show "T p = Some q \<Longrightarrow> page_ok kend q" "T p = Some q \<Longrightarrow> length p \<le> 2 \<and> set p \<subseteq> {..<512}"
    "T p = None \<Longrightarrow> T (p @ [i]) = None"
    using shape by (simp_all add: pt_shape_def)
  show "T p = Some q \<Longrightarrow> T p' = Some q \<Longrightarrow> p = p'"
  proof -
    assume "T p = Some q" "T p' = Some q"
    then have "p \<in> dom T" "p' \<in> dom T" "T p = T p'" by auto
    moreover have "inj_on T (dom T)" using shape by (simp add: pt_shape_def)
    ultimately show "p = p'" by (simp add: inj_on_eq_iff)
  qed
  show "T p = Some q \<Longrightarrow> length p < 2 \<Longrightarrow> i < 512 \<Longrightarrow> entry_ok m (q + 8 * i) (T (p @ [i]))"
    using assms by (simp add: pt_tree_def)
qed

lemma entry_ok_cong: "load64 m' a = load64 m a \<Longrightarrow> entry_ok m' a c = entry_ok m a c"
  by (cases c) (simp_all add: entry_ok_def)

lemma pt_tree_cong:
  assumes "pt_tree kend m T"
    and same: "\<And>p q i. T p = Some q \<Longrightarrow> length p < 2 \<Longrightarrow> i < 512 \<Longrightarrow> load64 m' (q + 8 * i) = load64 m (q + 8 * i)"
  shows "pt_tree kend m' T"
proof -
  have "entry_ok m' (q + 8 * i) (T (p @ [i]))" if "T p = Some q" "length p < 2" "i < 512" for p q i
    using pt_tree_entry [OF assms(1) that] entry_ok_cong [OF same [OF that]] by simp
  with assms(1) show ?thesis by (simp add: pt_tree_def)
qed

text \<open>Writing a leaf entry keeps the tree and changes the entry of one virtual page.\<close>

lemma pt_tree_store:
  assumes "pt_tree kend m T" "T p = Some q" "length p = 2" "i < 512"
  shows "pt_tree kend (store64 (q + 8 * i) e m) T"
proof (rule pt_tree_cong [OF assms(1)])
  fix p' q' and i' :: nat
  assume that: "T p' = Some q'" "length p' < 2" "i' < 512"
  have "q' \<noteq> q" using pt_tree_inj [OF assms(1,2), of p'] that assms(3) by auto
  then show "load64 (store64 (q + 8 * i) e m) (q' + 8 * i') = load64 m (q' + 8 * i')"
    using load64_entry_other [OF pt_tree_page [OF assms(1) that(1)] pt_tree_page [OF assms(1,2)] that(3) assms(4)] by simp
qed

lemma leaf_store:
  assumes "pt_tree kend m T" "T (vpath v) = Some q"
  shows "leaf (store64 (q + 8 * (v mod 512)) e m) T = (leaf m T)(v := e)"
proof
  fix w
  show "leaf (store64 (q + 8 * (v mod 512)) e m) T w = ((leaf m T)(v := e)) w"
  proof (cases "w = v \<or> T (vpath w) = None")
    case True
    then show ?thesis using assms by (auto simp: leaf_def)
  next
    case False
    then obtain q' where q': "T (vpath w) = Some q'" by auto
    then have "(q', w mod 512) \<noteq> (q, v mod 512)"
      using False pt_tree_inj [OF assms(1) q', of "vpath v"] assms(2) vpath_eqD [of w v] by auto
    then have "load64 (store64 (q + 8 * (v mod 512)) e m) (q' + 8 * (w mod 512)) = load64 m (q' + 8 * (w mod 512))"
      using load64_entry_other [OF pt_tree_page [OF assms(1) q'] pt_tree_page [OF assms(1,2)], of "w mod 512" "v mod 512"] by simp
    then show ?thesis using False q' by (simp add: leaf_def)
  qed
qed

text \<open>Linking a new zeroed page into the tree changes no leaf entry.\<close>

lemma pt_shape_extend:
  assumes "pt_shape kend T" "T p = Some q" "length p < 2" "i < 512" "T (p @ [i]) = None" "page_ok kend c" "c \<notin> ran T"
  shows "pt_shape kend (T(p @ [i] \<mapsto> c))"
proof -
  have inj: "inj_on T (dom T)" and prefix: "\<And>p i. T p = None \<Longrightarrow> T (p @ [i]) = None"
    and path: "\<And>p q. T p = Some q \<Longrightarrow> page_ok kend q \<and> length p \<le> 2 \<and> set p \<subseteq> {..<512}"
    using assms(1) by (simp_all add: pt_shape_def)
  have "inj_on (T(p @ [i] \<mapsto> c)) (dom (T(p @ [i] \<mapsto> c)))"
    using inj assms(7) unfolding inj_on_def ran_def dom_def by auto
  moreover have "page_ok kend q' \<and> length p' \<le> 2 \<and> set p' \<subseteq> {..<512}" if "(T(p @ [i] \<mapsto> c)) p' = Some q'" for p' q'
    using that path [of p' q'] path [OF assms(2)] assms(3,4,6) by (cases "p' = p @ [i]") auto
  moreover have "(T(p @ [i] \<mapsto> c)) (p' @ [i']) = None" if "(T(p @ [i] \<mapsto> c)) p' = None" for p' i'
    using that prefix [of p' i'] assms(2) by (cases "p' = p") (auto split: if_splits)
  moreover have "(T(p @ [i] \<mapsto> c)) [] \<noteq> None" using assms(1) by (simp add: pt_shape_def)
  ultimately show ?thesis unfolding pt_shape_def by blast
qed

lemma pt_tree_extend:
  assumes T: "pt_tree kend m T" "T p = Some q" "length p < 2" "i < 512" "T (p @ [i]) = None"
    and c: "page_ok kend c" "c \<notin> ran T"
  defines "m' \<equiv> store64 (q + 8 * i) (PA2PTE c OR PTE_V) (memset c 0 PGSIZE m)"
  shows "pt_tree kend m' (T(p @ [i] \<mapsto> c))" "leaf m' (T(p @ [i] \<mapsto> c)) = leaf m T"
proof -
  have qc: "q \<noteq> c" using c(2) T(2) by (auto simp: ran_def)
  have zero: "load64 m' (c + 8 * j) = 0" if "j < 512" for j
  proof -
    have "load64 m' (c + 8 * j) = load64 (memset c 0 PGSIZE m) (c + 8 * j)"
      unfolding m'_def using load64_entry_other [OF c(1) pt_tree_page [OF T(1,2)] that T(4)] qc by simp
    then show ?thesis using that by (simp add: load64_memset PGSIZE_def)
  qed
  have other: "load64 m' (q' + 8 * j) = load64 m (q' + 8 * j)" if "T p' = Some q'" "j < 512" "(p', j) \<noteq> (p, i)" for p' q' j
  proof -
    have "(q', j) \<noteq> (q, i)" using that pt_tree_inj [OF T(1,2), of p'] by auto
    moreover have "q' \<noteq> c" using that c(2) by (auto simp: ran_def)
    ultimately show ?thesis
      unfolding m'_def
      using load64_entry_other [OF pt_tree_page [OF T(1) that(1)] pt_tree_page [OF T(1,2)] that(2) T(4)]
        load64_page_memset [OF pt_tree_page [OF T(1) that(1)] c(1) _ that(2)] by simp
  qed
  show "pt_tree kend m' (T(p @ [i] \<mapsto> c))"
    unfolding pt_tree_def
  proof (intro conjI allI impI)
    show "pt_shape kend (T(p @ [i] \<mapsto> c))"
      using T c by (intro pt_shape_extend) (auto simp: pt_tree_def)
    fix p' q' j
    assume p': "(T(p @ [i] \<mapsto> c)) p' = Some q'" "length p' < 2" "(j :: nat) < 512"
    show "entry_ok m' (q' + 8 * j) ((T(p @ [i] \<mapsto> c)) (p' @ [j]))"
    proof (cases "p' = p @ [i]")
      case True
      then show ?thesis using p' zero pt_tree_prefix [OF T(1,5)] by (simp add: entry_ok_def)
    next
      case False
      then have old: "T p' = Some q'" using p'(1) by simp
      show ?thesis
      proof (cases "(p', j) = (p, i)")
        case True
        then show ?thesis using old T(2) by (simp add: entry_ok_def m'_def)
      next
        case False
        then have "entry_ok m' (q' + 8 * j) (T (p' @ [j]))"
          using pt_tree_entry [OF T(1) old p'(2,3)] entry_ok_cong [OF other [OF old p'(3)]] by simp
        with False show ?thesis by auto
      qed
    qed
  qed
  show "leaf m' (T(p @ [i] \<mapsto> c)) = leaf m T"
  proof
    fix v
    show "leaf m' (T(p @ [i] \<mapsto> c)) v = leaf m T v"
    proof (cases "vpath v = p @ [i]")
      case True
      then show ?thesis using T(5) zero by (simp add: leaf_def)
    next
      case False
      have "p \<noteq> vpath v" using T(3) by (auto simp: vpath_def)
      then show ?thesis using False other [of "vpath v"] by (auto simp: leaf_def split: option.splits)
    qed
  qed
qed

section \<open>Allocation\<close>

definition vm_ok :: "nat \<Rightarrow> vmstate \<Rightarrow> nat list \<Rightarrow> bool" where
  "vm_ok kend s ps \<longleftrightarrow> cpu_idle (vhart s) \<and> kmem_inv kend (vkmem s) ps"

definition page_of :: "nat \<Rightarrow> nat" where
  "page_of a = a div PGSIZE * PGSIZE"

text \<open>Memory is unchanged outside the given pages.\<close>

definition same_out :: "nat set \<Rightarrow> mem \<Rightarrow> mem \<Rightarrow> bool" where
  "same_out P m m' \<longleftrightarrow> (\<forall>a. page_of a \<notin> P \<longrightarrow> m' a = m a)"

lemma same_out_refl [simp]: "same_out P m m"
  by (simp add: same_out_def)

lemma same_out_trans: "same_out P m m' \<Longrightarrow> same_out Q m' m'' \<Longrightarrow> P \<union> Q \<subseteq> R \<Longrightarrow> same_out R m m''"
  unfolding same_out_def by (metis UnI1 UnI2 subsetD)

lemma same_out_mono: "same_out P m m' \<Longrightarrow> P \<subseteq> R \<Longrightarrow> same_out R m m'"
  unfolding same_out_def by blast

lemma page_of_offset: "page_ok kend q \<Longrightarrow> j < PGSIZE \<Longrightarrow> page_of (q + j) = q"
  by (auto simp: page_of_def page_ok_def div_add1_eq elim!: dvdE simp: mod_eq_0_iff_dvd)

lemma same_out_page:
  assumes "page_ok kend q" "\<And>a. a < q \<or> q + PGSIZE \<le> a \<Longrightarrow> m' a = m a"
  shows "same_out {q} m m'"
  unfolding same_out_def
proof (intro allI impI)
  fix a
  assume a: "page_of a \<notin> {q}"
  show "m' a = m a"
  proof (rule assms(2), rule ccontr)
    assume "\<not> (a < q \<or> q + PGSIZE \<le> a)"
    then have "page_of (q + (a - q)) = q" by (intro page_of_offset [OF assms(1)]) auto
    with \<open>\<not> (a < q \<or> q + PGSIZE \<le> a)\<close> a show False by simp
  qed
qed

lemma same_out_memset: "page_ok kend q \<Longrightarrow> same_out {q} m (memset q x PGSIZE m)"
  by (rule same_out_page) (auto simp: memset_apply)

lemma same_out_store64: "page_ok kend q \<Longrightarrow> i < 512 \<Longrightarrow> same_out {q} m (store64 (q + 8 * i) e m)"
  by (rule same_out_page) (auto simp: store64_apply PGSIZE_def)

lemma same_out_load64:
  assumes "same_out P m m'" "page_ok kend q" "q \<notin> P" "i < 512"
  shows "load64 m' (q + 8 * i) = load64 m (q + 8 * i)"
proof (rule load64_cong)
  fix j :: nat
  assume "j < 8"
  then have "8 * i + j < PGSIZE" using assms(4) by (simp add: PGSIZE_def)
  from page_of_offset [OF assms(2) this] have "page_of (q + 8 * i + j) = q" by (simp add: add.assoc)
  then show "m' (q + 8 * i + j) = m (q + 8 * i + j)" using assms(1,3) by (simp add: same_out_def)
qed

lemma vkalloc_Nil: "vm_ok kend s [] \<Longrightarrow> vkalloc s = Ok (0, s)"
  using kalloc_Nil [of kend "vkmem s" "vhart s"] by (simp add: vkalloc_def vm_ok_def)

lemma vkalloc_Cons:
  assumes "vm_ok kend s (p # ps)"
  obtains s1 where "vkalloc s = Ok (p, s1)" "vm_ok kend s1 ps" "vmem s1 = memset p 5 PGSIZE (vmem s)" "page_ok kend p" "p \<noteq> 0"
proof -
  have "page_ok kend p" "p \<noteq> 0" using assms by (auto simp: vm_ok_def kmem_inv_def page_ok_def)
  with kalloc_Cons [of kend "vkmem s" p ps "vhart s"] assms show thesis
    by (intro that [of "s\<lparr>vkmem := kmem_taken (vkmem s), vmem := memset p 5 PGSIZE (vmem s)\<rparr>"]) (auto simp: vkalloc_def vm_ok_def)
qed

lemma vm_ok_mem [simp]: "vm_ok kend (s\<lparr>vmem := m\<rparr>) ps = vm_ok kend s ps"
  by (simp add: vm_ok_def)

section \<open>walk\<close>

text \<open>
  From \<open>s\<close> to \<open>s'\<close> page-table pages have been taken off the free list and linked into the tree, the leaf
  entries are now \<open>f\<close>, and memory outside the page table is unchanged. \<open>grown\<close>: the leaf entries are as before.
\<close>

definition pt_to :: "nat \<Rightarrow> vmstate \<Rightarrow> ptree \<Rightarrow> nat list \<Rightarrow> vmstate \<Rightarrow> ptree \<Rightarrow> nat list \<Rightarrow> (nat \<Rightarrow> u64) \<Rightarrow> bool" where
  "pt_to kend s T ps s' T' ps' f \<longleftrightarrow>
     (\<exists>us. ps = us @ ps' \<and> ran T' = ran T \<union> set us) \<and> vm_ok kend s' ps' \<and> pt_tree kend (vmem s') T' \<and> T \<subseteq>\<^sub>m T' \<and>
     leaf (vmem s') T' = f \<and> same_out (ran T') (vmem s) (vmem s')"

abbreviation grown :: "nat \<Rightarrow> vmstate \<Rightarrow> ptree \<Rightarrow> nat list \<Rightarrow> vmstate \<Rightarrow> ptree \<Rightarrow> nat list \<Rightarrow> bool" where
  "grown kend s T ps s' T' ps' \<equiv> pt_to kend s T ps s' T' ps' (leaf (vmem s) T)"

lemma grown_refl: "vm_ok kend s ps \<Longrightarrow> pt_tree kend (vmem s) T \<Longrightarrow> grown kend s T ps s T ps"
  by (auto simp: pt_to_def)

lemma pt_to_trans:
  assumes "pt_to kend s T ps s1 T1 ps1 f" "pt_to kend s1 T1 ps1 s2 T2 ps2 g"
  shows "pt_to kend s T ps s2 T2 ps2 g"
proof -
  obtain us us' where us: "ps = us @ ps1" "ran T1 = ran T \<union> set us" "ps1 = us' @ ps2" "ran T2 = ran T1 \<union> set us'"
    using assms unfolding pt_to_def by blast
  have "same_out (ran T2) (vmem s) (vmem s2)"
    using assms us by (intro same_out_trans [of "ran T1" "vmem s" "vmem s1" "ran T2" "vmem s2"]) (auto simp: pt_to_def)
  moreover have "\<exists>us. ps = us @ ps2 \<and> ran T2 = ran T \<union> set us" using us by (intro exI [of _ "us @ us'"]) auto
  moreover have "T \<subseteq>\<^sub>m T2" using assms by (auto simp: pt_to_def intro: map_le_trans)
  ultimately show ?thesis using assms by (auto simp: pt_to_def)
qed

lemma pt_to_store:
  assumes "pt_to kend s T ps s' T' ps' f" "T' (vpath v) = Some q"
  shows "pt_to kend s T ps (s'\<lparr>vmem := store64 (q + 8 * (v mod 512)) e (vmem s')\<rparr>) T' ps' (f(v := e))"
proof -
  have T': "pt_tree kend (vmem s') T'" "leaf (vmem s') T' = f" using assms(1) by (auto simp: pt_to_def)
  have "same_out {q} (vmem s') (store64 (q + 8 * (v mod 512)) e (vmem s'))"
    by (rule same_out_store64 [OF pt_tree_page [OF T'(1) assms(2)]]) simp
  moreover have "same_out (ran T') (vmem s) (vmem s')" using assms(1) by (simp add: pt_to_def)
  moreover have "q \<in> ran T'" using assms(2) by (auto simp: ran_def)
  ultimately have "same_out (ran T') (vmem s) (store64 (q + 8 * (v mod 512)) e (vmem s'))"
    by (elim same_out_trans) auto
  moreover have "pt_tree kend (store64 (q + 8 * (v mod 512)) e (vmem s')) T'"
    by (rule pt_tree_store [OF T'(1) assms(2)]) (simp_all add: vpath_def)
  ultimately show ?thesis
    using assms(1) leaf_store [OF T'(1) assms(2)] T'(2) by (auto simp: pt_to_def)
qed

text \<open>The path to the page of level \<open>l\<close>.\<close>

definition lpath :: "u64 \<Rightarrow> nat \<Rightarrow> nat list" where
  "lpath va l = take (2 - l) [PX 2 va, PX 1 va]"

lemma lpath_Suc: "l < 2 \<Longrightarrow> lpath va l = lpath va (Suc l) @ [PX (Suc l) va]"
  by (cases l) (auto simp: lpath_def numeral_2_eq_2)

lemma lpath_length: "l \<le> 2 \<Longrightarrow> length (lpath va l) = 2 - l"
  by (simp add: lpath_def)

lemma walk_loop_alloc:
  assumes "vm_ok kend s ps" "pt_tree kend (vmem s) T" "ran T \<inter> set ps = {}" "l \<le> 2" "T (lpath va l) = Some pt"
  shows "\<exists>r s' T' ps'. walk_loop l pt va True s = Ok (r, s') \<and> grown kend s T ps s' T' ps' \<and>
    (r = 0 \<and> ps' = [] \<or> (\<exists>q. T' (lpath va 0) = Some q \<and> r = q + 8 * PX 0 va))"
  using assms
proof (induction l arbitrary: s ps T pt)
  case 0
  then show ?case using grown_refl [OF 0(1,2)] by (auto intro!: exI [of _ T] exI [of _ ps])
next
  case (Suc l)
  note path = lpath_Suc [of l va]
  let ?a = "pt + 8 * PX (Suc l) va"
  have len: "length (lpath va (Suc l)) < 2" using Suc.prems(4) by (simp add: lpath_length)
  have entry: "entry_ok (vmem s) ?a (T (lpath va l))"
    using pt_tree_entry [OF Suc.prems(2,5) len, of "PX (Suc l) va"] path Suc.prems(4) by simp
  show ?case
  proof (cases "T (lpath va l)")
    case (Some c)
    then have e: "load64 (vmem s) ?a = PA2PTE c OR PTE_V" using entry by (simp add: entry_ok_def)
    have "PTE2PA (PA2PTE c OR PTE_V) = c"
      using pt_tree_page [OF Suc.prems(2) Some] by (intro PTE2PA_PA2PTE PTE_V_less) (auto simp: page_ok_def)
    then have "walk_loop (Suc l) pt va True s = walk_loop l c va True s" by (simp add: e Let_def)
    then show ?thesis using Suc.IH [OF Suc.prems(1-3) _ Some] Suc.prems(4) by simp
  next
    case None
    then have e: "even (load64 (vmem s) ?a)" using entry by (simp add: entry_ok_def)
    show ?thesis
    proof (cases ps)
      case Nil
      then have "walk_loop (Suc l) pt va True s = Ok (0, s)"
        using e Suc.prems(1) by (simp add: vkalloc_Nil Let_def)
      then show ?thesis using Nil grown_refl Suc.prems(1,2) by fastforce
    next
      case (Cons c qs)
      from Suc.prems(1) Cons obtain s1 where s1: "vkalloc s = Ok (c, s1)" "vm_ok kend s1 qs"
        "vmem s1 = memset c 5 PGSIZE (vmem s)" "page_ok kend c" "c \<noteq> 0" by (blast intro: vkalloc_Cons)
      have c: "c \<notin> ran T" using Suc.prems(3) Cons by auto
      define m' where "m' = store64 ?a (PA2PTE c OR PTE_V) (memset c 0 PGSIZE (vmem s))"
      define s2 where "s2 = s1\<lparr>vmem := m'\<rparr>"
      define T' where "T' = T(lpath va l \<mapsto> c)"
      have mm: "memset c 0 PGSIZE (memset c 5 PGSIZE m) = memset c 0 PGSIZE m" for m
        by (auto simp: memset_apply)
      have step: "walk_loop (Suc l) pt va True s = walk_loop l c va True s2"
        using e s1 by (simp add: Let_def s2_def m'_def mm)
      have T': "pt_tree kend m' T'" "leaf m' T' = leaf (vmem s) T"
        using pt_tree_extend [OF Suc.prems(2,5) len, of "PX (Suc l) va" c] path Suc.prems(4) None s1(4) c
        by (simp_all add: T'_def m'_def)
      have "ran T' = ran T \<union> {c}" using None by (simp add: T'_def)
      moreover have "same_out {c, pt} (vmem s) m'"
        unfolding m'_def using same_out_memset [OF s1(4)] same_out_store64 [OF pt_tree_page [OF Suc.prems(2,5)]]
        by (rule same_out_trans) auto
      moreover have "pt \<in> ran T" using Suc.prems(5) by (auto simp: ran_def)
      moreover have "T \<subseteq>\<^sub>m T'" using None by (auto simp: T'_def map_le_def)
      ultimately have g: "grown kend s T ps s2 T' qs"
        using s1(2) T' Cons by (auto simp: pt_to_def s2_def intro!: exI [of _ "[c]"] elim: same_out_mono)
      have "ran T' \<inter> set qs = {}"
        using Suc.prems(1,3) Cons \<open>ran T' = ran T \<union> {c}\<close> by (auto simp: vm_ok_def kmem_inv_def)
      moreover have "vm_ok kend s2 qs" "pt_tree kend (vmem s2) T'" "T' (lpath va l) = Some c"
        using s1(2) T'(1) by (simp_all add: s2_def T'_def)
      ultimately obtain r s' T'' ps' where r: "walk_loop l c va True s2 = Ok (r, s')" "grown kend s2 T' qs s' T'' ps'"
        "r = 0 \<and> ps' = [] \<or> (\<exists>q. T'' (lpath va 0) = Some q \<and> r = q + 8 * PX 0 va)"
        using Suc.IH [of s2 qs T' c] Suc.prems(4) by auto
      then show ?thesis using pt_to_trans [OF g r(2)] step T'(2) by (auto simp: s2_def)
    qed
  qed
qed

text \<open>\<open>walk\<close> with allocation finds the leaf entry, unless the address is too high or memory runs out.\<close>

lemma walk_alloc:
  assumes "vm_ok kend s ps" "pt_tree kend (vmem s) T" "ran T \<inter> set ps = {}" "T [] = Some pt" "va < MAXVA"
  shows "\<exists>r s' T' ps'. walk pt va True s = Ok (r, s') \<and> grown kend s T ps s' T' ps' \<and>
    (r = 0 \<and> ps' = [] \<or> (\<exists>q. T' (vpath (vpn va)) = Some q \<and> r = q + 8 * (vpn va mod 512)))"
proof -
  have "T (lpath va 2) = Some pt" "lpath va 0 = vpath (vpn va)" "PX 0 va = vpn va mod 512"
    using assms(4) vpath_vpn [OF assms(5)] by (simp_all add: lpath_def)
  moreover have "walk pt va True s = walk_loop 2 pt va True s" using assms(5) by (simp add: walk_def below_MAXVA)
  ultimately show ?thesis using walk_loop_alloc [OF assms(1-3), of 2 va pt] by simp
qed

lemma walk_loop_find:
  assumes "pt_tree kend (vmem s) T" "l \<le> 2" "T (lpath va l) = Some pt"
  shows "walk_loop l pt va False s = Ok (case T (lpath va 0) of None \<Rightarrow> 0 | Some q \<Rightarrow> q + 8 * PX 0 va, s)"
  using assms(2,3)
proof (induction l arbitrary: pt)
  case 0
  then show ?case by simp
next
  case (Suc l)
  note path = lpath_Suc [of l va]
  let ?a = "pt + 8 * PX (Suc l) va"
  have len: "length (lpath va (Suc l)) < 2" using Suc.prems(1) by (simp add: lpath_length)
  have entry: "entry_ok (vmem s) ?a (T (lpath va l))"
    using pt_tree_entry [OF assms(1) Suc.prems(2) len, of "PX (Suc l) va"] path Suc.prems(1) by simp
  show ?case
  proof (cases "T (lpath va l)")
    case None
    have "T (lpath va 0) = None"
    proof (cases l)
      case (Suc k)
      then have "k = 0" using Suc.prems(1) by simp
      with Suc None pt_tree_prefix [OF assms(1)] lpath_Suc [of 0 va] show ?thesis by simp
    qed (use None in simp)
    then show ?thesis using entry None by (simp add: entry_ok_def Let_def)
  next
    case (Some c)
    then have e: "load64 (vmem s) ?a = PA2PTE c OR PTE_V" using entry by (simp add: entry_ok_def)
    have "PTE2PA (PA2PTE c OR PTE_V) = c"
      using pt_tree_page [OF assms(1) Some] by (intro PTE2PA_PA2PTE PTE_V_less) (auto simp: page_ok_def)
    then show ?thesis using Suc.IH [OF _ Some] Suc.prems(1) by (simp add: e Let_def)
  qed
qed

lemma walk_find:
  assumes "pt_tree kend (vmem s) T" "T [] = Some pt" "va < MAXVA"
  shows "walk pt va False s = Ok (case T (vpath (vpn va)) of None \<Rightarrow> 0 | Some q \<Rightarrow> q + 8 * (vpn va mod 512), s)"
proof -
  have "T (lpath va 2) = Some pt" "lpath va 0 = vpath (vpn va)" "PX 0 va = vpn va mod 512"
    using assms(2) vpath_vpn [OF assms(3)] by (simp_all add: lpath_def)
  then show ?thesis using walk_loop_find [OF assms(1), of 2 va pt] assms(3)
    by (cases "T (vpath (vpn va))") (simp_all add: walk_def below_MAXVA)
qed

lemma walk_high: "MAXVA \<le> va \<Longrightarrow> walk pt va alloc s = Ok (0, s)"
  by (simp add: walk_def)

lemma pt_tree_pos: "pt_tree kend m T \<Longrightarrow> T p = Some q \<Longrightarrow> 0 < q"
  by (drule (1) pt_tree_page) (simp add: page_ok_def)

lemma walk_entry:
  assumes "pt_tree kend (vmem s) T" "T [] = Some pt" "va < MAXVA"
  shows "walk pt va False s = Ok (0, s) \<and> leaf (vmem s) T (vpn va) = 0 \<or>
    (\<exists>q. T (vpath (vpn va)) = Some q \<and> walk pt va False s = Ok (q + 8 * (vpn va mod 512), s) \<and> 0 < q \<and>
       leaf (vmem s) T (vpn va) = load64 (vmem s) (q + 8 * (vpn va mod 512)))"
  using walk_find [OF assms] pt_tree_pos [OF assms(1), of "vpath (vpn va)"]
  by (cases "T (vpath (vpn va))") (auto simp: leaf_def)

text \<open>\<open>walkaddr\<close> is the translation of user addresses.\<close>

definition user_pa :: "mem \<Rightarrow> ptree \<Rightarrow> u64 \<Rightarrow> nat" where
  "user_pa m T va =
     (let e = leaf m T (vpn va) in if va < MAXVA \<and> odd e \<and> e AND PTE_U \<noteq> 0 then PTE2PA e else 0)"

lemma walkaddr_user_pa:
  assumes "pt_tree kend (vmem s) T" "T [] = Some pt"
  shows "walkaddr pt va s = Ok (user_pa (vmem s) T va)"
proof (cases "va < MAXVA")
  case True
  then show ?thesis
    using walk_entry [OF assms True] by (auto simp: walkaddr_def user_pa_def Let_def)
next
  case False
  then have "MAXVA \<le> va" by simp
  with False show ?thesis by (simp only: walkaddr_def user_pa_def Let_def if_True if_False simp_thms)
qed

section \<open>mappages\<close>

lemma for_ret_append:
  "for_ret f (xs @ ys) s =
     bindR (for_ret f xs s) (\<lambda>(r, s). case r of None \<Rightarrow> for_ret f ys s | Some x \<Rightarrow> Ok (Some x, s))"
proof (induction xs arbitrary: s)
  case (Cons x xs)
  then show ?case by (cases "f x s") (auto split: option.splits)
qed simp

lemma for_ret_upt_rule:
  assumes init: "I 0 s"
    and step: "\<And>k s. k < n \<Longrightarrow> I k s \<Longrightarrow>
      (\<exists>s'. f k s = Ok (None, s') \<and> I (Suc k) s') \<or> (\<exists>x s'. f k s = Ok (Some x, s') \<and> Q x s')"
  shows "(\<exists>s'. for_ret f [0..<n] s = Ok (None, s') \<and> I n s') \<or> (\<exists>x s'. for_ret f [0..<n] s = Ok (Some x, s') \<and> Q x s')"
  using step
proof (induction n)
  case 0
  with init show ?case by simp
next
  case (Suc n)
  have split: "for_ret f [0..<Suc n] s = bindR (for_ret f [0..<n] s) (\<lambda>(r, s). case r of None \<Rightarrow> for_ret f [n] s | Some x \<Rightarrow> Ok (Some x, s))"
    by (simp add: upt_Suc for_ret_append)
  from Suc consider s1 where "for_ret f [0..<n] s = Ok (None, s1)" "I n s1" | x s1 where "for_ret f [0..<n] s = Ok (Some x, s1)" "Q x s1"
    by (metis less_SucI)
  then show ?case
  proof cases
    case 1
    from Suc.prems [OF lessI 1(2)] show ?thesis using split 1(1) by auto
  next
    case 2
    then show ?thesis using split by auto
  qed
qed

lemma PA2PTE_flags: "PTE2PA (PA2PTE p OR perm OR PTE_V) = p"
  if "p mod PGSIZE = 0" "p < PHYSTOP" "perm < 1024"
  using PTE2PA_PA2PTE [OF that(1,2) or_flags_less [OF that(3) PTE_V_less]] by (simp add: or.assoc)

text \<open>One page: the entry is set, or memory ran out and nothing is mapped.\<close>

lemma mappages_step_spec:
  assumes "vm_ok kend s ps" "pt_tree kend (vmem s) T" "ran T \<inter> set ps = {}" "T [] = Some pt"
    and "a + of_nat (k * PGSIZE) < MAXVA" "even (leaf (vmem s) T (vpn (a + of_nat (k * PGSIZE))))"
  defines "v \<equiv> vpn (a + of_nat (k * PGSIZE))"
  shows "\<exists>s' T' ps'. grown kend s T ps s' T' ps' \<and>
    (mappages_step pt a pa perm k s = Ok (Some (- 1), s') \<and> ps' = [] \<or>
     (\<exists>q. T' (vpath v) = Some q \<and> mappages_step pt a pa perm k s =
        Ok (None, s'\<lparr>vmem := store64 (q + 8 * (v mod 512)) (PA2PTE (pa + k * PGSIZE) OR perm OR PTE_V) (vmem s')\<rparr>)))"
proof -
  obtain r s' T' ps' where w: "walk pt (a + of_nat (k * PGSIZE)) True s = Ok (r, s')" "grown kend s T ps s' T' ps'"
    "r = 0 \<and> ps' = [] \<or> (\<exists>q. T' (vpath v) = Some q \<and> r = q + 8 * (v mod 512))"
    using walk_alloc [OF assms(1-5)] unfolding v_def by blast
  from w(3) show ?thesis
  proof
    assume "r = 0 \<and> ps' = []"
    then show ?thesis using w(1,2) by (auto simp: mappages_step_def)
  next
    assume "\<exists>q. T' (vpath v) = Some q \<and> r = q + 8 * (v mod 512)"
    then obtain q where q: "T' (vpath v) = Some q" "r = q + 8 * (v mod 512)" by blast
    have T': "pt_tree kend (vmem s') T'" "leaf (vmem s') T' = leaf (vmem s) T" using w(2) by (auto simp: pt_to_def)
    have "0 < r" using pt_tree_pos [OF T'(1) q(1)] q(2) by simp
    moreover have "even (load64 (vmem s') r)"
      using assms(6) T'(2) q by (auto simp: v_def leaf_def dest: fun_cong [of _ _ v])
    ultimately show ?thesis using w(1,2) q by (auto simp: mappages_step_def)
  qed
qed

definition mapped :: "(nat \<Rightarrow> u64) \<Rightarrow> nat \<Rightarrow> nat \<Rightarrow> u64 \<Rightarrow> nat \<Rightarrow> nat \<Rightarrow> u64" where
  "mapped f v0 pa perm n = (\<lambda>v. if v0 \<le> v \<and> v < v0 + n then PA2PTE (pa + (v - v0) * PGSIZE) OR perm OR PTE_V else f v)"

lemma mapped_0 [simp]: "mapped f v0 pa perm 0 = f"
  by (auto simp: mapped_def fun_eq_iff)

lemma mapped_Suc: "mapped f v0 pa perm (Suc n) = (mapped f v0 pa perm n)(v0 + n := PA2PTE (pa + n * PGSIZE) OR perm OR PTE_V)"
  by (auto simp: mapped_def fun_eq_iff less_Suc_eq)

lemma pt_to_disjoint: "pt_to kend s T ps s' T' ps' f \<Longrightarrow> ran T \<inter> set ps = {} \<Longrightarrow> distinct ps \<Longrightarrow> ran T' \<inter> set ps' = {}"
  by (auto simp: pt_to_def)

lemma pt_to_root: "pt_to kend s T ps s' T' ps' f \<Longrightarrow> T [] = Some pt \<Longrightarrow> T' [] = Some pt"
  unfolding pt_to_def map_le_def by (metis domI)

lemma vm_ok_distinct: "vm_ok kend s ps \<Longrightarrow> distinct ps"
  by (simp add: vm_ok_def kmem_inv_def)

text \<open>The addresses of the loop.\<close>

lemma mappages_addr:
  assumes "unat va + k * PGSIZE < 2 ^ 38"
  shows "PGROUNDDOWN va + of_nat (k * PGSIZE) < MAXVA" "vpn (PGROUNDDOWN va + of_nat (k * PGSIZE)) = vpn va + k"
proof -
  note u = unat_PGROUNDDOWN
  have k: "unat (of_nat (k * PGSIZE) :: u64) = k * PGSIZE" using assms by (intro unat_of_nat64) simp
  have "unat va div PGSIZE * PGSIZE \<le> unat va" by simp
  then have lt: "unat va div PGSIZE * PGSIZE + k * PGSIZE < 2 ^ 38" using assms by linarith
  have "unat (PGROUNDDOWN va + of_nat (k * PGSIZE)) = unat va div PGSIZE * PGSIZE + k * PGSIZE"
    using lt by (subst unat_add64) (simp_all add: u k del: of_nat_mult)
  then show "PGROUNDDOWN va + of_nat (k * PGSIZE) < MAXVA" "vpn (PGROUNDDOWN va + of_nat (k * PGSIZE)) = vpn va + k"
    using lt by (simp_all add: less_MAXVA vpn_def PGSIZE_def add.commute del: of_nat_mult)
qed

lemma mappages_loop:
  assumes "vm_ok kend s ps" "pt_tree kend (vmem s) T" "ran T \<inter> set ps = {}" "T [] = Some pt"
    and "unat va + n * PGSIZE < 2 ^ 38 + PGSIZE" "\<And>k. k < n \<Longrightarrow> even (leaf (vmem s) T (vpn va + k))"
  shows "(\<exists>s'. for_ret (mappages_step pt (PGROUNDDOWN va) pa perm) [0..<n] s = Ok (None, s') \<and>
       (\<exists>T' ps'. pt_to kend s T ps s' T' ps' (mapped (leaf (vmem s) T) (vpn va) pa perm n))) \<or>
    (\<exists>x s'. for_ret (mappages_step pt (PGROUNDDOWN va) pa perm) [0..<n] s = Ok (Some x, s') \<and> x = - 1 \<and>
       (\<exists>k T'. k < n \<and> pt_to kend s T ps s' T' [] (mapped (leaf (vmem s) T) (vpn va) pa perm k)))"
proof (rule for_ret_upt_rule)
  show "\<exists>T' ps'. pt_to kend s T ps s T' ps' (mapped (leaf (vmem s) T) (vpn va) pa perm 0)"
    using grown_refl [OF assms(1,2)] by auto
  fix k s1
  assume k: "k < n" and "\<exists>T' ps'. pt_to kend s T ps s1 T' ps' (mapped (leaf (vmem s) T) (vpn va) pa perm k)"
  then obtain T1 ps1 where I: "pt_to kend s T ps s1 T1 ps1 (mapped (leaf (vmem s) T) (vpn va) pa perm k)" by blast
  have "(k + 1) * PGSIZE \<le> n * PGSIZE" using k by (intro mult_right_mono) auto
  then have "unat va + k * PGSIZE < 2 ^ 38" using assms(5) by (simp add: PGSIZE_def)
  note addr = mappages_addr [OF this]
  have T1: "vm_ok kend s1 ps1" "pt_tree kend (vmem s1) T1" "leaf (vmem s1) T1 = mapped (leaf (vmem s) T) (vpn va) pa perm k"
    using I by (auto simp: pt_to_def)
  have "even (leaf (vmem s1) T1 (vpn va + k))" using assms(6) [OF k] by (simp add: T1(3) mapped_def)
  then obtain s2 T2 ps2 where g: "grown kend s1 T1 ps1 s2 T2 ps2" and
    step: "mappages_step pt (PGROUNDDOWN va) pa perm k s1 = Ok (Some (- 1), s2) \<and> ps2 = [] \<or>
     (\<exists>q. T2 (vpath (vpn va + k)) = Some q \<and> mappages_step pt (PGROUNDDOWN va) pa perm k s1 =
        Ok (None, s2\<lparr>vmem := store64 (q + 8 * ((vpn va + k) mod 512)) (PA2PTE (pa + k * PGSIZE) OR perm OR PTE_V) (vmem s2)\<rparr>))"
    using mappages_step_spec [OF T1(1,2) pt_to_disjoint [OF I assms(3) vm_ok_distinct [OF assms(1)]]
        pt_to_root [OF I assms(4)], of "PGROUNDDOWN va" k pa perm] addr
    by auto
  have I2: "pt_to kend s T ps s2 T2 ps2 (mapped (leaf (vmem s) T) (vpn va) pa perm k)"
    using pt_to_trans [OF I g] T1(3) by simp
  from step show "(\<exists>s'. mappages_step pt (PGROUNDDOWN va) pa perm k s1 = Ok (None, s') \<and>
       (\<exists>T' ps'. pt_to kend s T ps s' T' ps' (mapped (leaf (vmem s) T) (vpn va) pa perm (Suc k)))) \<or>
    (\<exists>x s'. mappages_step pt (PGROUNDDOWN va) pa perm k s1 = Ok (Some x, s') \<and> x = - 1 \<and>
       (\<exists>k T'. k < n \<and> pt_to kend s T ps s' T' [] (mapped (leaf (vmem s) T) (vpn va) pa perm k)))"
  proof
    assume "mappages_step pt (PGROUNDDOWN va) pa perm k s1 = Ok (Some (- 1), s2) \<and> ps2 = []"
    then show ?thesis using I2 k by auto
  next
    assume "\<exists>q. T2 (vpath (vpn va + k)) = Some q \<and> mappages_step pt (PGROUNDDOWN va) pa perm k s1 =
        Ok (None, s2\<lparr>vmem := store64 (q + 8 * ((vpn va + k) mod 512)) (PA2PTE (pa + k * PGSIZE) OR perm OR PTE_V) (vmem s2)\<rparr>)"
    then obtain q where q: "T2 (vpath (vpn va + k)) = Some q" "mappages_step pt (PGROUNDDOWN va) pa perm k s1 =
        Ok (None, s2\<lparr>vmem := store64 (q + 8 * ((vpn va + k) mod 512)) (PA2PTE (pa + k * PGSIZE) OR perm OR PTE_V) (vmem s2)\<rparr>)"
      by blast
    from pt_to_store [OF I2 q(1)] q(2) show ?thesis unfolding mapped_Suc by blast
  qed
qed

text \<open>A range that ends below \<open>MAXVA\<close> and is not mapped yet.\<close>

definition range_pages :: "u64 \<Rightarrow> u64 \<Rightarrow> nat" where
  "range_pages va sz = vpn (va + sz - 1) - vpn va + 1"

lemma mappages_count:
  assumes "0 < sz" "unat va + unat sz \<le> 2 ^ 38"
  shows "Suc (unat (PGROUNDDOWN (va + sz - 1) - PGROUNDDOWN va) div PGSIZE) = range_pages va sz"
    "unat va + range_pages va sz * PGSIZE < 2 ^ 38 + PGSIZE"
proof -
  have sz: "0 < unat sz" using assms(1) by (simp add: word_less_nat_alt)
  have "unat (va + sz) = unat va + unat sz" using assms by (intro unat_add64) simp
  moreover have "unat (va + sz - 1) = unat (va + sz) - unat (1 :: u64)"
    using calculation sz by (intro unat_sub64) simp
  ultimately have e: "unat (va + sz - 1) = unat va + unat sz - 1" by simp
  have le: "unat va div PGSIZE \<le> (unat va + unat sz - 1) div PGSIZE" using sz by (intro div_le_mono) simp
  then have "unat va div PGSIZE * PGSIZE \<le> (unat va + unat sz - 1) div PGSIZE * PGSIZE" by (rule mult_right_mono) simp
  then have "unat (PGROUNDDOWN (va + sz - 1) - PGROUNDDOWN va) = ((unat va + unat sz - 1) div PGSIZE - unat va div PGSIZE) * PGSIZE"
    by (subst unat_sub64) (simp_all add: unat_PGROUNDDOWN e diff_mult_distrib)
  then show "Suc (unat (PGROUNDDOWN (va + sz - 1) - PGROUNDDOWN va) div PGSIZE) = range_pages va sz"
    by (simp add: range_pages_def vpn_def e PGSIZE_def)
  have "range_pages va sz * PGSIZE = (unat va + unat sz - 1) div PGSIZE * PGSIZE - unat va div PGSIZE * PGSIZE + PGSIZE"
    by (simp add: range_pages_def vpn_def e diff_mult_distrib add_mult_distrib)
  moreover have "(unat va + unat sz - 1) div PGSIZE * PGSIZE + PGSIZE \<le> 2 ^ 38"
  proof -
    have "(unat va + unat sz - 1) div PGSIZE < 2 ^ 26" using assms(2) sz by (simp add: PGSIZE_def)
    then show ?thesis by (simp add: PGSIZE_def)
  qed
  moreover have "unat va < unat va div PGSIZE * PGSIZE + PGSIZE" 
    using dividend_less_div_times [of PGSIZE "unat va"] by (simp add: PGSIZE_def)
  ultimately show "unat va + range_pages va sz * PGSIZE < 2 ^ 38 + PGSIZE"
    using assms(2) sz by linarith
qed

lemma mappages_spec:
  assumes "vm_ok kend s ps" "pt_tree kend (vmem s) T" "ran T \<inter> set ps = {}" "T [] = Some pt"
    and "0 < sz" "unat va + unat sz \<le> 2 ^ 38" "\<And>k. k < range_pages va sz \<Longrightarrow> even (leaf (vmem s) T (vpn va + k))"
  shows "\<exists>r s' T' ps' k. mappages pt va sz pa perm s = Ok (r, s') \<and>
    pt_to kend s T ps s' T' ps' (mapped (leaf (vmem s) T) (vpn va) pa perm k) \<and>
    (r = 0 \<and> k = range_pages va sz \<or> r = - 1 \<and> k < range_pages va sz \<and> ps' = [])"
proof -
  note n = mappages_count [OF assms(5,6)]
  have "mappages pt va sz pa perm s =
    bindR (for_ret (mappages_step pt (PGROUNDDOWN va) pa perm) [0..<range_pages va sz] s) (\<lambda>(r, s).
      case r of Some r \<Rightarrow> Ok (r, s) | None \<Rightarrow> Ok (0, s))"
    using assms(5) unfolding mappages_def Let_def n(1) by simp
  then show ?thesis
    using mappages_loop [OF assms(1-4) n(2) assms(7), of pa perm] by fastforce
qed

end
