(* ===== verification/Vm.thy ===== *)
theory Vm
  imports Page_Table
begin

text \<open>
  User address spaces (second half of kernel/vm.c) and the kernel page table: allocation, release and
  copying of user memory, \<open>copyin\<close>, \<open>copyout\<close>, \<open>copyinstr\<close>, \<open>kvmmake\<close> with \<open>proc_mapstacks\<close> of
  kernel/proc.c.
\<close>

unbundle bit_operations_syntax

section \<open>Unmapping and freeing\<close>

text \<open>The addresses of the loop \<open>for (a = va; a < end; a += PGSIZE)\<close>.\<close>

definition page_steps :: "u64 \<Rightarrow> u64 \<Rightarrow> u64 list" where
  "page_steps va e = map (\<lambda>k. va + of_nat (k * PGSIZE)) [0..<(unat e - unat va + PGSIZE - 1) div PGSIZE]"

definition uvmunmap_step :: "nat \<Rightarrow> nat \<Rightarrow> bool \<Rightarrow> u64 \<Rightarrow> vmstate \<Rightarrow> vmstate result" where
  "uvmunmap_step kend pagetable do_free a s =
     bindR (walk pagetable a False s) (\<lambda>(pte, s).
       if pte = 0 then Panic ''uvmunmap: walk''
       else if load64 (vmem s) pte AND PTE_V = 0 then Panic ''uvmunmap: not mapped''
       else if PTE_FLAGS (load64 (vmem s) pte) = PTE_V then Panic ''uvmunmap: not a leaf''
       else bindR (if do_free then vkfree kend (PTE2PA (load64 (vmem s) pte)) s else Ok s) (\<lambda>s.
            Ok (s\<lparr>vmem := store64 pte 0 (vmem s)\<rparr>)))"

definition uvmunmap :: "nat \<Rightarrow> nat \<Rightarrow> u64 \<Rightarrow> u64 \<Rightarrow> bool \<Rightarrow> vmstate \<Rightarrow> vmstate result" where
  "uvmunmap kend pagetable va npages do_free s =
     (if va mod 0x1000 \<noteq> 0 then Panic ''uvmunmap: not aligned''
      else for_each (uvmunmap_step kend pagetable do_free) (page_steps va (va + npages * 0x1000)) s)"

text \<open>\<open>npages\<close> is an \<open>int\<close> that is passed on as \<open>uint64\<close>.\<close>

definition uvmdealloc :: "nat \<Rightarrow> nat \<Rightarrow> u64 \<Rightarrow> u64 \<Rightarrow> vmstate \<Rightarrow> (u64 \<times> vmstate) result" where
  "uvmdealloc kend pagetable oldsz newsz s =
     (if newsz \<ge> oldsz then Ok (oldsz, s)
      else bindR
        (if uPGROUNDUP newsz < uPGROUNDUP oldsz
         then let npages = ucast ((uPGROUNDUP oldsz - uPGROUNDUP newsz) div 0x1000) :: 32 word
              in uvmunmap kend pagetable (uPGROUNDUP newsz) (scast npages) True s
         else Ok s) (\<lambda>s. Ok (newsz, s)))"

text \<open>The recursion of \<open>freewalk\<close> follows the page table, whose depth is 3; \<open>depth\<close> bounds it.\<close>

fun freewalk :: "nat \<Rightarrow> nat \<Rightarrow> nat \<Rightarrow> vmstate \<Rightarrow> vmstate result" where
  "freewalk 0 kend pagetable s = Fault"
| "freewalk (Suc depth) kend pagetable s =
     bindR (for_each (\<lambda>i s.
         let pte = load64 (vmem s) (pagetable + 8 * i)
         in if pte AND PTE_V \<noteq> 0 \<and> pte AND (PTE_R OR PTE_W OR PTE_X) = 0
            then bindR (freewalk depth kend (PTE2PA pte) s) (\<lambda>s.
                   Ok (s\<lparr>vmem := store64 (pagetable + 8 * i) 0 (vmem s)\<rparr>))
            else if pte AND PTE_V \<noteq> 0 then Panic ''freewalk: leaf''
            else Ok s)
       [0..<512] s) (vkfree kend pagetable)"

definition uvmfree :: "nat \<Rightarrow> nat \<Rightarrow> u64 \<Rightarrow> vmstate \<Rightarrow> vmstate result" where
  "uvmfree kend pagetable sz s =
     bindR (if sz > 0 then uvmunmap kend pagetable 0 (uPGROUNDUP sz div 0x1000) True s else Ok s)
       (freewalk 3 kend pagetable)"

section \<open>Creating and growing\<close>

definition uvmcreate :: "vmstate \<Rightarrow> (nat \<times> vmstate) result" where
  "uvmcreate s =
     bindR (vkalloc s) (\<lambda>(pagetable, s).
       if pagetable = 0 then Ok (0, s)
       else Ok (pagetable, s\<lparr>vmem := memset pagetable 0 PGSIZE (vmem s)\<rparr>))"

text \<open>The result of \<open>kalloc\<close> is not tested here; \<open>memset\<close> on a null pointer is a fault. The result of
  \<open>mappages\<close> is ignored.\<close>

definition uvmfirst :: "nat \<Rightarrow> byte list \<Rightarrow> vmstate \<Rightarrow> vmstate result" where
  "uvmfirst pagetable src s =
     (if length src \<ge> PGSIZE then Panic ''uvmfirst: more than a page''
      else bindR (vkalloc s) (\<lambda>(mem, s).
        if mem = 0 then Fault
        else bindR (mappages pagetable 0 0x1000 mem (PTE_W OR PTE_R OR PTE_X OR PTE_U)
                      (s\<lparr>vmem := memset mem 0 PGSIZE (vmem s)\<rparr>)) (\<lambda>(_, s).
             Ok (s\<lparr>vmem := put_bytes mem src (vmem s)\<rparr>))))"

definition uvmalloc_step :: "nat \<Rightarrow> nat \<Rightarrow> u64 \<Rightarrow> u64 \<Rightarrow> u64 \<Rightarrow> vmstate \<Rightarrow> (u64 option \<times> vmstate) result" where
  "uvmalloc_step kend pagetable oldsz xperm a s =
     bindR (vkalloc s) (\<lambda>(mem, s).
       if mem = 0 then bindR (uvmdealloc kend pagetable a oldsz s) (\<lambda>(_, s). Ok (Some 0, s))
       else bindR (mappages pagetable a 0x1000 mem (PTE_R OR PTE_U OR xperm)
                     (s\<lparr>vmem := memset mem 0 PGSIZE (vmem s)\<rparr>)) (\<lambda>(r, s).
            if r \<noteq> 0
            then bindR (vkfree kend mem s) (\<lambda>s.
                 bindR (uvmdealloc kend pagetable a oldsz s) (\<lambda>(_, s). Ok (Some 0, s)))
            else Ok (None, s)))"

definition uvmalloc :: "nat \<Rightarrow> nat \<Rightarrow> u64 \<Rightarrow> u64 \<Rightarrow> u64 \<Rightarrow> vmstate \<Rightarrow> (u64 \<times> vmstate) result" where
  "uvmalloc kend pagetable oldsz newsz xperm s =
     (if newsz < oldsz then Ok (oldsz, s)
      else let oldsz = uPGROUNDUP oldsz
           in bindR (for_ret (uvmalloc_step kend pagetable oldsz xperm) (page_steps oldsz newsz) s) (\<lambda>(r, s).
              case r of Some r \<Rightarrow> Ok (r, s) | None \<Rightarrow> Ok (newsz, s)))"

definition uvmcopy_step :: "nat \<Rightarrow> nat \<Rightarrow> nat \<Rightarrow> u64 \<Rightarrow> vmstate \<Rightarrow> (int option \<times> vmstate) result" where
  "uvmcopy_step kend old new i s =
     bindR (walk old i False s) (\<lambda>(pte, s).
       if pte = 0 then Panic ''uvmcopy: pte should exist''
       else if load64 (vmem s) pte AND PTE_V = 0 then Panic ''uvmcopy: page not present''
       else
         let pa = PTE2PA (load64 (vmem s) pte);
             flags = PTE_FLAGS (load64 (vmem s) pte);
             err = (\<lambda>s. bindR (uvmunmap kend new 0 (i div 0x1000) True s) (\<lambda>s. Ok (Some (- 1), s)))
         in bindR (vkalloc s) (\<lambda>(mem, s).
            if mem = 0 then err s
            else bindR (mappages new i 0x1000 mem flags (s\<lparr>vmem := memmove mem pa PGSIZE (vmem s)\<rparr>)) (\<lambda>(r, s).
                 if r \<noteq> 0 then bindR (vkfree kend mem s) err
                 else Ok (None, s))))"

definition uvmcopy :: "nat \<Rightarrow> nat \<Rightarrow> nat \<Rightarrow> u64 \<Rightarrow> vmstate \<Rightarrow> (int \<times> vmstate) result" where
  "uvmcopy kend old new sz s =
     bindR (for_ret (uvmcopy_step kend old new) (page_steps 0 sz) s) (\<lambda>(r, s).
       case r of Some r \<Rightarrow> Ok (r, s) | None \<Rightarrow> Ok (0, s))"

definition uvmclear :: "nat \<Rightarrow> u64 \<Rightarrow> vmstate \<Rightarrow> vmstate result" where
  "uvmclear pagetable va s =
     bindR (walk pagetable va False s) (\<lambda>(pte, s).
       if pte = 0 then Panic ''uvmclear''
       else Ok (s\<lparr>vmem := store64 pte (load64 (vmem s) pte AND NOT PTE_U) (vmem s)\<rparr>))"

section \<open>Copying between kernel and user memory\<close>

text \<open>The kernel side of a copy is a buffer of its own, a list of bytes.\<close>

lemma page_rest: "0 < PGSIZE - unat ((va :: u64) - PGROUNDDOWN va)" "unat (va - PGROUNDDOWN va) = unat va mod PGSIZE"
proof -
  have "unat (va - PGROUNDDOWN va) = unat va - unat va div PGSIZE * PGSIZE"
    by (subst unat_sub64) (simp_all add: unat_PGROUNDDOWN)
  then show "unat (va - PGROUNDDOWN va) = unat va mod PGSIZE" by (simp add: minus_div_mult_eq_mod)
  then show "0 < PGSIZE - unat (va - PGROUNDDOWN va)" by (simp add: PGSIZE_def)
qed

function copyout :: "nat \<Rightarrow> u64 \<Rightarrow> byte list \<Rightarrow> vmstate \<Rightarrow> (int \<times> vmstate) result" where
  "copyout pagetable dstva src s =
     (if src = [] then Ok (0, s)
      else let va0 = PGROUNDDOWN dstva
           in bindR (walkaddr pagetable va0 s) (\<lambda>pa0.
              if pa0 = 0 then Ok (- 1, s)
              else let n = min (PGSIZE - unat (dstva - va0)) (length src)
                   in copyout pagetable (va0 + 0x1000) (drop n src)
                        (s\<lparr>vmem := put_bytes (pa0 + unat (dstva - va0)) (take n src) (vmem s)\<rparr>)))"
  by pat_completeness auto
termination
  by (relation "measure (\<lambda>(_, _, src, _). length src)") (use page_rest(1) in auto)

function copyin :: "nat \<Rightarrow> u64 \<Rightarrow> nat \<Rightarrow> vmstate \<Rightarrow> (int \<times> byte list) result" where
  "copyin pagetable srcva len s =
     (if len = 0 then Ok (0, [])
      else let va0 = PGROUNDDOWN srcva
           in bindR (walkaddr pagetable va0 s) (\<lambda>pa0.
              if pa0 = 0 then Ok (- 1, [])
              else let n = min (PGSIZE - unat (srcva - va0)) len
                   in bindR (copyin pagetable (va0 + 0x1000) (len - n) s) (\<lambda>(r, dst).
                      Ok (r, get_bytes (vmem s) (pa0 + unat (srcva - va0)) n @ dst))))"
  by pat_completeness auto
termination
  by (relation "measure (\<lambda>(_, _, len, _). len)") (use page_rest(1) in auto)

text \<open>The inner loop of \<open>copyinstr\<close>: at most \<open>n\<close> bytes from \<open>p\<close>, up to a NUL byte.\<close>

fun copy_str :: "mem \<Rightarrow> nat \<Rightarrow> nat \<Rightarrow> bool \<times> byte list" where
  "copy_str m p 0 = (False, [])"
| "copy_str m p (Suc n) =
     (if m p = 0 then (True, [0]) else let (got_null, dst) = copy_str m (p + 1) n in (got_null, m p # dst))"

function copyinstr :: "nat \<Rightarrow> u64 \<Rightarrow> nat \<Rightarrow> vmstate \<Rightarrow> (int \<times> byte list) result" where
  "copyinstr pagetable srcva maxn s =
     (if maxn = 0 then Ok (- 1, [])
      else let va0 = PGROUNDDOWN srcva
           in bindR (walkaddr pagetable va0 s) (\<lambda>pa0.
              if pa0 = 0 then Ok (- 1, [])
              else let n = min (PGSIZE - unat (srcva - va0)) maxn;
                       (got_null, dst) = copy_str (vmem s) (pa0 + unat (srcva - va0)) n
                   in if got_null then Ok (0, dst)
                      else bindR (copyinstr pagetable (va0 + 0x1000) (maxn - n) s) (\<lambda>(r, dst').
                           Ok (r, dst @ dst'))))"
  by pat_completeness auto
termination
  by (relation "measure (\<lambda>(_, _, maxn, _). maxn)") (use page_rest(1) in auto)

declare copyout.simps [simp del] copyin.simps [simp del] copyinstr.simps [simp del]

section \<open>The kernel page table\<close>

definition UART0 :: nat where "UART0 = 0x10000000"

definition VIRTIO0 :: nat where "VIRTIO0 = 0x10001000"

definition VIRTIOX :: "nat \<Rightarrow> nat" where "VIRTIOX x = VIRTIO0 + x * 0x1000"

definition PLIC :: nat where "PLIC = 0x0c000000"

definition KERNBASE :: nat where "KERNBASE = 0x80000000"

definition TRAMPOLINE :: u64 where "TRAMPOLINE = MAXVA - 0x1000"

definition TRAPFRAME :: u64 where "TRAPFRAME = TRAMPOLINE - 0x1000"

definition KSTACK :: "nat \<Rightarrow> u64" where "KSTACK p = TRAMPOLINE - (of_nat p + 1) * 2 * 0x1000"

definition NPROC :: nat where "NPROC = 64"

definition proc_mapstacks :: "nat \<Rightarrow> vmstate \<Rightarrow> vmstate result" where
  "proc_mapstacks kpgtbl s =
     for_each (\<lambda>i s.
       bindR (vkalloc s) (\<lambda>(pa, s).
         if pa = 0 then Panic ''kalloc''
         else kvmmap kpgtbl (KSTACK i) pa 0x1000 (PTE_R OR PTE_W) s)) [0..<NPROC] s"

text \<open>\<open>etext\<close> and \<open>trampoline\<close> are addresses set by the linker, \<open>disks\<close> the number of RAID disks set by the
  makefile. A null pointer from \<open>kalloc\<close> is passed to \<open>memset\<close> unchecked.\<close>

definition kvmmake :: "nat \<Rightarrow> nat \<Rightarrow> nat \<Rightarrow> vmstate \<Rightarrow> (nat \<times> vmstate) result" where
  "kvmmake disks etext trampoline s =
     bindR (vkalloc s) (\<lambda>(kpgtbl, s).
       if kpgtbl = 0 then Fault
       else
       bindR (kvmmap kpgtbl (of_nat UART0) UART0 0x1000 (PTE_R OR PTE_W) (s\<lparr>vmem := memset kpgtbl 0 PGSIZE (vmem s)\<rparr>)) (\<lambda>s.
       bindR (kvmmap kpgtbl (of_nat VIRTIO0) VIRTIO0 0x1000 (PTE_R OR PTE_W) s) (\<lambda>s.
       bindR (for_each (\<lambda>i. kvmmap kpgtbl (of_nat (VIRTIOX i)) (VIRTIOX i) 0x1000 (PTE_R OR PTE_W)) [1..<disks + 1] s) (\<lambda>s.
       bindR (kvmmap kpgtbl (of_nat PLIC) PLIC 0x400000 (PTE_R OR PTE_W) s) (\<lambda>s.
       bindR (kvmmap kpgtbl (of_nat KERNBASE) KERNBASE (of_nat etext - of_nat KERNBASE) (PTE_R OR PTE_X) s) (\<lambda>s.
       bindR (kvmmap kpgtbl (of_nat etext) etext (of_nat PHYSTOP - of_nat etext) (PTE_R OR PTE_W) s) (\<lambda>s.
       bindR (kvmmap kpgtbl TRAMPOLINE trampoline 0x1000 (PTE_R OR PTE_X) s) (\<lambda>s.
       bindR (proc_mapstacks kpgtbl s) (\<lambda>s. Ok (kpgtbl, s))))))))))"

end
