(* ===== verification/Vm_Copy.thy ===== *)
theory Vm_Copy
  imports Vm
begin

text \<open>
  What \<open>copyin\<close>, \<open>copyout\<close> and \<open>copyinstr\<close> do, seen from the virtual memory of the process: user memory
  is a partial function from addresses to bytes, defined on the pages that are mapped for the user.
\<close>

unbundle bit_operations_syntax

section \<open>Address spaces\<close>

text \<open>The frames of the virtual pages \<open>W\<close> are distinct pages outside the page table.\<close>

abbreviation frame :: "mem \<Rightarrow> ptree \<Rightarrow> nat \<Rightarrow> nat" where
  "frame m T v \<equiv> PTE2PA (leaf m T v)"

definition as_ok :: "nat \<Rightarrow> mem \<Rightarrow> ptree \<Rightarrow> nat set \<Rightarrow> bool" where
  "as_ok kend m T W \<longleftrightarrow> pt_tree kend m T \<and> inj_on (frame m T) W \<and>
     (\<forall>v \<in> W. v < 2 ^ 26 \<and> odd (leaf m T v) \<and> page_ok kend (frame m T v) \<and> frame m T v \<notin> ran T)"

definition upages :: "mem \<Rightarrow> ptree \<Rightarrow> nat set" where
  "upages m T = {v. v < 2 ^ 26 \<and> odd (leaf m T v) \<and> leaf m T v AND PTE_U \<noteq> 0}"

definition umem :: "mem \<Rightarrow> ptree \<Rightarrow> nat \<Rightarrow> byte option" where
  "umem m T a = (if a div PGSIZE \<in> upages m T then Some (m (frame m T (a div PGSIZE) + a mod PGSIZE)) else None)"

text \<open>Writing the bytes \<open>xs\<close> at the virtual address \<open>a\<close>.\<close>

definition vwrite :: "(nat \<Rightarrow> byte option) \<Rightarrow> nat \<Rightarrow> byte list \<Rightarrow> nat \<Rightarrow> byte option" where
  "vwrite f a xs = (\<lambda>b. if a \<le> b \<and> b < a + length xs then Some (xs ! (b - a)) else f b)"

lemma vwrite_Nil [simp]: "vwrite f a [] = f"
  by (auto simp: vwrite_def fun_eq_iff)

lemma vwrite_append: "vwrite (vwrite f a xs) (a + length xs) ys = vwrite f a (xs @ ys)"
  by (auto simp: vwrite_def fun_eq_iff nth_append)

lemma as_okD:
  assumes "as_ok kend m T W" "v \<in> W"
  shows "odd (leaf m T v)" "page_ok kend (frame m T v)" "frame m T v \<notin> ran T" "v < 2 ^ 26"
  using assms by (auto simp: as_ok_def)

text \<open>Memory that changes outside the page table only leaves the leaf entries as they are.\<close>

lemma leaf_frame:
  assumes "pt_tree kend m T" "same_out P m m'" "P \<inter> ran T = {}"
  shows "leaf m' T = leaf m T" "pt_tree kend m' T"
proof -
  have same: "load64 m' (q + 8 * i) = load64 m (q + 8 * i)" if "T p = Some q" "i < 512" for p q i
  proof -
    have "q \<notin> P" using that(1) assms(3) by (auto simp: ran_def)
    then show ?thesis using same_out_load64 [OF assms(2) pt_tree_page [OF assms(1) that(1)]] that(2) by blast
  qed
  show "leaf m' T = leaf m T"
    using same by (auto simp: leaf_def fun_eq_iff split: option.splits)
  show "pt_tree kend m' T" using same by (intro pt_tree_cong [OF assms(1)]) auto
qed

lemma as_ok_frame:
  assumes "as_ok kend m T W" "same_out P m m'" "P \<inter> ran T = {}"
  shows "as_ok kend m' T W" "leaf m' T = leaf m T" "upages m' T = upages m T"
proof -
  have T: "pt_tree kend m T" using assms(1) by (simp add: as_ok_def)
  note l = leaf_frame [OF T assms(2,3)]
  show "as_ok kend m' T W" using assms(1) l(2) by (simp add: as_ok_def l(1))
  show "leaf m' T = leaf m T" "upages m' T = upages m T" by (simp_all add: l(1) upages_def)
qed

lemma vpn_upages: "user_pa m T va \<noteq> 0 \<Longrightarrow> vpn va \<in> upages m T"
  using vpn_less [of va] by (auto simp: user_pa_def upages_def Let_def split: if_splits)

lemma user_pa_upages:
  assumes "as_ok kend m T (upages m T)"
  shows "user_pa m T va = (if vpn va \<in> upages m T then frame m T (vpn va) else 0)"
proof (cases "vpn va \<in> upages m T")
  case True
  then have "unat va div 4096 < 67108864" by (simp add: upages_def vpn_def PGSIZE_def)
  then have "va < MAXVA" unfolding less_MAXVA by simp
  with True show ?thesis by (auto simp: user_pa_def upages_def Let_def)
next
  case False
  then show ?thesis using vpn_upages [of m T va] by auto
qed

section \<open>One page\<close>

lemma vpn_PGROUNDDOWN [simp]: "vpn (PGROUNDDOWN va) = vpn va"
  by (simp add: vpn_def unat_PGROUNDDOWN PGSIZE_def)

lemma next_page:
  assumes "vpn va < 2 ^ 26"
  shows "unat (PGROUNDDOWN va + 0x1000) = unat va + (PGSIZE - unat va mod PGSIZE)"
proof -
  have va: "unat va = vpn va * PGSIZE + unat va mod PGSIZE" by (simp add: vpn_def)
  have "unat (PGROUNDDOWN va) + unat (0x1000 :: u64) < 2 ^ 64"
    using assms by (simp add: unat_PGROUNDDOWN vpn_def PGSIZE_def)
  then have "unat (PGROUNDDOWN va + 0x1000) = vpn va * PGSIZE + PGSIZE"
    by (subst unat_add64) (simp_all add: unat_PGROUNDDOWN vpn_def PGSIZE_def)
  moreover have "unat va mod PGSIZE < PGSIZE" by (simp add: PGSIZE_def)
  ultimately show ?thesis using va by linarith
qed

text \<open>Writing inside one user page.\<close>

lemma same_page: "b div PGSIZE = a div PGSIZE \<Longrightarrow> b + a mod PGSIZE = a + b mod PGSIZE"
proof -
  assume "b div PGSIZE = a div PGSIZE"
  then have "b div PGSIZE * PGSIZE = a div PGSIZE * PGSIZE" by (simp only:)
  moreover have "a = a div PGSIZE * PGSIZE + a mod PGSIZE" "b = b div PGSIZE * PGSIZE + b mod PGSIZE" by simp_all
  ultimately show ?thesis by linarith
qed

lemma range_page:
  assumes "a mod PGSIZE + n \<le> PGSIZE"
  shows "a \<le> b \<and> b < a + n \<longleftrightarrow> b div PGSIZE = a div PGSIZE \<and> a mod PGSIZE \<le> b mod PGSIZE \<and> b mod PGSIZE < a mod PGSIZE + n"
proof -
  have "b div PGSIZE = a div PGSIZE" if "a \<le> b" "b < a + n"
  proof (rule antisym)
    show "a div PGSIZE \<le> b div PGSIZE" using that(1) by (rule div_le_mono)
    have "a = a div PGSIZE * PGSIZE + a mod PGSIZE" by simp
    then have "b < a div PGSIZE * PGSIZE + PGSIZE" using that(2) assms by linarith
    then have "b < Suc (a div PGSIZE) * PGSIZE" by simp
    then show "b div PGSIZE \<le> a div PGSIZE" using less_mult_imp_div_less less_Suc_eq_le by blast
  qed
  then show ?thesis using same_page [of b a] by (cases "b div PGSIZE = a div PGSIZE") auto
qed

lemma put_bytes_page:
  assumes ok: "as_ok kend m T (upages m T)" and v: "a div PGSIZE \<in> upages m T" and len: "a mod PGSIZE + length xs \<le> PGSIZE"
  defines "m' \<equiv> put_bytes (frame m T (a div PGSIZE) + a mod PGSIZE) xs m"
  shows "same_out {frame m T (a div PGSIZE)} m m'" "as_ok kend m' T (upages m' T)" "leaf m' T = leaf m T"
    "upages m' T = upages m T" "umem m' T = vwrite (umem m T) a xs"
proof -
  let ?v = "a div PGSIZE"
  note f = as_okD [OF ok v]
  show out: "same_out {frame m T ?v} m m'"
    by (rule same_out_page [OF f(2)]) (use len in \<open>auto simp: m'_def put_bytes_apply\<close>)
  have "{frame m T ?v} \<inter> ran T = {}" using f(3) by simp
  note fr = as_ok_frame [OF ok out this]
  show "as_ok kend m' T (upages m' T)" "leaf m' T = leaf m T" "upages m' T = upages m T" using fr by simp_all
  show "umem m' T = vwrite (umem m T) a xs"
  proof
    fix b
    have u: "umem m' T b = (if b div PGSIZE \<in> upages m T then Some (m' (frame m T (b div PGSIZE) + b mod PGSIZE)) else None)"
      by (simp only: umem_def fr(2,3))
    show "umem m' T b = vwrite (umem m T) a xs b"
    proof (cases "b div PGSIZE = ?v")
      case True
      then have d: "b - a = b mod PGSIZE - a mod PGSIZE" using same_page [OF True] by arith
      show ?thesis
      proof (cases "a \<le> b \<and> b < a + length xs")
        case inside: True
        then have "a mod PGSIZE \<le> b mod PGSIZE" "b mod PGSIZE < a mod PGSIZE + length xs" using range_page [OF len] by blast+
        then have "m' (frame m T ?v + b mod PGSIZE) = xs ! (b - a)" by (simp add: m'_def put_bytes_apply d)
        with inside True v show ?thesis by (simp add: u vwrite_def)
      next
        case outside: False
        then have "\<not> (a mod PGSIZE \<le> b mod PGSIZE \<and> b mod PGSIZE < a mod PGSIZE + length xs)" using range_page [OF len, of b] True by blast
        then have "m' (frame m T ?v + b mod PGSIZE) = m (frame m T ?v + b mod PGSIZE)" by (auto simp: m'_def put_bytes_apply)
        with outside True v show ?thesis unfolding u by (auto simp: vwrite_def umem_def)
      qed
    next
      case False
      have "m' (frame m T (b div PGSIZE) + b mod PGSIZE) = m (frame m T (b div PGSIZE) + b mod PGSIZE)" if b: "b div PGSIZE \<in> upages m T"
      proof -
        have "inj_on (frame m T) (upages m T)" using ok by (simp add: as_ok_def)
        then have "frame m T (b div PGSIZE) \<noteq> frame m T ?v" using False v b by (auto dest: inj_onD)
        moreover have "page_of (frame m T (b div PGSIZE) + b mod PGSIZE) = frame m T (b div PGSIZE)"
          by (rule page_of_offset [OF as_okD(2) [OF ok b]]) (simp add: PGSIZE_def)
        ultimately show ?thesis using out by (simp add: same_out_def)
      qed
      moreover have "\<not> (a \<le> b \<and> b < a + length xs)" using range_page [OF len, of b] False by blast
      ultimately show ?thesis unfolding u by (auto simp: umem_def vwrite_def)
    qed
  qed
qed

section \<open>copyout\<close>

definition uframes :: "mem \<Rightarrow> ptree \<Rightarrow> nat set" where
  "uframes m T = frame m T ` upages m T"

lemma vpn_div: "unat va div PGSIZE = vpn va"
  by (simp add: vpn_def)

lemma walkaddr_upages:
  assumes "as_ok kend (vmem s) T (upages (vmem s) T)" "T [] = Some pt"
  shows "walkaddr pt (PGROUNDDOWN va) s =
    Ok (if unat va div PGSIZE \<in> upages (vmem s) T then frame (vmem s) T (unat va div PGSIZE) else 0)"
proof -
  have "pt_tree kend (vmem s) T" using assms(1) by (simp add: as_ok_def)
  from walkaddr_user_pa [OF this assms(2)] show ?thesis
    by (simp only: user_pa_upages [OF assms(1)] vpn_PGROUNDDOWN vpn_div)
qed

lemma copyout_spec:
  assumes "as_ok kend (vmem s) T (upages (vmem s) T)" "T [] = Some pt"
  shows "\<exists>r s' n. copyout pt dstva src s = Ok (r, s') \<and> s' = s\<lparr>vmem := vmem s'\<rparr> \<and>
    same_out (uframes (vmem s) T) (vmem s) (vmem s') \<and> as_ok kend (vmem s') T (upages (vmem s') T) \<and>
    leaf (vmem s') T = leaf (vmem s) T \<and> umem (vmem s') T = vwrite (umem (vmem s) T) (unat dstva) (take n src) \<and>
    (r = 0 \<and> n = length src \<or> r = - 1 \<and> n < length src \<and> umem (vmem s) T (unat dstva + n) = None)"
  using assms
proof (induction pt dstva src s rule: copyout.induct)
  case (1 pt dstva src s)
  let ?m = "vmem s" and ?v = "unat dstva div PGSIZE"
  note off = page_rest(2) [of dstva]
  show ?case
  proof (cases "src = [] \<or> ?v \<notin> upages ?m T")
    case True
    then have "copyout pt dstva src s = Ok (if src = [] then 0 else - 1, s)"
      using walkaddr_upages [OF 1(2,3), of dstva] by (subst copyout.simps) (auto simp: Let_def)
    moreover have "umem ?m T (unat dstva) = None" if "src \<noteq> []" using True that by (simp add: umem_def)
    ultimately show ?thesis using 1(2) by (auto intro!: exI [of _ "0 :: nat"])
  next
    case False
    let ?n = "min (PGSIZE - unat dstva mod PGSIZE) (length src)"
    define m' where "m' = put_bytes (frame ?m T ?v + unat dstva mod PGSIZE) (take ?n src) ?m"
    have v: "?v \<in> upages ?m T" and "src \<noteq> []" using False by auto
    have "0 < frame ?m T ?v" using as_okD(2) [OF 1(2) v] by (simp add: page_ok_def)
    then have step: "copyout pt dstva src s = copyout pt (PGROUNDDOWN dstva + 0x1000) (drop ?n src) (s\<lparr>vmem := m'\<rparr>)"
      using walkaddr_upages [OF 1(2,3), of dstva] v \<open>src \<noteq> []\<close>
      by (subst copyout.simps) (simp add: Let_def off m'_def)
    have "unat dstva mod PGSIZE < PGSIZE" by (simp add: PGSIZE_def)
    then have len: "unat dstva mod PGSIZE + length (take ?n src) \<le> PGSIZE" by simp
    note page = put_bytes_page [OF 1(2) v len, folded m'_def]
    obtain r s' n where IH: "copyout pt (PGROUNDDOWN dstva + 0x1000) (drop ?n src) (s\<lparr>vmem := m'\<rparr>) = Ok (r, s')"
      "s' = s\<lparr>vmem := vmem s'\<rparr>" "same_out (uframes m' T) m' (vmem s')" "as_ok kend (vmem s') T (upages (vmem s') T)"
      "leaf (vmem s') T = leaf m' T"
      "umem (vmem s') T = vwrite (umem m' T) (unat (PGROUNDDOWN dstva + 0x1000)) (take n (drop ?n src))"
      "r = 0 \<and> n = length (drop ?n src) \<or> r = - 1 \<and> n < length (drop ?n src) \<and>
         umem m' T (unat (PGROUNDDOWN dstva + 0x1000) + n) = None"
      using 1(1) [of "PGROUNDDOWN dstva" "frame ?m T ?v" ?n] \<open>src \<noteq> []\<close> \<open>0 < frame ?m T ?v\<close> off page(2) 1(3)
        walkaddr_upages [OF 1(2,3), of dstva] v
      by (auto simp: m'_def [symmetric])
    have "vpn dstva < 2 ^ 26" using v by (simp add: upages_def vpn_div)
    note nxt = next_page [OF this]
    have nxt': "unat (PGROUNDDOWN dstva + 0x1000) = unat dstva + ?n" if "?n < length src" using that nxt by simp
    have w: "umem (vmem s') T = vwrite (umem ?m T) (unat dstva) (take (?n + n) src)"
    proof (cases "?n < length src")
      case True
      then show ?thesis
        using IH(6) vwrite_append [of "umem ?m T" "unat dstva" "take ?n src" "take n (drop ?n src)"]
        by (simp add: page(5) nxt' take_add)
    next
      case False
      then show ?thesis using IH(6) by (simp add: page(5))
    qed
    have "same_out (uframes ?m T) ?m (vmem s')"
    proof (rule same_out_trans [OF page(1) IH(3)])
      show "{frame ?m T ?v} \<union> uframes m' T \<subseteq> uframes ?m T" using v by (auto simp: uframes_def page(3,4))
    qed
    moreover have "r = 0 \<and> ?n + n = length src \<or> r = - 1 \<and> ?n + n < length src \<and> umem ?m T (unat dstva + (?n + n)) = None"
    proof -
      have "umem ?m T (unat dstva + (?n + n)) = None" if "umem m' T (unat dstva + ?n + n) = None"
        using that by (simp add: page(5) vwrite_def add.assoc split: if_splits)
      then show ?thesis using IH(7) nxt' by (auto simp: add.assoc)
    qed
    ultimately show ?thesis using step IH(1,2,4,5) page(3) w by (intro exI conjI) simp_all
  qed
qed

section \<open>copyin and copyinstr\<close>

text \<open>The bytes of user memory from \<open>a\<close> on.\<close>

definition uread :: "mem \<Rightarrow> ptree \<Rightarrow> nat \<Rightarrow> nat \<Rightarrow> byte list" where
  "uread m T a n = map (\<lambda>i. the (umem m T (a + i))) [0..<n]"

lemma length_uread [simp]: "length (uread m T a n) = n"
  by (simp add: uread_def)

lemma uread_0 [simp]: "uread m T a 0 = []"
  by (simp add: uread_def)

lemma nth_uread: "i < n \<Longrightarrow> uread m T a n ! i = the (umem m T (a + i))"
  by (simp add: uread_def)

lemma uread_add: "uread m T a (i + j) = uread m T a i @ uread m T (a + i) j"
  by (rule nth_equalityI) (auto simp: nth_append nth_uread add.assoc)

lemma uread_page:
  assumes "a div PGSIZE \<in> upages m T" "a mod PGSIZE + n \<le> PGSIZE"
  shows "uread m T a n = get_bytes m (frame m T (a div PGSIZE) + a mod PGSIZE) n"
    "i < n \<Longrightarrow> umem m T (a + i) = Some (m (frame m T (a div PGSIZE) + a mod PGSIZE + i))"
proof -
  have u: "umem m T (a + i) = Some (m (frame m T (a div PGSIZE) + a mod PGSIZE + i))" if "i < n" for i
  proof -
    have "(a + i) div PGSIZE = a div PGSIZE" using range_page [OF assms(2), of "a + i"] that by simp
    moreover have "a mod PGSIZE + i = (a + i) mod PGSIZE" using same_page [OF calculation] by simp
    ultimately show ?thesis using assms(1) by (simp add: umem_def add.assoc)
  qed
  then show "i < n \<Longrightarrow> umem m T (a + i) = Some (m (frame m T (a div PGSIZE) + a mod PGSIZE + i))" .
  show "uread m T a n = get_bytes m (frame m T (a div PGSIZE) + a mod PGSIZE) n"
    using u by (intro nth_equalityI) (auto simp: nth_uread)
qed

lemma copyin_spec:
  assumes "as_ok kend (vmem s) T (upages (vmem s) T)" "T [] = Some pt"
  shows "\<exists>r n. copyin pt srcva len s = Ok (r, uread (vmem s) T (unat srcva) n) \<and>
    (\<forall>i < n. umem (vmem s) T (unat srcva + i) \<noteq> None) \<and>
    (r = 0 \<and> n = len \<or> r = - 1 \<and> n < len \<and> umem (vmem s) T (unat srcva + n) = None)"
  using assms
proof (induction pt srcva len s rule: copyin.induct)
  case (1 pt srcva len s)
  let ?m = "vmem s" and ?v = "unat srcva div PGSIZE"
  note off = page_rest(2) [of srcva]
  show ?case
  proof (cases "len = 0 \<or> ?v \<notin> upages ?m T")
    case True
    then have "copyin pt srcva len s = Ok (if len = 0 then 0 else - 1, [])"
      using walkaddr_upages [OF 1(2,3), of srcva] by (subst copyin.simps) (auto simp: Let_def)
    moreover have "umem ?m T (unat srcva) = None" if "len \<noteq> 0" using True that by (simp add: umem_def)
    ultimately show ?thesis by (auto intro!: exI [of _ "0 :: nat"] simp: uread_def)
  next
    case False
    let ?n = "min (PGSIZE - unat srcva mod PGSIZE) len"
    have v: "?v \<in> upages ?m T" and "len \<noteq> 0" using False by auto
    have "0 < frame ?m T ?v" using as_okD(2) [OF 1(2) v] by (simp add: page_ok_def)
    have step: "copyin pt srcva len s = bindR (copyin pt (PGROUNDDOWN srcva + 0x1000) (len - ?n) s) (\<lambda>(r, dst).
        Ok (r, get_bytes ?m (frame ?m T ?v + unat srcva mod PGSIZE) ?n @ dst))"
      using walkaddr_upages [OF 1(2,3), of srcva] v \<open>len \<noteq> 0\<close> \<open>0 < frame ?m T ?v\<close>
      by (subst copyin.simps) (simp add: Let_def off)
    have "unat srcva mod PGSIZE < PGSIZE" by (simp add: PGSIZE_def)
    then have "unat srcva mod PGSIZE + ?n \<le> PGSIZE" by simp
    note page = uread_page [OF v this]
    obtain r n where IH: "copyin pt (PGROUNDDOWN srcva + 0x1000) (len - ?n) s = Ok (r, uread ?m T (unat (PGROUNDDOWN srcva + 0x1000)) n)"
      "\<forall>i < n. umem ?m T (unat (PGROUNDDOWN srcva + 0x1000) + i) \<noteq> None"
      "r = 0 \<and> n = len - ?n \<or> r = - 1 \<and> n < len - ?n \<and> umem ?m T (unat (PGROUNDDOWN srcva + 0x1000) + n) = None"
      using 1(1) [of "PGROUNDDOWN srcva" "frame ?m T ?v" ?n] \<open>len \<noteq> 0\<close> \<open>0 < frame ?m T ?v\<close> off 1(2,3)
        walkaddr_upages [OF 1(2,3), of srcva] v
      by auto
    have "vpn srcva < 2 ^ 26" using v by (simp add: upages_def vpn_div)
    then have nxt: "?n < len \<Longrightarrow> unat (PGROUNDDOWN srcva + 0x1000) = unat srcva + ?n" using next_page by simp
    have "uread ?m T (unat srcva) (?n + n) = get_bytes ?m (frame ?m T ?v + unat srcva mod PGSIZE) ?n @ uread ?m T (unat (PGROUNDDOWN srcva + 0x1000)) n"
      using IH(3) nxt page(1) by (cases "?n < len") (auto simp: uread_add)
    moreover have "\<forall>i < ?n + n. umem ?m T (unat srcva + i) \<noteq> None"
    proof (intro allI impI)
      fix i
      assume "i < ?n + n"
      show "umem ?m T (unat srcva + i) \<noteq> None"
      proof (cases "i < ?n")
        case True
        then show ?thesis using page(2) by simp
      next
        case False
        then have "i - ?n < n" "?n < len" using IH(3) \<open>i < ?n + n\<close> by linarith+
        then have "umem ?m T (unat srcva + ?n + (i - ?n)) \<noteq> None" using IH(2) nxt by metis
        then show ?thesis using False by (simp add: add.assoc)
      qed
    qed
    moreover have "r = 0 \<and> ?n + n = len \<or> r = - 1 \<and> ?n + n < len \<and> umem ?m T (unat srcva + (?n + n)) = None"
      using IH(3) nxt by (auto simp: add.assoc)
    ultimately show ?thesis using step IH(1) by (intro exI conjI) simp_all
  qed
qed

lemma copy_str_cases:
  obtains "copy_str m p n = (False, get_bytes m p n)" "\<And>i. i < n \<Longrightarrow> m (p + i) \<noteq> 0"
  | k where "k < n" "copy_str m p n = (True, get_bytes m p (Suc k))" "\<And>i. i < k \<Longrightarrow> m (p + i) \<noteq> 0" "m (p + k) = 0"
proof -
  have "copy_str m p n = (False, get_bytes m p n) \<and> (\<forall>i < n. m (p + i) \<noteq> 0) \<or>
    (\<exists>k < n. copy_str m p n = (True, get_bytes m p (Suc k)) \<and> (\<forall>i < k. m (p + i) \<noteq> 0) \<and> m (p + k) = 0)"
  proof (induction n arbitrary: p)
    case (Suc n)
    show ?case
    proof (cases "m p = 0")
      case True
      then show ?thesis by (auto simp: get_bytes_Suc intro!: exI [of _ 0])
    next
      case False
      from Suc [of "p + 1"] show ?thesis
      proof (elim disjE conjE exE)
        fix k
        assume k: "k < n" "copy_str m (p + 1) n = (True, get_bytes m (p + 1) (Suc k))" "\<forall>i<k. m (p + 1 + i) \<noteq> 0" "m (p + 1 + k) = 0"
        then have "\<forall>i<Suc k. m (p + i) \<noteq> 0" using False by (auto simp: less_Suc_eq_0_disj)
        with k False show ?thesis by (auto simp: get_bytes_Suc intro!: exI [of _ "Suc k"])
      next
        assume k: "copy_str m (p + 1) n = (False, get_bytes m (p + 1) n)" "\<forall>i<n. m (p + 1 + i) \<noteq> 0"
        then have "\<forall>i<Suc n. m (p + i) \<noteq> 0" using False by (auto simp: less_Suc_eq_0_disj)
        with k False show ?thesis by (auto simp: get_bytes_Suc)
      qed
    qed
  qed simp
  then show thesis using that by blast
qed

definition ustr :: "mem \<Rightarrow> ptree \<Rightarrow> nat \<Rightarrow> nat \<Rightarrow> bool" where
  "ustr m T a n \<longleftrightarrow> (\<forall>i < n. umem m T (a + i) \<noteq> None \<and> umem m T (a + i) \<noteq> Some 0)"

lemma ustr_add: "ustr m T a (i + j) \<longleftrightarrow> ustr m T a i \<and> ustr m T (a + i) j"
proof -
  have "(\<forall>k < i + j. P (a + k)) \<longleftrightarrow> (\<forall>k < i. P (a + k)) \<and> (\<forall>k < j. P (a + i + k))" for P :: "nat \<Rightarrow> bool"
    by (auto simp: add.assoc) (metis le_add_diff_inverse nat_add_left_cancel_less not_less)
  then show ?thesis unfolding ustr_def .
qed

lemma copyinstr_spec:
  assumes "as_ok kend (vmem s) T (upages (vmem s) T)" "T [] = Some pt"
  shows "(\<exists>k < maxn. ustr (vmem s) T (unat srcva) k \<and> umem (vmem s) T (unat srcva + k) = Some 0 \<and>
       copyinstr pt srcva maxn s = Ok (0, uread (vmem s) T (unat srcva) (Suc k))) \<or>
    (\<exists>n \<le> maxn. ustr (vmem s) T (unat srcva) n \<and> (n = maxn \<or> umem (vmem s) T (unat srcva + n) = None) \<and>
       copyinstr pt srcva maxn s = Ok (- 1, uread (vmem s) T (unat srcva) n))"
  using assms
proof (induction pt srcva maxn s rule: copyinstr.induct)
  case (1 pt srcva maxn s)
  let ?m = "vmem s" and ?v = "unat srcva div PGSIZE"
  note off = page_rest(2) [of srcva]
  show ?case
  proof (cases "maxn = 0 \<or> ?v \<notin> upages ?m T")
    case True
    then have "copyinstr pt srcva maxn s = Ok (- 1, [])"
      using walkaddr_upages [OF 1(2,3), of srcva] by (subst copyinstr.simps) (auto simp: Let_def)
    moreover have "maxn = 0 \<or> umem ?m T (unat srcva) = None" using True by (auto simp: umem_def)
    ultimately show ?thesis by (intro disjI2 exI [of _ "0 :: nat"]) (auto simp: ustr_def)
  next
    case False
    let ?n = "min (PGSIZE - unat srcva mod PGSIZE) maxn" and ?p = "frame ?m T ?v + unat srcva mod PGSIZE"
    have v: "?v \<in> upages ?m T" and "maxn \<noteq> 0" using False by auto
    have "0 < frame ?m T ?v" using as_okD(2) [OF 1(2) v] by (simp add: page_ok_def)
    have step: "copyinstr pt srcva maxn s = (let (got_null, dst) = copy_str ?m ?p ?n in
        if got_null then Ok (0, dst)
        else bindR (copyinstr pt (PGROUNDDOWN srcva + 0x1000) (maxn - ?n) s) (\<lambda>(r, dst'). Ok (r, dst @ dst')))"
      using walkaddr_upages [OF 1(2,3), of srcva] v \<open>maxn \<noteq> 0\<close> \<open>0 < frame ?m T ?v\<close>
      by (subst copyinstr.simps) (simp add: Let_def off)
    have "unat srcva mod PGSIZE < PGSIZE" by (simp add: PGSIZE_def)
    then have room: "unat srcva mod PGSIZE + ?n \<le> PGSIZE" by simp
    note page = uread_page(2) [OF v room]
    show ?thesis
    proof (rule copy_str_cases [of ?m ?p ?n])
      fix k
      assume k: "k < ?n" "copy_str ?m ?p ?n = (True, get_bytes ?m ?p (Suc k))" "\<And>i. i < k \<Longrightarrow> ?m (?p + i) \<noteq> 0" "?m (?p + k) = 0"
      have "uread ?m T (unat srcva) (Suc k) = get_bytes ?m ?p (Suc k)"
        by (rule uread_page(1) [OF v]) (use k(1) room in linarith)
      moreover have "ustr ?m T (unat srcva) k" using page k(1,3) by (auto simp: ustr_def)
      moreover have "umem ?m T (unat srcva + k) = Some 0" using page [OF k(1)] k(4) by simp
      ultimately show ?thesis using step k(1,2) by (intro disjI1 exI [of _ k]) auto
    next
      assume c: "copy_str ?m ?p ?n = (False, get_bytes ?m ?p ?n)" "\<And>i. i < ?n \<Longrightarrow> ?m (?p + i) \<noteq> 0"
      have step': "copyinstr pt srcva maxn s = bindR (copyinstr pt (PGROUNDDOWN srcva + 0x1000) (maxn - ?n) s)
          (\<lambda>(r, dst'). Ok (r, uread ?m T (unat srcva) ?n @ dst'))"
        using step c(1) uread_page(1) [OF v room] by simp
      have z: "ustr ?m T (unat srcva) ?n" using page c(2) by (auto simp: ustr_def)
      show ?thesis
      proof (cases "?n < maxn")
        case False
        then have "copyinstr pt srcva maxn s = Ok (- 1, uread ?m T (unat srcva) ?n)"
          using step' by (simp add: copyinstr.simps [of pt _ 0])
        then show ?thesis using z False by (intro disjI2 exI [of _ ?n]) auto
      next
        case True
        have "vpn srcva < 2 ^ 26" using v by (simp add: upages_def vpn_div)
        then have nxt: "unat (PGROUNDDOWN srcva + 0x1000) = unat srcva + ?n" using next_page True by simp
        let ?a = "unat srcva + ?n"
        have IH: "(\<exists>k < maxn - ?n. ustr ?m T ?a k \<and> umem ?m T (?a + k) = Some 0 \<and>
             copyinstr pt (PGROUNDDOWN srcva + 0x1000) (maxn - ?n) s = Ok (0, uread ?m T ?a (Suc k))) \<or>
          (\<exists>n \<le> maxn - ?n. ustr ?m T ?a n \<and> (n = maxn - ?n \<or> umem ?m T (?a + n) = None) \<and>
             copyinstr pt (PGROUNDDOWN srcva + 0x1000) (maxn - ?n) s = Ok (- 1, uread ?m T ?a n))"
          using 1(1) [of "PGROUNDDOWN srcva" "frame ?m T ?v" ?n "(False, get_bytes ?m ?p ?n)" False "get_bytes ?m ?p ?n"]
            \<open>maxn \<noteq> 0\<close> \<open>0 < frame ?m T ?v\<close> off 1(2,3) walkaddr_upages [OF 1(2,3), of srcva] v c(1) nxt
          by simp
        then consider (null) k where "k < maxn - ?n" "ustr ?m T ?a k" "umem ?m T (?a + k) = Some 0"
            "copyinstr pt (PGROUNDDOWN srcva + 0x1000) (maxn - ?n) s = Ok (0, uread ?m T ?a (Suc k))"
          | (err) n where "n \<le> maxn - ?n" "ustr ?m T ?a n" "n = maxn - ?n \<or> umem ?m T (?a + n) = None"
            "copyinstr pt (PGROUNDDOWN srcva + 0x1000) (maxn - ?n) s = Ok (- 1, uread ?m T ?a n)"
          by blast
        then show ?thesis
        proof cases
          case null
          then show ?thesis
            using step' z uread_add [of ?m T "unat srcva" ?n "Suc k"]
            by (intro disjI1 exI [of _ "?n + k"]) (simp add: ustr_add add.assoc)
        next
          case err
          then show ?thesis
            using step' z True uread_add [of ?m T "unat srcva" ?n n]
            by (intro disjI2 exI [of _ "?n + n"]) (auto simp: ustr_add add.assoc)
        qed
      qed
    qed
  qed
qed

end
