(* ===== verification/Vm_Space.thy ===== *)
theory Vm_Space
  imports Vm_Copy
begin

text \<open>
  Growing, shrinking, copying and freeing user address spaces: every page is on the free list, in a page
  table, or the frame of one virtual page, and no operation of kernel/vm.c loses or duplicates one.
\<close>

unbundle bit_operations_syntax

section \<open>Freeing a page\<close>

lemma vkfree_push:
  assumes "vm_ok kend s ps" "page_ok kend p" "p \<notin> set ps"
  shows "\<exists>s1. vkfree kend p s = Ok s1 \<and> vm_ok kend s1 (p # ps) \<and> same_out {p} (vmem s) (vmem s1)"
proof -
  obtain k where k: "kfree kend p (vkmem s) (vhart s) = Ok (k, vhart s)" "kmem_inv kend k (p # ps)"
    using kfree_push [of kend "vkmem s" ps "vhart s" p] assms by (auto simp: vm_ok_def)
  have "same_out {p} (vmem s) (store64 (p + 8 * 0) (of_nat (nextp k p)) (memset p 1 PGSIZE (vmem s)))"
    using same_out_memset [OF assms(2)] same_out_store64 [OF assms(2)] by (rule same_out_trans) auto
  then show ?thesis using k assms(1) by (simp add: vkfree_def vm_ok_def)
qed

section \<open>Address spaces with their pages\<close>

definition owned :: "mem \<Rightarrow> ptree \<Rightarrow> nat set \<Rightarrow> nat set" where
  "owned m T W = ran T \<union> frame m T ` W"

definition space :: "nat \<Rightarrow> vmstate \<Rightarrow> ptree \<Rightarrow> nat set \<Rightarrow> nat list \<Rightarrow> bool" where
  "space kend s T W ps \<longleftrightarrow> vm_ok kend s ps \<and> as_ok kend (vmem s) T W \<and> owned (vmem s) T W \<inter> set ps = {} \<and>
     (\<forall>v \<in> W. PTE_FLAGS (leaf (vmem s) T v) \<noteq> PTE_V)"

lemma spaceD:
  assumes "space kend s T W ps"
  shows "vm_ok kend s ps" "as_ok kend (vmem s) T W" "pt_tree kend (vmem s) T" "owned (vmem s) T W \<inter> set ps = {}"
    "ran T \<inter> set ps = {}" "v \<in> W \<Longrightarrow> PTE_FLAGS (leaf (vmem s) T v) \<noteq> PTE_V"
  using assms by (auto simp: space_def as_ok_def owned_def)

text \<open>Changing one leaf entry, with memory changing elsewhere outside the address space.\<close>

lemma as_ok_subset: "as_ok kend m T W \<Longrightarrow> W' \<subseteq> W \<Longrightarrow> as_ok kend m T W'"
  unfolding as_ok_def by (meson inj_on_subset subsetD)

lemma as_ok_leaf:
  assumes "as_ok kend m T W" "pt_tree kend m' T" "\<And>v. v \<in> W \<Longrightarrow> leaf m' T v = leaf m T v"
  shows "as_ok kend m' T W"
  using assms by (simp add: as_ok_def inj_on_def)

lemma length_vpath: "length (vpath v) = 2"
  by (simp add: vpath_def)

section \<open>uvmunmap\<close>

lemma uvmunmap_page:
  assumes sp: "space kend s T W ps" and "T [] = Some pt" "v \<in> W" "a < MAXVA" "vpn a = v"
  shows "\<exists>s'. uvmunmap_step kend pt True a s = Ok s' \<and> space kend s' T (W - {v}) (frame (vmem s) T v # ps) \<and>
    leaf (vmem s') T = (leaf (vmem s) T)(v := 0) \<and> same_out (insert (frame (vmem s) T v) (ran T)) (vmem s) (vmem s')"
proof -
  let ?m = "vmem s" and ?f = "frame (vmem s) T v"
  note d = spaceD [OF sp]
  note f = as_okD [OF d(2) assms(3)]
  have "odd (leaf ?m T v)" by (rule f(1))
  then obtain q where q: "T (vpath v) = Some q" "walk pt a False s = Ok (q + 8 * (v mod 512), s)" "0 < q"
    "leaf ?m T v = load64 ?m (q + 8 * (v mod 512))"
    using walk_entry [OF d(3) assms(2,4), unfolded assms(5)] by force
  have "?f \<notin> set ps" using d(4) assms(3) by (auto simp: owned_def)
  from vkfree_push [OF d(1) f(2) this] obtain s1 where s1: "vkfree kend ?f s = Ok s1" "vm_ok kend s1 (?f # ps)" "same_out {?f} ?m (vmem s1)"
    by blast
  define s' where "s' = s1\<lparr>vmem := store64 (q + 8 * (v mod 512)) 0 (vmem s1)\<rparr>"
  have "{?f} \<inter> ran T = {}" using f(3) by simp
  note l = leaf_frame [OF d(3) s1(3) this]
  have m': "vmem s' = store64 (q + 8 * (v mod 512)) 0 (vmem s1)" by (simp add: s'_def)
  have tree: "pt_tree kend (vmem s') T" "leaf (vmem s') T = (leaf ?m T)(v := 0)"
    unfolding m' by (rule pt_tree_store [OF l(2) q(1) length_vpath], simp) (simp only: leaf_store [OF l(2) q(1)] l(1))
  have "uvmunmap_step kend pt True a s = Ok s'"
    using q f(1) d(6) [OF assms(3)] s1(1) by (simp add: uvmunmap_step_def s'_def)
  moreover have "same_out (insert ?f (ran T)) ?m (vmem s')"
  proof -
    have "same_out {q} (vmem s1) (vmem s')"
      unfolding m' by (rule same_out_store64 [OF pt_tree_page [OF l(2) q(1)]]) simp
    moreover have "{?f} \<union> {q} \<subseteq> insert ?f (ran T)" using ranI [of T, OF q(1)] by simp
    ultimately show ?thesis by (rule same_out_trans [OF s1(3)])
  qed
  moreover have "space kend s' T (W - {v}) (?f # ps)"
  proof -
    have "as_ok kend (vmem s') T (W - {v})"
      by (rule as_ok_leaf [OF as_ok_subset [OF d(2)] tree(1)]) (auto simp: tree(2))
    moreover have "inj_on (frame ?m T) W" using d(2) by (simp add: as_ok_def)
    then have "?f \<notin> frame ?m T ` (W - {v})" using assms(3) by (auto dest: inj_onD)
    then have "owned (vmem s') T (W - {v}) \<inter> set (?f # ps) = {}"
      using d(4) f(3) tree(2) by (auto simp: owned_def)
    ultimately show ?thesis using s1(2) d(6) tree(2) by (simp add: space_def s'_def)
  qed
  ultimately show ?thesis using tree(2) by blast
qed

lemma for_each_map: "for_each f (map g xs) s = for_each (\<lambda>i. f (g i)) xs s"
proof (induction xs arbitrary: s)
  case (Cons x xs)
  then show ?case by (cases "f (g x) s") auto
qed simp

lemma page_steps_count:
  assumes "unat va + n * PGSIZE < 2 ^ 64"
  shows "page_steps va (va + of_nat n * 0x1000) = map (\<lambda>k. va + of_nat (k * PGSIZE)) [0..<n]"
proof -
  have "unat (of_nat n * 0x1000 :: u64) = n * PGSIZE"
  proof -
    have "(of_nat n * 0x1000 :: u64) = of_nat (n * PGSIZE)" by (simp add: PGSIZE_def)
    then show ?thesis using assms by (simp only: unat_of_nat64)
  qed
  then have "unat (va + of_nat n * 0x1000) = unat va + n * PGSIZE" using assms by (subst unat_add64) simp_all
  moreover have "(n * PGSIZE + PGSIZE - 1) div PGSIZE = n" by (simp add: PGSIZE_def)
  ultimately show ?thesis by (simp add: page_steps_def)
qed

lemma step_addr:
  assumes "unat va = v0 * PGSIZE" "v0 + k < 2 ^ 26"
  shows "va + of_nat (k * PGSIZE) < MAXVA" "vpn (va + of_nat (k * PGSIZE)) = v0 + k"
proof -
  have "k * PGSIZE < 2 ^ 64" using assms(2) by (simp add: PGSIZE_def)
  then have k: "unat (of_nat (k * PGSIZE) :: u64) = k * PGSIZE" by (rule unat_of_nat64)
  have "unat (va + of_nat (k * PGSIZE)) = (v0 + k) * PGSIZE"
  proof -
    have "unat va + unat (of_nat (k * PGSIZE) :: u64) < 2 ^ 64" using assms unfolding k by (simp add: PGSIZE_def)
    from unat_add64 [OF this] show ?thesis unfolding k by (simp add: assms(1) add_mult_distrib)
  qed
  then show "va + of_nat (k * PGSIZE) < MAXVA" "vpn (va + of_nat (k * PGSIZE)) = v0 + k"
    using assms(2) unfolding less_MAXVA vpn_def by (simp_all add: PGSIZE_def)
qed

text \<open>Unmapping a range of owned pages gives their frames back to the free list.\<close>

lemma uvmunmap_spec:
  assumes sp: "space kend s T W ps" and pt: "T [] = Some pt" and va: "unat va = v0 * PGSIZE" "v0 + n \<le> 2 ^ 26"
    and W: "{v0..<v0 + n} \<subseteq> W"
  shows "\<exists>s' ps'. uvmunmap kend pt va (of_nat n) True s = Ok s' \<and> space kend s' T (W - {v0..<v0 + n}) ps' \<and>
    set ps' = set ps \<union> frame (vmem s) T ` {v0..<v0 + n} \<and>
    leaf (vmem s') T = (\<lambda>v. if v \<in> {v0..<v0 + n} then 0 else leaf (vmem s) T v) \<and>
    same_out (ran T \<union> frame (vmem s) T ` {v0..<v0 + n}) (vmem s) (vmem s')"
proof -
  let ?F = "frame (vmem s) T" and ?R = "\<lambda>k. {v0..<v0 + k}"
  define I where "I k s' \<longleftrightarrow> (\<exists>ps'. space kend s' T (W - ?R k) ps' \<and> set ps' = set ps \<union> ?F ` ?R k \<and>
    leaf (vmem s') T = (\<lambda>v. if v \<in> ?R k then 0 else leaf (vmem s) T v) \<and> same_out (ran T \<union> ?F ` ?R k) (vmem s) (vmem s'))" for k s'
  have "\<exists>s'. for_each (\<lambda>k. uvmunmap_step kend pt True (va + of_nat (k * PGSIZE))) [0..<n] s = Ok s' \<and> I n s'"
  proof (rule for_each_upt_rule)
    show "I 0 s" unfolding I_def using sp by (auto intro!: exI [of _ ps])
    fix k s1
    assume k: "k < n" and "I k s1"
    then obtain qs where I: "space kend s1 T (W - ?R k) qs" "set qs = set ps \<union> ?F ` ?R k"
      "leaf (vmem s1) T = (\<lambda>v. if v \<in> ?R k then 0 else leaf (vmem s) T v)" "same_out (ran T \<union> ?F ` ?R k) (vmem s) (vmem s1)"
      unfolding I_def by blast
    have "v0 + k \<in> W - ?R k" using W k by auto
    note addr = step_addr [OF va(1), of k]
    have "frame (vmem s1) T (v0 + k) = ?F (v0 + k)" by (simp add: I(3))
    with uvmunmap_page [OF I(1) pt \<open>v0 + k \<in> W - ?R k\<close> addr] va(2) k
    obtain s2 where s2: "uvmunmap_step kend pt True (va + of_nat (k * PGSIZE)) s1 = Ok s2"
      "space kend s2 T (W - ?R k - {v0 + k}) (?F (v0 + k) # qs)"
      "leaf (vmem s2) T = (leaf (vmem s1) T)(v0 + k := 0)" "same_out (insert (?F (v0 + k)) (ran T)) (vmem s1) (vmem s2)"
      by auto
    have R: "?R (Suc k) = insert (v0 + k) (?R k)" by auto
    have "I (Suc k) s2"
      unfolding I_def
    proof (intro exI [of _ "?F (v0 + k) # qs"] conjI)
      show "space kend s2 T (W - ?R (Suc k)) (?F (v0 + k) # qs)" 
        using s2(2) Diff_insert [of W "v0 + k" "?R k"] by (simp only: R)
      show "set (?F (v0 + k) # qs) = set ps \<union> ?F ` ?R (Suc k)" using I(2) unfolding R by auto
      show "leaf (vmem s2) T = (\<lambda>v. if v \<in> ?R (Suc k) then 0 else leaf (vmem s) T v)"
        using s2(3) I(3) unfolding R by (auto simp: fun_eq_iff)
      show "same_out (ran T \<union> ?F ` ?R (Suc k)) (vmem s) (vmem s2)"
        unfolding R by (rule same_out_trans [OF I(4) s2(4)]) auto
    qed
    with s2(1) show "\<exists>s'. uvmunmap_step kend pt True (va + of_nat (k * PGSIZE)) s1 = Ok s' \<and> I (Suc k) s'" by blast
  qed simp
  moreover have "va mod 0x1000 = 0"
  proof -
    have "unat (va mod 0x1000) = 0" using va(1) by (simp add: unat_mod PGSIZE_def)
    then show ?thesis by (simp add: unat_eq_0)
  qed
  moreover have "page_steps va (va + of_nat n * 0x1000) = map (\<lambda>k. va + of_nat (k * PGSIZE)) [0..<n]"
    using va by (intro page_steps_count) (simp add: PGSIZE_def)
  ultimately show ?thesis
    unfolding uvmunmap_def I_def by (auto simp: for_each_map)
qed

section \<open>uvmdealloc\<close>

text \<open>The number of pages of a size.\<close>

definition upg :: "u64 \<Rightarrow> nat" where
  "upg sz = (unat sz + PGSIZE - 1) div PGSIZE"

lemma unat_up: "unat sz \<le> 2 ^ 38 \<Longrightarrow> unat (uPGROUNDUP sz) = upg sz * PGSIZE"
  by (subst unat_uPGROUNDUP) (simp_all add: PGSIZE_def PGROUNDUP_def upg_def)

lemma upg_le: "unat sz \<le> 2 ^ 38 \<Longrightarrow> upg sz \<le> 2 ^ 26"
  by (simp add: upg_def PGSIZE_def)

lemma upg_mono: "a \<le> b \<Longrightarrow> upg a \<le> upg b"
  unfolding upg_def word_le_nat_alt by (rule div_le_mono) simp

lemma scast_ucast_small: "n < 2 ^ 31 \<Longrightarrow> (scast (ucast (of_nat n :: u64) :: 32 word) :: u64) = of_nat n"
proof -
  assume n: "n < 2 ^ 31"
  then have "(ucast (of_nat n :: u64) :: 32 word) = of_nat n"
    by (simp add: unsigned_of_nat take_bit_nat_eq_self)
  moreover have "(scast (of_nat n :: 32 word) :: u64) = of_nat n"
    using n by (simp add: signed_of_nat signed_take_bit_int_eq_self)
  ultimately show ?thesis by simp
qed

lemma uvmdealloc_spec:
  assumes sp: "space kend s T W ps" and pt: "T [] = Some pt" and sz: "newsz < oldsz" "unat oldsz \<le> 2 ^ 38"
    and W: "{upg newsz..<upg oldsz} \<subseteq> W"
  shows "\<exists>s' ps'. uvmdealloc kend pt oldsz newsz s = Ok (newsz, s') \<and> space kend s' T (W - {upg newsz..<upg oldsz}) ps' \<and>
    set ps' = set ps \<union> frame (vmem s) T ` {upg newsz..<upg oldsz} \<and>
    leaf (vmem s') T = (\<lambda>v. if v \<in> {upg newsz..<upg oldsz} then 0 else leaf (vmem s) T v) \<and>
    same_out (ran T \<union> frame (vmem s) T ` {upg newsz..<upg oldsz}) (vmem s) (vmem s')"
proof -
  have n: "unat newsz \<le> 2 ^ 38" using sz by (simp add: word_less_nat_alt)
  note up = unat_up [OF n] unat_up [OF sz(2)]
  note le = upg_mono [OF less_imp_le [OF sz(1)]]
  have ge: "(newsz \<ge> oldsz) = False" using sz(1) by auto
  show ?thesis
  proof (cases "upg newsz < upg oldsz")
    case False
    then have "upg newsz = upg oldsz" using le by simp
    moreover from this have "\<not> uPGROUNDUP newsz < uPGROUNDUP oldsz" by (simp add: word_less_nat_alt up)
    ultimately have "uvmdealloc kend pt oldsz newsz s = Ok (newsz, s)"
      unfolding uvmdealloc_def ge by simp
    then show ?thesis using sp \<open>upg newsz = upg oldsz\<close> by (auto intro!: exI [of _ ps])
  next
    case True
    let ?n = "upg oldsz - upg newsz"
    have "uPGROUNDUP newsz < uPGROUNDUP oldsz" using True by (simp add: word_less_nat_alt up PGSIZE_def)
    moreover have "(uPGROUNDUP oldsz - uPGROUNDUP newsz) div 0x1000 = of_nat ?n"
    proof (rule unat_eqI)
      have "unat (uPGROUNDUP oldsz - uPGROUNDUP newsz) = ?n * PGSIZE"
        using True by (subst unat_sub64) (simp_all add: up diff_mult_distrib PGSIZE_def)
      moreover have "?n < 2 ^ 64" using upg_le [OF sz(2)] by simp
      then have "unat (of_nat ?n :: u64) = ?n" by (rule unat_of_nat64)
      ultimately show "unat ((uPGROUNDUP oldsz - uPGROUNDUP newsz) div 0x1000) = unat (of_nat ?n :: u64)"
        by (simp add: unat_div PGSIZE_def)
    qed
    moreover have "?n < 2 ^ 31" using upg_le [OF sz(2)] by simp
    ultimately have "uvmdealloc kend pt oldsz newsz s =
        bindR (uvmunmap kend pt (uPGROUNDUP newsz) (of_nat ?n) True s) (\<lambda>s. Ok (newsz, s))"
      unfolding uvmdealloc_def ge using scast_ucast_small [of ?n] by (simp add: Let_def)
    moreover have "upg newsz + ?n = upg oldsz" using True by simp
    ultimately show ?thesis
      using uvmunmap_spec [OF sp pt up(1), of ?n] upg_le [OF sz(2)] W by auto
  qed
qed

section \<open>Mapping one fresh page\<close>

lemma PTE_FLAGS_PA2PTE: "f < 1024 \<Longrightarrow> PTE_FLAGS (PA2PTE c OR f) = f"
proof -
  assume f: "f < 1024"
  have "PTE_FLAGS (PA2PTE c OR f) = take_bit 10 (PA2PTE c OR f)"
    by (simp add: PTE_FLAGS_def take_bit_eq_mask mask_eq_exp_minus_1)
  also have "\<dots> = take_bit 10 (PA2PTE c) OR take_bit 10 f" by (rule take_bit_or)
  also have "take_bit 10 (PA2PTE c) = 0" by (rule bit_eqI) (simp add: PA2PTE_def bit_simps)
  finally show ?thesis using f by (simp add: flags_less)
qed

lemma range_pages_one: "unat a = v * PGSIZE \<Longrightarrow> v < 2 ^ 26 \<Longrightarrow> range_pages a 0x1000 = 1 \<and> vpn a = v \<and> unat a + unat (0x1000 :: u64) \<le> 2 ^ 38"
proof -
  assume a: "unat a = v * PGSIZE" "v < 2 ^ 26"
  have "unat (a + 0xFFF) = v * PGSIZE + 4095"
    using a by (subst unat_add64) (simp_all add: PGSIZE_def)
  then have "unat (a + 0x1000 - 1) = v * PGSIZE + 4095" by (simp add: add.commute)
  then have "vpn (a + 0x1000 - 1) = v" unfolding vpn_def by (simp add: PGSIZE_def)
  moreover have "vpn a = v" using a(1) by (simp add: vpn_def PGSIZE_def)
  ultimately show ?thesis using a unfolding range_pages_def by (simp add: PGSIZE_def)
qed

lemma frame_mapped:
  assumes "page_ok kend c" "perm < 1024"
  shows "PTE2PA (PA2PTE c OR perm OR PTE_V) = c" "odd (PA2PTE c OR perm OR PTE_V)"
    "PTE_FLAGS (PA2PTE c OR perm OR PTE_V) = perm OR PTE_V"
proof -
  show "odd (PA2PTE c OR perm OR PTE_V)" by (simp add: even_or_iff PTE_V_def)
qed (use assms PA2PTE_flags [of c perm] PTE_FLAGS_PA2PTE [OF or_flags_less [OF assms(2) PTE_V_less], of c] in
    \<open>simp_all add: page_ok_def or.assoc\<close>)

lemma mappages_one:
  assumes sp: "space kend s T W ps" and pt: "T [] = Some pt" and a: "unat a = v * PGSIZE" "v < 2 ^ 26" "even (leaf (vmem s) T v)"
    and c: "page_ok kend c" "c \<notin> owned (vmem s) T W \<union> set ps" and perm: "perm < 1024" "perm OR PTE_V \<noteq> PTE_V"
  shows "\<exists>r s' T' ps'. mappages pt a 0x1000 c perm s = Ok (r, s') \<and> T \<subseteq>\<^sub>m T' \<and> same_out (ran T') (vmem s) (vmem s') \<and>
    (\<exists>us. ps = us @ ps' \<and> ran T' = ran T \<union> set us) \<and>
    (r = 0 \<and> space kend s' T' (insert v W) ps' \<and> leaf (vmem s') T' = (leaf (vmem s) T)(v := PA2PTE c OR perm OR PTE_V) \<or>
     r = - 1 \<and> ps' = [] \<and> space kend s' T' W [] \<and> leaf (vmem s') T' = leaf (vmem s) T)"
proof -
  note d = spaceD [OF sp]
  note one = range_pages_one [OF a(1,2)]
  have "even (leaf (vmem s) T (vpn a + k))" if "k < range_pages a 0x1000" for k using that one a(3) by simp
  with mappages_spec [OF d(1,3,5) pt, of "0x1000" a c perm] one
  obtain r s' T' ps' k where m: "mappages pt a 0x1000 c perm s = Ok (r, s')"
    "pt_to kend s T ps s' T' ps' (mapped (leaf (vmem s) T) v c perm k)" "r = 0 \<and> k = 1 \<or> r = - 1 \<and> k = 0 \<and> ps' = []"
    by auto
  have leaf1: "mapped (leaf (vmem s) T) v c perm 1 = (leaf (vmem s) T)(v := PA2PTE c OR perm OR PTE_V)"
    using mapped_Suc [of "leaf (vmem s) T" v c perm 0] by simp
  obtain us where us: "ps = us @ ps'" "ran T' = ran T \<union> set us" using m(2) by (auto simp: pt_to_def)
  have to: "vm_ok kend s' ps'" "pt_tree kend (vmem s') T'" "T \<subseteq>\<^sub>m T'" "same_out (ran T') (vmem s) (vmem s')"
    "leaf (vmem s') T' = mapped (leaf (vmem s) T) v c perm k"
    using m(2) by (auto simp: pt_to_def)
  have vW: "v \<notin> W" using as_okD(1) [OF d(2), of v] a(3) by blast
  then have same: "leaf (vmem s') T' w = leaf (vmem s) T w" if "w \<in> W" for w
    using that m(3) to(5) leaf1 by auto
  have dist: "distinct ps" using vm_ok_distinct [OF d(1)] .
  have W: "as_ok kend (vmem s') T' W"
    unfolding as_ok_def
  proof (intro conjI ballI)
    show "inj_on (frame (vmem s') T') W" using d(2) same by (simp add: as_ok_def inj_on_def)
    fix w
    assume w: "w \<in> W"
    have "frame (vmem s) T w \<notin> set ps" using d(4) w by (auto simp: owned_def)
    then show "w < 2 ^ 26" "odd (leaf (vmem s') T' w)" "page_ok kend (frame (vmem s') T' w)" "frame (vmem s') T' w \<notin> ran T'"
      using as_okD [OF d(2) w] same [OF w] us by simp_all
  qed (rule to(2))
  have ownW: "owned (vmem s') T' W \<inter> set ps' = {}"
    using d(4) us dist same unfolding owned_def by (auto simp: image_iff)
  from m(3) show ?thesis
  proof
    assume r: "r = - 1 \<and> k = 0 \<and> ps' = []"
    then have "space kend s' T' W []" using W to(1) d(6) same by (simp add: space_def)
    then show ?thesis using m(1) r to us by auto
  next
    assume r: "r = 0 \<and> k = 1"
    then have l: "leaf (vmem s') T' = (leaf (vmem s) T)(v := PA2PTE c OR perm OR PTE_V)" using to(5) leaf1 by simp
    note f = frame_mapped [OF c(1) perm(1)]
    have cW: "c \<notin> frame (vmem s') T' ` W" using c(2) same by (auto simp: owned_def)
    have "as_ok kend (vmem s') T' (insert v W)"
      using W cW vW a(2) c f us unfolding as_ok_def by (auto simp: l owned_def)
    moreover have "owned (vmem s') T' (insert v W) \<inter> set ps' = {}"
      using ownW c(2) us f by (auto simp: owned_def l)
    ultimately have "space kend s' T' (insert v W) ps'"
      using to(1) d(6) vW f perm(2) by (simp add: space_def l)
    then show ?thesis using m(1) r l to us by blast
  qed
qed

text \<open>Allocating a page and filling it.\<close>

lemma space_mem:
  assumes sp: "space kend s T W ps" and out: "same_out P (vmem s) m" "P \<inter> ran T = {}"
  shows "space kend (s\<lparr>vmem := m\<rparr>) T W ps" "leaf m T = leaf (vmem s) T"
proof -
  note fr = as_ok_frame [OF spaceD(2) [OF sp] out]
  show "leaf m T = leaf (vmem s) T" by (rule fr(2))
  show "space kend (s\<lparr>vmem := m\<rparr>) T W ps" using sp fr(1,2) by (simp add: space_def owned_def)
qed

lemma space_alloc:
  assumes sp: "space kend s T W (c # ps)"
  obtains s1 where "vkalloc s = Ok (c, s1)" "space kend s1 T W ps" "vmem s1 = memset c 5 PGSIZE (vmem s)"
    "leaf (vmem s1) T = leaf (vmem s) T" "page_ok kend c" "c \<noteq> 0" "c \<notin> owned (vmem s) T W \<union> set ps"
proof -
  note d = spaceD [OF sp]
  obtain s1 where s1: "vkalloc s = Ok (c, s1)" "vm_ok kend s1 ps" "vmem s1 = memset c 5 PGSIZE (vmem s)" "page_ok kend c" "c \<noteq> 0"
    using vkalloc_Cons [OF d(1)] by blast
  have c: "c \<notin> owned (vmem s) T W \<union> set ps" using d(4) vm_ok_distinct [OF d(1)] by auto
  have out: "same_out {c} (vmem s) (vmem s1)" unfolding s1(3) by (rule same_out_memset [OF s1(4)])
  have "{c} \<inter> ran T = {}" using c by (auto simp: owned_def)
  note fr = as_ok_frame [OF d(2) out this]
  have "space kend s1 T W ps"
    using fr(1,2) s1(2) d(4,6) by (auto simp: space_def owned_def)
  then show thesis using that s1 fr(2) c by blast
qed

section \<open>Growing an address space\<close>

text \<open>
  The state after the pages \<open>R\<close> have been added to an address space: they have the flags \<open>fl\<close> and the
  contents \<open>C\<close>, everything else is as before, and no page has been lost.
\<close>

definition grow_inv :: "nat \<Rightarrow> vmstate \<Rightarrow> ptree \<Rightarrow> nat set \<Rightarrow> nat list \<Rightarrow> (nat \<Rightarrow> u64) \<Rightarrow> (nat \<Rightarrow> nat \<Rightarrow> byte) \<Rightarrow>
    nat set \<Rightarrow> vmstate \<Rightarrow> ptree \<Rightarrow> nat list \<Rightarrow> bool" where
  "grow_inv kend s T W ps fl C R s1 T1 ps1 \<longleftrightarrow>
     space kend s1 T1 (W \<union> R) ps1 \<and> T \<subseteq>\<^sub>m T1 \<and> (\<forall>v. v \<notin> R \<longrightarrow> leaf (vmem s1) T1 v = leaf (vmem s) T v) \<and>
     (\<forall>v \<in> R. PTE_FLAGS (leaf (vmem s1) T1 v) = fl v \<and> (\<forall>j < PGSIZE. vmem s1 (frame (vmem s1) T1 v + j) = C v j)) \<and>
     owned (vmem s1) T1 (W \<union> R) \<union> set ps1 = owned (vmem s) T W \<union> set ps \<and>
     same_out (ran T \<union> set ps) (vmem s) (vmem s1)"

lemma grow_invD:
  assumes "grow_inv kend s T W ps fl C R s1 T1 ps1"
  shows "space kend s1 T1 (W \<union> R) ps1" "T \<subseteq>\<^sub>m T1" "v \<notin> R \<Longrightarrow> leaf (vmem s1) T1 v = leaf (vmem s) T v"
    "v \<in> R \<Longrightarrow> PTE_FLAGS (leaf (vmem s1) T1 v) = fl v" "v \<in> R \<Longrightarrow> j < PGSIZE \<Longrightarrow> vmem s1 (frame (vmem s1) T1 v + j) = C v j"
    "owned (vmem s1) T1 (W \<union> R) \<union> set ps1 = owned (vmem s) T W \<union> set ps" "same_out (ran T \<union> set ps) (vmem s) (vmem s1)"
  using assms by (auto simp: grow_inv_def)

lemma grow_inv_refl: "space kend s T W ps \<Longrightarrow> grow_inv kend s T W ps fl C {} s T ps"
  by (simp add: grow_inv_def)

lemma map_le_root: "T \<subseteq>\<^sub>m T1 \<Longrightarrow> T [] = Some pt \<Longrightarrow> T1 [] = Some pt"
  unfolding map_le_def by (metis domI)

lemma same_out_apply:
  assumes "same_out P m m'" "page_ok kend q" "q \<notin> P" "j < PGSIZE"
  shows "m' (q + j) = m (q + j)"
  using assms page_of_offset [OF assms(2,4)] by (simp add: same_out_def)

text \<open>Pages that are taken from the free list and changed in memory only stay inside \<open>ran T \<union> set ps\<close>.\<close>

lemma ran_mono: "T \<subseteq>\<^sub>m T1 \<Longrightarrow> ran T \<subseteq> ran T1"
proof
  fix q
  assume T: "T \<subseteq>\<^sub>m T1" and "q \<in> ran T"
  then obtain p where p: "T p = Some q" by (auto simp: ran_def)
  then have "p \<in> dom T" by (rule domI)
  with T have "T p = T1 p" by (simp add: map_le_def)
  with p show "q \<in> ran T1" by (auto intro: ranI)
qed

lemma grow_free:
  assumes g: "grow_inv kend s T W ps fl C R s1 T1 ps1" and W: "as_ok kend (vmem s) T W" and R: "W \<inter> R = {}"
    and disj: "owned (vmem s) T W \<inter> set ps = {}"
  shows "ran T1 \<subseteq> ran T \<union> set ps" "set ps1 \<subseteq> set ps" "frame (vmem s1) T1 ` R \<subseteq> set ps"
proof -
  note d = grow_invD [OF g] and sd = spaceD [OF grow_invD(1) [OF g]]
  have fW: "frame (vmem s1) T1 v = frame (vmem s) T v" if "v \<in> W" for v
  proof -
    have "v \<notin> R" using that R by blast
    then show ?thesis by (simp add: d(3))
  qed
  have inj: "inj_on (frame (vmem s1) T1) (W \<union> R)" using sd(2) by (simp add: as_ok_def)
  have sub: "x \<in> ran T \<union> set ps" if "x \<in> owned (vmem s1) T1 (W \<union> R) \<union> set ps1" "x \<notin> frame (vmem s) T ` W" for x
    using that d(6) by (auto simp: owned_def)
  have w: "frame (vmem s) T v \<notin> ran T1 \<union> set ps1" if "v \<in> W" for v
    using as_okD(3) [OF sd(2), of v] sd(4) fW [OF that] that by (auto simp: owned_def)
  show "ran T1 \<subseteq> ran T \<union> set ps" using sub w by (force simp: owned_def)
  have "ran T \<subseteq> ran T1" by (rule ran_mono [OF d(2)])
  show "set ps1 \<subseteq> set ps"
  proof
    fix x
    assume x: "x \<in> set ps1"
    then have "x \<notin> frame (vmem s) T ` W" using w by auto
    then have "x \<in> ran T \<union> set ps" using sub x by blast
    moreover have "x \<notin> ran T" using x sd(5) \<open>ran T \<subseteq> ran T1\<close> by auto
    ultimately show "x \<in> set ps" by blast
  qed
  show "frame (vmem s1) T1 ` R \<subseteq> set ps"
  proof
    fix x
    assume "x \<in> frame (vmem s1) T1 ` R"
    then obtain v where v: "v \<in> R" "x = frame (vmem s1) T1 v" by blast
    have "x \<notin> frame (vmem s) T ` W"
    proof
      assume "x \<in> frame (vmem s) T ` W"
      then obtain u where "u \<in> W" "frame (vmem s1) T1 u = frame (vmem s1) T1 v" using fW v by auto
      then have "u = v" using inj v(1) by (auto dest: inj_onD)
      then show False using \<open>u \<in> W\<close> v(1) R by auto
    qed
    then have "x \<in> ran T \<union> set ps" using sub v by (auto simp: owned_def)
    moreover have "x \<notin> ran T" using as_okD(3) [OF sd(2), of v] v \<open>ran T \<subseteq> ran T1\<close> by auto
    ultimately show "x \<in> set ps" by blast
  qed
qed

lemma grow_step:
  assumes g: "grow_inv kend s T W ps fl C R s1 T1 (c # qs)" and base: "space kend s T W ps" "W \<inter> R = {}" "T [] = Some pt"
    and v: "v \<notin> R" "even (leaf (vmem s) T v)" "unat a = v * PGSIZE" "v < 2 ^ 26"
    and perm: "perm < 1024" "perm OR PTE_V = fl v" "fl v \<noteq> PTE_V"
  obtains s2 where "vkalloc s1 = Ok (c, s2)" "vmem s2 = memset c 5 PGSIZE (vmem s1)" "c \<noteq> 0" "page_ok kend c" "c \<in> set ps"
    "\<forall>m. same_out {c} (vmem s1) m \<and> (\<forall>j < PGSIZE. m (c + j) = C v j) \<longrightarrow>
       (\<exists>r s3 T3. mappages pt a 0x1000 c perm (s2\<lparr>vmem := m\<rparr>) = Ok (r, s3) \<and>
         (r = 0 \<and> (\<exists>ps3. grow_inv kend s T W ps fl C (insert v R) s3 T3 ps3) \<or>
          r \<noteq> 0 \<and> (\<exists>s4. vkfree kend c s3 = Ok s4 \<and> grow_inv kend s T W ps fl C R s4 T3 [c])))"
proof -
  note d = grow_invD [OF g]
  obtain s2 where s2: "vkalloc s1 = Ok (c, s2)" "space kend s2 T1 (W \<union> R) qs" "vmem s2 = memset c 5 PGSIZE (vmem s1)"
    "leaf (vmem s2) T1 = leaf (vmem s1) T1" "page_ok kend c" "c \<noteq> 0" "c \<notin> owned (vmem s1) T1 (W \<union> R) \<union> set qs"
    using space_alloc [OF d(1)] by blast
  note free = grow_free [OF g spaceD(2) [OF base(1)] base(2) spaceD(4) [OF base(1)]]
  have cps: "c \<in> set ps" using free(2) by simp
  have cT1: "{c} \<inter> ran T1 = {}" using s2(7) by (auto simp: owned_def)
  show thesis
  proof (rule that [OF s2(1,3,6,5) cps], intro allI impI, elim conjE)
    fix m
    assume m0: "same_out {c} (vmem s1) m" "\<forall>j < PGSIZE. m (c + j) = C v j"
    then have m: "same_out {c} (vmem s1) m" "\<And>j. j < PGSIZE \<Longrightarrow> m (c + j) = C v j" by auto
    have "same_out {c} (vmem s2) m"
      using m(1) unfolding s2(3) same_out_def using same_out_memset [OF s2(5), of "vmem s1" 5] by (simp add: same_out_def)
    note sm = space_mem [OF s2(2) this cT1]
    let ?s = "s2\<lparr>vmem := m\<rparr>"
    have leaf: "leaf m T1 = leaf (vmem s1) T1" using sm(2) s2(4) by simp
    have ev: "even (leaf (vmem ?s) T1 v)" using leaf d(3) [OF v(1)] v(2) by simp
    have c': "c \<notin> owned (vmem ?s) T1 (W \<union> R) \<union> set qs" using s2(7) leaf by (simp add: owned_def)
    have "perm OR PTE_V \<noteq> PTE_V" using perm by simp
    from mappages_one [OF sm(1) map_le_root [OF d(2) base(3)] v(3,4) ev s2(5) c' perm(1) this]
    obtain r s3 T3 ps3 us where mp: "mappages pt a 0x1000 c perm ?s = Ok (r, s3)" "T1 \<subseteq>\<^sub>m T3" "same_out (ran T3) m (vmem s3)"
      "qs = us @ ps3" "ran T3 = ran T1 \<union> set us"
      "r = 0 \<and> space kend s3 T3 (insert v (W \<union> R)) ps3 \<and> leaf (vmem s3) T3 = (leaf m T1)(v := PA2PTE c OR perm OR PTE_V) \<or>
       r = - 1 \<and> ps3 = [] \<and> space kend s3 T3 (W \<union> R) [] \<and> leaf (vmem s3) T3 = leaf m T1"
      by auto
    have T3: "T \<subseteq>\<^sub>m T3" by (rule map_le_trans [OF d(2) mp(2)])
    have cT3: "c \<notin> ran T3" using s2(7) mp(4,5) by (auto simp: owned_def)
    have T3ps: "ran T3 \<subseteq> ran T \<union> set ps" using free(1,2) mp(4,5) by auto
    have out3: "same_out (ran T \<union> set ps) (vmem s) (vmem s3)"
    proof (rule same_out_trans [OF d(7)])
      show "same_out (ran T \<union> set ps) (vmem s1) (vmem s3)"
        by (rule same_out_trans [OF m(1) mp(3)]) (use T3ps cps in auto)
    qed simp
    have content: "vmem s3 (frame (vmem s1) T1 u + j) = C u j" if "u \<in> R" "j < PGSIZE" "frame (vmem s1) T1 u \<notin> ran T3" for u j
    proof -
      note pu = as_okD(2) [OF spaceD(2) [OF d(1)], of u]
      have ne: "frame (vmem s1) T1 u \<notin> {c}" using s2(7) that(1) by (auto simp: owned_def)
      have "vmem s3 (frame (vmem s1) T1 u + j) = m (frame (vmem s1) T1 u + j)"
        using same_out_apply [OF mp(3) pu that(3,2)] that(1) by simp
      also have "\<dots> = vmem s1 (frame (vmem s1) T1 u + j)"
        using same_out_apply [OF m(1) pu ne that(2)] that(1) by simp
      finally show ?thesis using d(5) [OF that(1,2)] by simp
    qed
    from mp(6) show "\<exists>r s3 T3. mappages pt a 0x1000 c perm ?s = Ok (r, s3) \<and>
         (r = 0 \<and> (\<exists>ps3. grow_inv kend s T W ps fl C (insert v R) s3 T3 ps3) \<or>
          r \<noteq> 0 \<and> (\<exists>s4. vkfree kend c s3 = Ok s4 \<and> grow_inv kend s T W ps fl C R s4 T3 [c]))"
    proof
      assume r: "r = 0 \<and> space kend s3 T3 (insert v (W \<union> R)) ps3 \<and> leaf (vmem s3) T3 = (leaf m T1)(v := PA2PTE c OR perm OR PTE_V)"
      then have l: "leaf (vmem s3) T3 = (leaf (vmem s1) T1)(v := PA2PTE c OR perm OR PTE_V)" using leaf by simp
      note f = frame_mapped [OF s2(5) perm(1)]
      have vW: "v \<notin> W" using as_okD(1) [OF spaceD(2) [OF base(1)], of v] v(2) by blast
      have "grow_inv kend s T W ps fl C (insert v R) s3 T3 ps3"
        unfolding grow_inv_def
      proof (intro conjI allI impI ballI)
        show "space kend s3 T3 (W \<union> insert v R) ps3" using r by simp
        show "leaf (vmem s3) T3 u = leaf (vmem s) T u" if "u \<notin> insert v R" for u using that d(3) by (simp add: l)
        show "PTE_FLAGS (leaf (vmem s3) T3 u) = fl u" if "u \<in> insert v R" for u
          using that d(4) f(3) perm(2) by (auto simp: l)
        show "vmem s3 (frame (vmem s3) T3 u + j) = C u j" if "u \<in> insert v R" "j < PGSIZE" for u j
        proof (cases "u = v")
          case True
          then show ?thesis
            using same_out_apply [OF mp(3) s2(5) cT3 that(2)] m(2) [OF that(2)] by (simp add: l f(1))
        next
          case False
          then have u: "u \<in> R" using that(1) by simp
          have "frame (vmem s3) T3 u \<notin> ran T3" 
            using as_okD(3) [OF spaceD(2), of kend s3 T3 "insert v (W \<union> R)" ps3 u] r u by auto
          then show ?thesis using content [OF u that(2)] False by (simp add: l)
        qed
        have "frame (vmem s3) T3 ` (W \<union> insert v R) = insert c (frame (vmem s1) T1 ` (W \<union> R))"
          using v(1) vW by (auto simp: l f(1))
        then have "owned (vmem s3) T3 (W \<union> insert v R) \<union> set ps3 = owned (vmem s1) T1 (W \<union> R) \<union> set (c # qs)"
          using mp(4,5) by (auto simp: owned_def)
        then show "owned (vmem s3) T3 (W \<union> insert v R) \<union> set ps3 = owned (vmem s) T W \<union> set ps" using d(6) by simp
      qed (rule T3 out3)+
      then show ?thesis using mp(1) r by blast
    next
      assume r: "r = - 1 \<and> ps3 = [] \<and> space kend s3 T3 (W \<union> R) [] \<and> leaf (vmem s3) T3 = leaf m T1"
      then have sp3: "space kend s3 T3 (W \<union> R) []" and l: "leaf (vmem s3) T3 = leaf (vmem s1) T1" using leaf by auto
      from vkfree_push [OF spaceD(1) [OF sp3] s2(5)] obtain s4 where s4: "vkfree kend c s3 = Ok s4" "vm_ok kend s4 [c]" "same_out {c} (vmem s3) (vmem s4)"
        by auto
      have cT: "{c} \<inter> ran T3 = {}" using cT3 by simp
      note fr = as_ok_frame [OF spaceD(2) [OF sp3] s4(3) cT]
      have l4: "leaf (vmem s4) T3 = leaf (vmem s1) T1" using fr(2) l by simp
      have cf: "c \<notin> frame (vmem s1) T1 ` (W \<union> R)" using s2(7) by (auto simp: owned_def)
      have "grow_inv kend s T W ps fl C R s4 T3 [c]"
        unfolding grow_inv_def
      proof (intro conjI allI impI ballI)
        show "space kend s4 T3 (W \<union> R) [c]"
          using fr(1) s4(2) cT3 cf spaceD(6) [OF sp3] l by (auto simp: space_def owned_def l4)
        show "leaf (vmem s4) T3 u = leaf (vmem s) T u" if "u \<notin> R" for u using that d(3) by (simp add: l4)
        show "PTE_FLAGS (leaf (vmem s4) T3 u) = fl u" if "u \<in> R" for u using that d(4) by (simp add: l4)
        show "vmem s4 (frame (vmem s4) T3 u + j) = C u j" if u: "u \<in> R" "j < PGSIZE" for u j
        proof -
          have pu: "page_ok kend (frame (vmem s1) T1 u)" "frame (vmem s1) T1 u \<notin> ran T3"
            using as_okD(2,3) [OF spaceD(2) [OF sp3], of u] u(1) l by auto
          have "frame (vmem s1) T1 u \<notin> {c}" using cf u(1) by auto
          from same_out_apply [OF s4(3) pu(1) this u(2)] content [OF u pu(2)] show ?thesis by (simp add: l4)
        qed
        show "owned (vmem s4) T3 (W \<union> R) \<union> set [c] = owned (vmem s) T W \<union> set ps"
          using d(6) mp(4,5) r by (auto simp: owned_def l4)
        show "same_out (ran T \<union> set ps) (vmem s) (vmem s4)"
          by (rule same_out_trans [OF out3 s4(3)]) (use cps in auto)
      qed (rule T3)
      then show ?thesis using mp(1) r s4(1) by auto
    qed
  qed
qed

text \<open>Taking the new pages away again: the address space is as before, apart from invalid leaf entries.\<close>

definition restored :: "nat \<Rightarrow> vmstate \<Rightarrow> ptree \<Rightarrow> nat set \<Rightarrow> nat list \<Rightarrow> vmstate \<Rightarrow> ptree \<Rightarrow> nat list \<Rightarrow> bool" where
  "restored kend s T W ps s1 T1 ps1 \<longleftrightarrow>
     space kend s1 T1 W ps1 \<and> T \<subseteq>\<^sub>m T1 \<and>
     (\<forall>v. leaf (vmem s1) T1 v = leaf (vmem s) T v \<or> leaf (vmem s1) T1 v = 0 \<and> even (leaf (vmem s) T v)) \<and>
     owned (vmem s1) T1 W \<union> set ps1 = owned (vmem s) T W \<union> set ps \<and> same_out (ran T \<union> set ps) (vmem s) (vmem s1)"

lemma grow_restored:
  assumes g: "grow_inv kend s T W ps fl C R s1 T1 ps1" and base: "space kend s T W ps"
    and ev: "\<And>v. v \<in> R \<Longrightarrow> even (leaf (vmem s) T v)"
    and u: "space kend s' T1 (W \<union> R - R) ps'" "set ps' = set ps1 \<union> frame (vmem s1) T1 ` R"
    "leaf (vmem s') T1 = (\<lambda>v. if v \<in> R then 0 else leaf (vmem s1) T1 v)"
    "same_out (ran T1 \<union> frame (vmem s1) T1 ` R) (vmem s1) (vmem s')"
  shows "restored kend s T W ps s' T1 ps'"
  unfolding restored_def
proof (intro conjI allI)
  note d = grow_invD [OF g]
  have disj: "W \<inter> R = {}" using as_okD(1) [OF spaceD(2) [OF base]] ev by blast
  note free = grow_free [OF g spaceD(2) [OF base] disj spaceD(4) [OF base]]
  have "W \<union> R - R = W" using disj by auto
  with u(1) show "space kend s' T1 W ps'" by simp
  have l: "leaf (vmem s') T1 v = leaf (vmem s1) T1 v" if "v \<in> W" for v using that disj by (auto simp: u(3))
  show "leaf (vmem s') T1 v = leaf (vmem s) T v \<or> leaf (vmem s') T1 v = 0 \<and> even (leaf (vmem s) T v)" for v
    using d(3) [of v] ev [of v] by (simp only: u(3)) auto
  have "owned (vmem s') T1 W \<union> set ps' = owned (vmem s1) T1 (W \<union> R) \<union> set ps1"
    using l u(2) by (auto simp: owned_def)
  then show "owned (vmem s') T1 W \<union> set ps' = owned (vmem s) T W \<union> set ps" using d(6) by simp
  show "same_out (ran T \<union> set ps) (vmem s) (vmem s')"
    by (rule same_out_trans [OF d(7) u(4)]) (use free in auto)
  show "T \<subseteq>\<^sub>m T1" by (rule d(2))
qed

lemma grow_undo:
  assumes g: "grow_inv kend s T W ps fl C {n0..<n0 + k} s1 T1 ps1" and base: "space kend s T W ps" "T [] = Some pt"
    and va: "unat va = n0 * PGSIZE" "n0 + k \<le> 2 ^ 26" and ev: "\<And>v. v \<in> {n0..<n0 + k} \<Longrightarrow> even (leaf (vmem s) T v)"
  shows "\<exists>s' ps'. uvmunmap kend pt va (of_nat k) True s1 = Ok s' \<and> restored kend s T W ps s' T1 ps'"
  using uvmunmap_spec [OF grow_invD(1) [OF g] map_le_root [OF grow_invD(2) [OF g] base(2)] va] grow_restored [OF g base(1) ev]
  by blast

section \<open>uvmalloc\<close>

lemma upg_up: "unat sz \<le> 2 ^ 38 \<Longrightarrow> unat a = upg sz * PGSIZE + k * PGSIZE \<Longrightarrow> upg a = upg sz + k"
proof -
  assume "unat a = upg sz * PGSIZE + k * PGSIZE"
  then have "upg a = ((upg sz + k) * PGSIZE + (PGSIZE - 1)) div PGSIZE" unfolding upg_def [of a] by (simp add: add_mult_distrib PGSIZE_def)
  also have "\<dots> = upg sz + k" by (simp add: PGSIZE_def)
  finally show ?thesis .
qed

lemma up_addr:
  assumes "unat oldsz \<le> 2 ^ 38" "upg oldsz + k \<le> 2 ^ 26"
  shows "unat (uPGROUNDUP oldsz + of_nat (k * PGSIZE)) = upg oldsz * PGSIZE + k * PGSIZE"
proof -
  note up = unat_up [OF assms(1)]
  have kP: "unat (of_nat (k * PGSIZE) :: u64) = k * PGSIZE" using assms(2) by (intro unat_of_nat64) (simp add: PGSIZE_def)
  have "unat (uPGROUNDUP oldsz) + unat (of_nat (k * PGSIZE) :: u64) < 2 ^ 64" using assms(2) unfolding up kP by (simp add: PGSIZE_def)
  from unat_add64 [OF this] show ?thesis by (simp only: up kP)
qed

lemma uvmalloc_undo:
  assumes g: "grow_inv kend s T W ps fl C {upg oldsz..<upg oldsz + k} s1 T1 ps1" and base: "space kend s T W ps" "T [] = Some pt"
    and sz: "unat oldsz \<le> 2 ^ 38" "upg oldsz + k \<le> 2 ^ 26"
    and ev: "\<And>v. v \<in> {upg oldsz..<upg oldsz + k} \<Longrightarrow> even (leaf (vmem s) T v)"
  shows "\<exists>x s' ps'. uvmdealloc kend pt (uPGROUNDUP oldsz + of_nat (k * PGSIZE)) (uPGROUNDUP oldsz) s1 = Ok (x, s') \<and>
    restored kend s T W ps s' T1 ps'"
proof (cases "k = 0")
  case True
  note d = grow_invD [OF g]
  have "restored kend s T W ps s1 T1 ps1" using g True by (auto simp: restored_def grow_inv_def)
  then show ?thesis using True by (auto simp: uvmdealloc_def)
next
  case False
  let ?R = "{upg oldsz..<upg oldsz + k}" and ?a = "uPGROUNDUP oldsz + of_nat (k * PGSIZE)"
  note up = unat_up [OF sz(1)] and a = up_addr [OF sz]
  have lt: "uPGROUNDUP oldsz < ?a" using False unfolding word_less_nat_alt a up by (simp add: PGSIZE_def)
  have le: "unat ?a \<le> 2 ^ 38" using sz(2) unfolding a by (simp add: PGSIZE_def)
  have u: "upg (uPGROUNDUP oldsz) = upg oldsz" "upg ?a = upg oldsz + k"
    using upg_up [OF sz(1), of "uPGROUNDUP oldsz" 0] upg_up [OF sz(1) a] up by simp_all
  show ?thesis
    using uvmdealloc_spec [OF grow_invD(1) [OF g] map_le_root [OF grow_invD(2) [OF g] base(2)] lt le] grow_restored [OF g base(1) ev]
    unfolding u by blast
qed

lemma div_up_diff:
  assumes "0 < (c :: nat)"
  shows "(x - n * c + c - 1) div c = (x + c - 1) div c - n"
proof (cases "n * c \<le> x")
  case True
  then obtain y where x: "x = n * c + y" using le_Suc_ex by blast
  then have "(x + c - 1) div c = (n * c + (y + c - 1)) div c" using assms by (simp add: algebra_simps)
  also have "\<dots> = n + (y + c - 1) div c" using assms div_mult_self3 [of c n "y + c - 1"] by simp
  finally show ?thesis using x by simp
next
  case False
  then have "x + c - 1 < Suc n * c" using assms by simp
  then have "(x + c - 1) div c < Suc n" using assms by (simp add: div_less_iff_less_mult)
  then show ?thesis using False assms by simp
qed

lemma page_steps_up:
  assumes "oldsz \<le> newsz" "unat newsz \<le> 2 ^ 38"
  shows "page_steps (uPGROUNDUP oldsz) newsz = map (\<lambda>k. uPGROUNDUP oldsz + of_nat (k * PGSIZE)) [0..<upg newsz - upg oldsz]"
proof -
  have "unat oldsz \<le> 2 ^ 38" using assms by (simp add: word_le_nat_alt)
  note up = unat_up [OF this]
  have "(unat newsz - upg oldsz * PGSIZE + PGSIZE - 1) div PGSIZE = upg newsz - upg oldsz"
    unfolding upg_def [of newsz] by (rule div_up_diff) (simp add: PGSIZE_def)
  then show ?thesis by (simp add: page_steps_def up)
qed

lemma for_ret_map: "for_ret f (map g xs) s = for_ret (\<lambda>i. f (g i)) xs s"
proof (induction xs arbitrary: s)
  case (Cons x xs)
  then show ?case by (cases "f (g x) s") (auto split: option.splits)
qed simp

lemma user_flags:
  assumes "xperm < 1024"
  shows "PTE_R OR PTE_U OR xperm < 1024" "PTE_R OR PTE_U OR xperm OR PTE_V \<noteq> PTE_V" "(PTE_R OR PTE_U OR xperm OR PTE_V) AND PTE_U \<noteq> 0"
proof -
  have "PTE_R OR PTE_U < 1024" by (simp add: PTE_R_def PTE_U_def)
  from or_flags_less [OF this assms] show "PTE_R OR PTE_U OR xperm < 1024" by (simp add: or.assoc)
  have "bit (PTE_R OR PTE_U OR xperm OR PTE_V) 4" "\<not> bit PTE_V 4" "bit PTE_U 4"
    by (simp_all add: bit_or_iff PTE_U_def PTE_V_def)
  then show "PTE_R OR PTE_U OR xperm OR PTE_V \<noteq> PTE_V" by metis
  have "bit ((PTE_R OR PTE_U OR xperm OR PTE_V) AND PTE_U) 4"
    using \<open>bit (PTE_R OR PTE_U OR xperm OR PTE_V) 4\<close> \<open>bit PTE_U 4\<close> by (simp only: bit_and_iff)
  then show "(PTE_R OR PTE_U OR xperm OR PTE_V) AND PTE_U \<noteq> 0" by (rule contrapos_pn) simp
qed

lemma uvmalloc_spec:
  assumes base: "space kend s T W ps" "T [] = Some pt" and sz: "oldsz \<le> newsz" "unat newsz \<le> 2 ^ 38" and x: "xperm < 1024"
    and ev: "\<And>v. v \<in> {upg oldsz..<upg newsz} \<Longrightarrow> even (leaf (vmem s) T v)"
  defines "fl \<equiv> \<lambda>v. PTE_R OR PTE_U OR xperm OR PTE_V"
  shows "\<exists>r s' T' ps'. uvmalloc kend pt oldsz newsz xperm s = Ok (r, s') \<and>
    (r = newsz \<and> grow_inv kend s T W ps fl (\<lambda>_ _. 0) {upg oldsz..<upg newsz} s' T' ps' \<or> r = 0 \<and> restored kend s T W ps s' T' ps')"
proof -
  let ?b = "upg oldsz" and ?n = "upg newsz - upg oldsz" and ?C = "\<lambda>_ _. 0 :: byte"
  let ?a = "\<lambda>k. uPGROUNDUP oldsz + of_nat (k * PGSIZE)"
  let ?f = "\<lambda>k. uvmalloc_step kend pt (uPGROUNDUP oldsz) xperm (?a k)"
  define I where "I k s1 \<longleftrightarrow> (\<exists>T1 ps1. grow_inv kend s T W ps fl ?C {?b..<?b + k} s1 T1 ps1)" for k s1
  define Q where "Q x s1 \<longleftrightarrow> x = 0 \<and> (\<exists>T1 ps1. restored kend s T W ps s1 T1 ps1)" for x :: u64 and s1
  have le: "?b \<le> upg newsz" "upg newsz \<le> 2 ^ 26" using upg_mono [OF sz(1)] upg_le [OF sz(2)] .
  have osz: "unat oldsz \<le> 2 ^ 38" using sz by (simp add: word_le_nat_alt)
  have loop: "(\<exists>s'. for_ret ?f [0..<?n] s = Ok (None, s') \<and> I ?n s') \<or> (\<exists>x s'. for_ret ?f [0..<?n] s = Ok (Some x, s') \<and> Q x s')"
  proof (rule for_ret_upt_rule)
    show "I 0 s" unfolding I_def using grow_inv_refl [OF base(1)] by auto
    fix k s1
    assume k: "k < ?n" and "I k s1"
    then obtain T1 ps1 where g: "grow_inv kend s T W ps fl ?C {?b..<?b + k} s1 T1 ps1" unfolding I_def by blast
    let ?R = "{?b..<?b + k}"
    have evR: "even (leaf (vmem s) T v)" if "v \<in> ?R" for v using that k by (intro ev) auto
    have disj: "W \<inter> ?R = {}" using as_okD(1) [OF spaceD(2) [OF base(1)]] evR by blast
    have undo: "\<exists>x s' ps'. uvmdealloc kend pt (?a k) (uPGROUNDUP oldsz) s2 = Ok (x, s') \<and> restored kend s T W ps s' T2 ps'"
      if "grow_inv kend s T W ps fl ?C ?R s2 T2 ps2" for s2 T2 ps2
      using k le by (intro uvmalloc_undo [OF that base osz _ evR]) auto
    show "(\<exists>s'. ?f k s1 = Ok (None, s') \<and> I (Suc k) s') \<or> (\<exists>x s'. ?f k s1 = Ok (Some x, s') \<and> Q x s')"
    proof (cases ps1)
      case Nil
      then have "vkalloc s1 = Ok (0, s1)" using spaceD(1) [OF grow_invD(1) [OF g]] by (simp add: vkalloc_Nil)
      moreover obtain y s' ps' where "uvmdealloc kend pt (?a k) (uPGROUNDUP oldsz) s1 = Ok (y, s')" "restored kend s T W ps s' T1 ps'"
        using undo [OF g] by blast
      ultimately show ?thesis by (auto simp: uvmalloc_step_def Q_def simp del: of_nat_mult)
    next
      case (Cons c qs)
      have u: "unat (?a k) = (?b + k) * PGSIZE" using up_addr [OF osz, of k] k le by (simp add: add_mult_distrib del: of_nat_mult)
      have v: "?b + k \<notin> ?R" "even (leaf (vmem s) T (?b + k))" "?b + k < 2 ^ 26" using k le by (auto intro!: ev)
      note uf = user_flags [OF x]
      have fl: "(PTE_R OR PTE_U OR xperm) OR PTE_V = fl (?b + k)" "fl (?b + k) \<noteq> PTE_V" using uf(2) by (simp_all add: fl_def or.assoc)
      obtain s2 where s2: "vkalloc s1 = Ok (c, s2)" "vmem s2 = memset c 5 PGSIZE (vmem s1)" "c \<noteq> 0" "page_ok kend c" "c \<in> set ps"
        and fill: "\<forall>m. same_out {c} (vmem s1) m \<and> (\<forall>j < PGSIZE. m (c + j) = 0) \<longrightarrow>
         (\<exists>r s3 T3. mappages pt (?a k) 0x1000 c (PTE_R OR PTE_U OR xperm) (s2\<lparr>vmem := m\<rparr>) = Ok (r, s3) \<and>
           (r = 0 \<and> (\<exists>ps3. grow_inv kend s T W ps fl ?C (insert (?b + k) ?R) s3 T3 ps3) \<or>
            r \<noteq> 0 \<and> (\<exists>s4. vkfree kend c s3 = Ok s4 \<and> grow_inv kend s T W ps fl ?C ?R s4 T3 [c])))"
        by (rule grow_step [OF g [unfolded Cons] base(1) disj base(2) v(1,2) u v(3) uf(1) fl])
      have "same_out {c} (vmem s1) (memset c 0 PGSIZE (vmem s2))"
        unfolding s2(2) using same_out_memset [OF s2(4)] same_out_memset [OF s2(4)] by (rule same_out_trans) simp
      then have "same_out {c} (vmem s1) (memset c 0 PGSIZE (vmem s2)) \<and> (\<forall>j < PGSIZE. memset c 0 PGSIZE (vmem s2) (c + j) = 0)"
        by (simp add: memset_apply)
      from fill [THEN spec, THEN mp, OF this] obtain r s3 T3 where r: "mappages pt (?a k) 0x1000 c (PTE_R OR PTE_U OR xperm) (s2\<lparr>vmem := memset c 0 PGSIZE (vmem s2)\<rparr>) = Ok (r, s3)"
        "r = 0 \<and> (\<exists>ps3. grow_inv kend s T W ps fl ?C (insert (?b + k) ?R) s3 T3 ps3) \<or>
         r \<noteq> 0 \<and> (\<exists>s4. vkfree kend c s3 = Ok s4 \<and> grow_inv kend s T W ps fl ?C ?R s4 T3 [c])"
        by blast
      have R: "{?b..<?b + Suc k} = insert (?b + k) ?R" by auto
      from r(2) show ?thesis
      proof
        assume "r = 0 \<and> (\<exists>ps3. grow_inv kend s T W ps fl ?C (insert (?b + k) ?R) s3 T3 ps3)"
        then have "?f k s1 = Ok (None, s3) \<and> I (Suc k) s3"
          unfolding I_def R using s2(1,3) r(1) by (auto simp: uvmalloc_step_def simp del: of_nat_mult)
        then show ?thesis by blast
      next
        assume "r \<noteq> 0 \<and> (\<exists>s4. vkfree kend c s3 = Ok s4 \<and> grow_inv kend s T W ps fl ?C ?R s4 T3 [c])"
        then obtain s4 where s4: "r \<noteq> 0" "vkfree kend c s3 = Ok s4" "grow_inv kend s T W ps fl ?C ?R s4 T3 [c]" by blast
        with undo [OF s4(3)] obtain y s' ps' where "uvmdealloc kend pt (?a k) (uPGROUNDUP oldsz) s4 = Ok (y, s')" "restored kend s T W ps s' T3 ps'"
          by blast
        then have "?f k s1 = Ok (Some 0, s') \<and> Q 0 s'"
          using s2(1,3) r(1) s4 by (auto simp: uvmalloc_step_def Q_def simp del: of_nat_mult)
        then show ?thesis by blast
      qed
    qed
  qed
  have steps: "uvmalloc kend pt oldsz newsz xperm s = bindR (for_ret ?f [0..<?n] s) (\<lambda>(r, s). case r of Some r \<Rightarrow> Ok (r, s) | None \<Rightarrow> Ok (newsz, s))"
    using sz(1) by (simp add: uvmalloc_def page_steps_up [OF sz] for_ret_map Let_def not_less [symmetric] del: of_nat_mult)
  have R: "{?b..<?b + ?n} = {upg oldsz..<upg newsz}" using le by simp
  from loop show ?thesis
  proof
    assume "\<exists>s'. for_ret ?f [0..<?n] s = Ok (None, s') \<and> I ?n s'"
    then obtain s' T' ps' where "for_ret ?f [0..<?n] s = Ok (None, s')" "grow_inv kend s T W ps fl ?C {upg oldsz..<upg newsz} s' T' ps'"
      unfolding I_def R by blast
    then have "uvmalloc kend pt oldsz newsz xperm s = Ok (newsz, s')" by (simp only: steps bindR.simps prod.case option.case)
    with \<open>grow_inv kend s T W ps fl ?C {upg oldsz..<upg newsz} s' T' ps'\<close> show ?thesis by blast
  next
    assume "\<exists>x s'. for_ret ?f [0..<?n] s = Ok (Some x, s') \<and> Q x s'"
    then obtain s' T' ps' where "for_ret ?f [0..<?n] s = Ok (Some 0, s')" "restored kend s T W ps s' T' ps'"
      unfolding Q_def by blast
    then have "uvmalloc kend pt oldsz newsz xperm s = Ok (0, s')" by (simp only: steps bindR.simps prod.case option.case)
    with \<open>restored kend s T W ps s' T' ps'\<close> show ?thesis by blast
  qed
qed

end
