(* ===== verification/Vm_Fork.thy ===== *)
theory Vm_Fork
  imports Vm_Space
begin

text \<open>
  Copying a whole address space (\<open>uvmcopy\<close>, used by fork) and giving one back (\<open>freewalk\<close>, \<open>uvmfree\<close>),
  of kernel/vm.c.
\<close>

unbundle bit_operations_syntax

section \<open>uvmcopy\<close>

lemma PTE_FLAGS_less: "PTE_FLAGS e < 1024"
  by (simp add: PTE_FLAGS_def flags_less take_bit_eq_mask mask_eq_exp_minus_1 and.assoc)

lemma PTE_FLAGS_valid: "odd e \<Longrightarrow> PTE_FLAGS e OR PTE_V = PTE_FLAGS e"
  by (rule bit_word_eqI) (auto simp: PTE_FLAGS_def PTE_V_def bit_simps bit_1_iff even_iff_mod_2_eq_zero bit_0)

lemma page_addr:
  assumes "k < 2 ^ 26"
  shows "unat (of_nat (k * PGSIZE) :: u64) = k * PGSIZE" "(of_nat (k * PGSIZE) :: u64) < MAXVA"
    "vpn (of_nat (k * PGSIZE)) = k" "(of_nat (k * PGSIZE) :: u64) div 0x1000 = of_nat k"
proof -
  show u: "unat (of_nat (k * PGSIZE) :: u64) = k * PGSIZE" using assms by (intro unat_of_nat64) (simp add: PGSIZE_def)
  show "(of_nat (k * PGSIZE) :: u64) < MAXVA" using assms unfolding less_MAXVA u by (simp add: PGSIZE_def)
  show "vpn (of_nat (k * PGSIZE)) = k" unfolding vpn_def u by (simp add: PGSIZE_def)
  have "unat (of_nat k :: u64) = k" using assms by (intro unat_of_nat64) simp
  then show "(of_nat (k * PGSIZE) :: u64) div 0x1000 = of_nat k"
    by (intro unat_eqI) (simp only: unat_div u, simp add: PGSIZE_def)
qed

lemma page_steps_0: "page_steps 0 sz = map (\<lambda>k. of_nat (k * PGSIZE)) [0..<upg sz]"
  by (simp add: page_steps_def upg_def del: of_nat_mult)

text \<open>The parent: an address space of its own, disjoint from the child and from the free list.\<close>

definition parent :: "nat \<Rightarrow> vmstate \<Rightarrow> ptree \<Rightarrow> nat set \<Rightarrow> nat set \<Rightarrow> bool" where
  "parent kend s P V X \<longleftrightarrow> as_ok kend (vmem s) P V \<and> owned (vmem s) P V \<inter> X = {} \<and>
     (\<forall>v \<in> V. PTE_FLAGS (leaf (vmem s) P v) \<noteq> PTE_V)"

lemma parentD:
  assumes "parent kend s P V X"
  shows "as_ok kend (vmem s) P V" "ran P \<inter> X = {}" "v \<in> V \<Longrightarrow> frame (vmem s) P v \<notin> X"
    "v \<in> V \<Longrightarrow> PTE_FLAGS (leaf (vmem s) P v) \<noteq> PTE_V"
  using assms by (auto simp: parent_def owned_def)

lemma parent_same:
  assumes p: "parent kend s P V X" and out: "same_out X (vmem s) m"
  shows "as_ok kend m P V" "leaf m P = leaf (vmem s) P"
    "v \<in> V \<Longrightarrow> j < PGSIZE \<Longrightarrow> m (frame (vmem s) P v + j) = vmem s (frame (vmem s) P v + j)"
proof -
  have X: "X \<inter> ran P = {}" using parentD(2) [OF p] by blast
  note fr = as_ok_frame [OF parentD(1) [OF p] out X]
  show "as_ok kend m P V" "leaf m P = leaf (vmem s) P" using fr by auto
  assume "v \<in> V" "j < PGSIZE"
  then show "m (frame (vmem s) P v + j) = vmem s (frame (vmem s) P v + j)"
    using as_okD [OF parentD(1) [OF p]] parentD(3) [OF p] by (intro same_out_apply [OF out]) auto
qed

lemma walk_parent:
  assumes "as_ok kend (vmem s) P V" "P [] = Some old" "v \<in> V"
  obtains pte where "walk old (of_nat (v * PGSIZE)) False s = Ok (pte, s)" "pte \<noteq> 0"
    "load64 (vmem s) pte = leaf (vmem s) P v"
proof -
  note v = as_okD [OF assms(1,3)]
  note a = page_addr [OF v(4)]
  have "pt_tree kend (vmem s) P" using assms(1) by (simp add: as_ok_def)
  from walk_entry [OF this assms(2) a(2)] v(1) that show thesis unfolding a(3) by fastforce
qed

lemma uvmcopy_step_spec:
  assumes g: "grow_inv kend s T W ps fl C {0..<k} s1 T1 ps1" and base: "space kend s T W ps" "T [] = Some new"
    and par: "parent kend s P V (ran T \<union> set ps)" "P [] = Some old" "k \<in> V"
    and ev: "\<And>v. v \<in> {0..k} \<Longrightarrow> even (leaf (vmem s) T v)"
    and fl: "fl k = PTE_FLAGS (leaf (vmem s) P k)" and C: "\<And>j. C k j = vmem s (frame (vmem s) P k + j)"
  shows "(\<exists>s2 T2 ps2. uvmcopy_step kend old new (of_nat (k * PGSIZE)) s1 = Ok (None, s2) \<and>
      grow_inv kend s T W ps fl C {0..<Suc k} s2 T2 ps2) \<or>
    (\<exists>s2 T2 ps2. uvmcopy_step kend old new (of_nat (k * PGSIZE)) s1 = Ok (Some (- 1), s2) \<and> restored kend s T W ps s2 T2 ps2)"
proof -
  let ?a = "of_nat (k * PGSIZE) :: u64" and ?R = "{0..<k}" and ?e = "leaf (vmem s) P k"
  have P: "as_ok kend (vmem s1) P V" "leaf (vmem s1) P = leaf (vmem s) P" using parent_same(1,2) [OF par(1) grow_invD(7) [OF g]] .
  note v = as_okD [OF parentD(1) [OF par(1)] par(3)] and a = page_addr [OF as_okD(4) [OF P(1) par(3)]]
  obtain pte where pte: "walk old ?a False s1 = Ok (pte, s1)" "pte \<noteq> 0" "load64 (vmem s1) pte = ?e"
    using walk_parent [OF P(1) par(2,3)] unfolding P(2) .
  have disj: "W \<inter> ?R = {}" using as_okD(1) [OF spaceD(2) [OF base(1)]] ev by fastforce
  have undo: "\<exists>s' ps'. uvmunmap kend new 0 (?a div 0x1000) True s2 = Ok s' \<and> restored kend s T W ps s' T2 ps'"
    if "grow_inv kend s T W ps fl C ?R s2 T2 ps2" for s2 T2 ps2
    unfolding a(4) by (rule grow_undo [where ?n0.0 = 0, unfolded add_0, OF that base]) (use v(4) ev in auto)
  show ?thesis
  proof (cases ps1)
    case Nil
    then have "vkalloc s1 = Ok (0, s1)" using spaceD(1) [OF grow_invD(1) [OF g]] by (simp add: vkalloc_Nil)
    moreover obtain s' ps' where "uvmunmap kend new 0 (?a div 0x1000) True s1 = Ok s'" "restored kend s T W ps s' T1 ps'"
      using undo [OF g] by blast
    ultimately have "uvmcopy_step kend old new ?a s1 = Ok (Some (- 1), s')"
      using pte v(1) by (simp add: uvmcopy_step_def Let_def del: of_nat_mult)
    with \<open>restored kend s T W ps s' T1 ps'\<close> show ?thesis by blast
  next
    case (Cons c qs)
    have fl': "PTE_FLAGS ?e OR PTE_V = fl k" "fl k \<noteq> PTE_V" using PTE_FLAGS_valid [OF v(1)] fl parentD(4) [OF par(1,3)] by simp_all
    obtain s2 where s2: "vkalloc s1 = Ok (c, s2)" "vmem s2 = memset c 5 PGSIZE (vmem s1)" "c \<noteq> 0" "page_ok kend c" "c \<in> set ps"
      and fill: "\<forall>m. same_out {c} (vmem s1) m \<and> (\<forall>j < PGSIZE. m (c + j) = C k j) \<longrightarrow>
       (\<exists>r s3 T3. mappages new ?a 0x1000 c (PTE_FLAGS ?e) (s2\<lparr>vmem := m\<rparr>) = Ok (r, s3) \<and>
         (r = 0 \<and> (\<exists>ps3. grow_inv kend s T W ps fl C (insert k ?R) s3 T3 ps3) \<or>
          r \<noteq> 0 \<and> (\<exists>s4. vkfree kend c s3 = Ok s4 \<and> grow_inv kend s T W ps fl C ?R s4 T3 [c])))"
      by (rule grow_step [OF g [unfolded Cons] base(1) disj base(2) _ _ a(1) v(4) PTE_FLAGS_less fl']) (use ev in auto)
    let ?m = "memmove c (PTE2PA ?e) PGSIZE (vmem s2)"
    have "same_out {c} (vmem s1) (vmem s2)" unfolding s2(2) by (rule same_out_memset [OF s2(4)])
    moreover have "same_out {c} (vmem s2) ?m"
      unfolding memmove_bytes by (rule same_out_page [OF s2(4)]) (auto simp: put_bytes_def)
    ultimately have "same_out {c} (vmem s1) ?m" by (rule same_out_trans) simp
    moreover have "?m (c + j) = C k j" if "j < PGSIZE" for j
    proof -
      have "frame (vmem s) P k \<noteq> c" using parentD(3) [OF par(1,3)] s2(5) by blast
      then have "vmem s2 (PTE2PA ?e + j) = vmem s1 (PTE2PA ?e + j)"
        using that v(2) \<open>same_out {c} (vmem s1) (vmem s2)\<close> by (intro same_out_apply) auto
      then show ?thesis
        using that parent_same(3) [OF par(1) grow_invD(7) [OF g] par(3) that] by (simp add: memmove_bytes put_bytes_def C)
    qed
    ultimately have "same_out {c} (vmem s1) ?m \<and> (\<forall>j < PGSIZE. ?m (c + j) = C k j)" by blast
    from fill [THEN spec, THEN mp, OF this] obtain r s3 T3 where r: "mappages new ?a 0x1000 c (PTE_FLAGS ?e) (s2\<lparr>vmem := ?m\<rparr>) = Ok (r, s3)"
      "r = 0 \<and> (\<exists>ps3. grow_inv kend s T W ps fl C (insert k ?R) s3 T3 ps3) \<or>
       r \<noteq> 0 \<and> (\<exists>s4. vkfree kend c s3 = Ok s4 \<and> grow_inv kend s T W ps fl C ?R s4 T3 [c])"
      by blast
    have R: "{0..<Suc k} = insert k ?R" by auto
    note step = uvmcopy_step_def pte s2(1,3) r(1) v(1) Let_def
    from r(2) show ?thesis
    proof
      assume "r = 0 \<and> (\<exists>ps3. grow_inv kend s T W ps fl C (insert k ?R) s3 T3 ps3)"
      then obtain ps3 where "r = 0" "grow_inv kend s T W ps fl C {0..<Suc k} s3 T3 ps3" unfolding R by blast
      moreover from this have "uvmcopy_step kend old new ?a s1 = Ok (None, s3)" by (simp add: step del: of_nat_mult)
      ultimately show ?thesis by blast
    next
      assume "r \<noteq> 0 \<and> (\<exists>s4. vkfree kend c s3 = Ok s4 \<and> grow_inv kend s T W ps fl C ?R s4 T3 [c])"
      then obtain s4 where s4: "r \<noteq> 0" "vkfree kend c s3 = Ok s4" "grow_inv kend s T W ps fl C ?R s4 T3 [c]" by blast
      obtain s' ps' where u: "uvmunmap kend new 0 (?a div 0x1000) True s4 = Ok s'" "restored kend s T W ps s' T3 ps'"
        using undo [OF s4(3)] by blast
      have "uvmcopy_step kend old new ?a s1 = Ok (Some (- 1), s')" using s4(1,2) u(1) by (simp add: step del: of_nat_mult)
      with u(2) show ?thesis by blast
    qed
  qed
qed

lemma uvmcopy_spec:
  assumes base: "space kend s T W ps" "T [] = Some new" and par: "parent kend s P V (ran T \<union> set ps)" "P [] = Some old"
    and sz: "{0..<upg sz} \<subseteq> V" and ev: "\<And>v. v < upg sz \<Longrightarrow> even (leaf (vmem s) T v)"
  defines "fl \<equiv> \<lambda>v. PTE_FLAGS (leaf (vmem s) P v)" and "C \<equiv> \<lambda>v j. vmem s (frame (vmem s) P v + j)"
  shows "\<exists>r s' T' ps'. uvmcopy kend old new sz s = Ok (r, s') \<and>
    (r = 0 \<and> grow_inv kend s T W ps fl C {0..<upg sz} s' T' ps' \<or> r = - 1 \<and> restored kend s T W ps s' T' ps')"
proof -
  let ?f = "\<lambda>k. uvmcopy_step kend old new (of_nat (k * PGSIZE))"
  define I where "I k s1 \<longleftrightarrow> (\<exists>T1 ps1. grow_inv kend s T W ps fl C {0..<k} s1 T1 ps1)" for k s1
  define Q where "Q x s1 \<longleftrightarrow> x = - 1 \<and> (\<exists>T1 ps1. restored kend s T W ps s1 T1 ps1)" for x :: int and s1
  have loop: "(\<exists>s'. for_ret ?f [0..<upg sz] s = Ok (None, s') \<and> I (upg sz) s') \<or>
    (\<exists>x s'. for_ret ?f [0..<upg sz] s = Ok (Some x, s') \<and> Q x s')"
  proof (rule for_ret_upt_rule)
    show "I 0 s" unfolding I_def using grow_inv_refl [OF base(1)] by auto
    fix k s1
    assume k: "k < upg sz" and "I k s1"
    then obtain T1 ps1 where g: "grow_inv kend s T W ps fl C {0..<k} s1 T1 ps1" unfolding I_def by blast
    have "k \<in> V" using k sz by auto
    from uvmcopy_step_spec [OF g base par this] ev k
    show "(\<exists>s'. ?f k s1 = Ok (None, s') \<and> I (Suc k) s') \<or> (\<exists>x s'. ?f k s1 = Ok (Some x, s') \<and> Q x s')"
      unfolding I_def Q_def by (fastforce simp: fl_def C_def)
  qed
  have steps: "uvmcopy kend old new sz s = bindR (for_ret ?f [0..<upg sz] s) (\<lambda>(r, s). case r of Some r \<Rightarrow> Ok (r, s) | None \<Rightarrow> Ok (0, s))"
    by (simp only: uvmcopy_def page_steps_0 for_ret_map)
  from loop show ?thesis unfolding steps I_def Q_def by (elim disjE exE conjE) (simp_all, blast+)
qed

section \<open>freewalk\<close>

text \<open>The page-table pages at and below a path, and the condition that they hold no leaf entry any more.\<close>

definition sub :: "ptree \<Rightarrow> nat list \<Rightarrow> nat set" where
  "sub T p = {q. \<exists>r. T (p @ r) = Some q}"

definition no_leaf :: "mem \<Rightarrow> ptree \<Rightarrow> nat list \<Rightarrow> bool" where
  "no_leaf m T p \<longleftrightarrow> (\<forall>r q i. T (p @ r) = Some q \<longrightarrow> i < 512 \<longrightarrow> entry_ok m (q + 8 * i) (T (p @ r @ [i])))"

lemma pt_shapeD:
  assumes "pt_shape kend T"
  shows "T p = Some q \<Longrightarrow> page_ok kend q" "T p = Some q \<Longrightarrow> T p' = Some q \<Longrightarrow> p = p'"
    "T p = Some q \<Longrightarrow> length p \<le> 2 \<and> set p \<subseteq> {..<512}" "T p = None \<Longrightarrow> T (p @ [i]) = None"
proof -
  show "T p = Some q \<Longrightarrow> page_ok kend q" "T p = Some q \<Longrightarrow> length p \<le> 2 \<and> set p \<subseteq> {..<512}" "T p = None \<Longrightarrow> T (p @ [i]) = None"
    using assms unfolding pt_shape_def by simp_all
  have "inj_on T (dom T)" using assms unfolding pt_shape_def by blast
  then show "T p = Some q \<Longrightarrow> T p' = Some q \<Longrightarrow> p = p'" unfolding inj_on_def by (metis domI)
qed

lemma sub_None:
  assumes "pt_shape kend T" "T p = None"
  shows "sub T p = {}"
proof -
  have "T (p @ r) = None" for r
    by (induction r rule: rev_induct) (use assms(2) pt_shapeD(4) [OF assms(1), of "p @ _"] in auto)
  then show ?thesis by (simp add: sub_def)
qed

lemma sub_split:
  assumes "pt_shape kend T" "T p = Some q"
  shows "sub T p = insert q (\<Union>i < 512. sub T (p @ [i]))"
proof (rule set_eqI)
  fix x
  have "(\<exists>r. T (p @ r) = Some x) \<longleftrightarrow> T p = Some x \<or> (\<exists>i r. T (p @ i # r) = Some x)"
    by (metis append_Nil2 list.exhaust)
  also have "(\<exists>i r. T (p @ i # r) = Some x) \<longleftrightarrow> (\<exists>i < 512. \<exists>r. T (p @ i # r) = Some x)"
    using pt_shapeD(3) [OF assms(1)] by fastforce
  finally show "x \<in> sub T p \<longleftrightarrow> x \<in> insert q (\<Union>i < 512. sub T (p @ [i]))" using assms(2) by (auto simp: sub_def)
qed

lemma sub_disjoint:
  assumes "pt_shape kend T"
  shows "i \<noteq> j \<Longrightarrow> sub T (p @ [i]) \<inter> sub T (p @ [j]) = {}" "T p = Some q \<Longrightarrow> q \<notin> sub T (p @ [i])"
proof -
  have inj: "p @ i # r = p' @ j # r'" if "T (p @ i # r) = Some q" "T (p' @ j # r') = Some q" for p p' i j r r' q
    using that by (rule pt_shapeD(2) [OF assms])
  show "i \<noteq> j \<Longrightarrow> sub T (p @ [i]) \<inter> sub T (p @ [j]) = {}" unfolding sub_def using inj [of p i _ _ p j] by auto
  show "q \<notin> sub T (p @ [i])" if "T p = Some q"
    unfolding sub_def using pt_shapeD(2) [OF assms that] by (auto dest: arg_cong [of _ _ length])
qed

lemma no_leaf_child: "no_leaf m T p \<Longrightarrow> no_leaf m T (p @ [i])"
  unfolding no_leaf_def by (metis append.assoc append_Cons append_Nil)

lemma no_leaf_same:
  assumes "no_leaf m T p" "pt_shape kend T" "same_out X m m'" "X \<inter> sub T p = {}"
  shows "no_leaf m' T p"
  unfolding no_leaf_def
proof (intro allI impI)
  fix r q i
  assume q: "T (p @ r) = Some q" and i: "i < (512 :: nat)"
  have "q \<notin> X" using q assms(4) by (auto simp: sub_def)
  then have "load64 m' (q + 8 * i) = load64 m (q + 8 * i)"
    using same_out_load64 [OF assms(3) pt_shapeD(1) [OF assms(2) q]] i by blast
  then show "entry_ok m' (q + 8 * i) (T (p @ r @ [i]))"
    using assms(1) q i entry_ok_cong unfolding no_leaf_def by blast
qed

lemma table_entry: "(PA2PTE c OR PTE_V) AND (PTE_R OR PTE_W OR PTE_X) = 0"
proof -
  have "PTE_R OR PTE_W OR PTE_X = 0x3FF AND 14" by (simp add: PTE_R_def PTE_W_def PTE_X_def)
  then have "(PA2PTE c OR PTE_V) AND (PTE_R OR PTE_W OR PTE_X) = PTE_FLAGS (PA2PTE c OR PTE_V) AND 14"
    by (simp only: PTE_FLAGS_def and.assoc)
  also have "\<dots> = 0" unfolding PTE_FLAGS_PA2PTE [OF PTE_V_less] by (simp add: PTE_V_def)
  finally show ?thesis .
qed

text \<open>The state after the children \<open>0, \<dots>, i - 1\<close> of the table \<open>q\<close> at path \<open>p\<close> have been freed.\<close>

definition freed :: "nat \<Rightarrow> ptree \<Rightarrow> nat list \<Rightarrow> nat \<Rightarrow> vmstate \<Rightarrow> nat list \<Rightarrow> nat \<Rightarrow> vmstate \<Rightarrow> bool" where
  "freed kend T p q s ps i s1 \<longleftrightarrow>
     (\<exists>ps1. vm_ok kend s1 ps1 \<and> set ps1 = set ps \<union> (\<Union>j < i. sub T (p @ [j]))) \<and>
     same_out (insert q (\<Union>j < i. sub T (p @ [j]))) (vmem s) (vmem s1) \<and>
     (\<forall>k. i \<le> k \<and> k < 512 \<longrightarrow> load64 (vmem s1) (q + 8 * k) = load64 (vmem s) (q + 8 * k))"

lemma freewalk_child:
  assumes T: "pt_shape kend T" "T p = Some q" "no_leaf (vmem s) T p" and ps: "sub T p \<inter> set ps = {}"
    and IH: "\<And>c s ps. T (p @ [i]) = Some c \<Longrightarrow> no_leaf (vmem s) T (p @ [i]) \<Longrightarrow> vm_ok kend s ps \<Longrightarrow>
      sub T (p @ [i]) \<inter> set ps = {} \<Longrightarrow> \<exists>s' ps'. freewalk d kend c s = Ok s' \<and> vm_ok kend s' ps' \<and>
        set ps' = set ps \<union> sub T (p @ [i]) \<and> same_out (sub T (p @ [i])) (vmem s) (vmem s')"
    and i: "i < 512" and f: "freed kend T p q s ps i s1"
  shows "\<exists>s2. (let pte = load64 (vmem s1) (q + 8 * i)
      in if pte AND PTE_V \<noteq> 0 \<and> pte AND (PTE_R OR PTE_W OR PTE_X) = 0
         then bindR (freewalk d kend (PTE2PA pte) s1) (\<lambda>s. Ok (s\<lparr>vmem := store64 (q + 8 * i) 0 (vmem s)\<rparr>))
         else if pte AND PTE_V \<noteq> 0 then Panic ''freewalk: leaf'' else Ok s1) = Ok s2 \<and> freed kend T p q s ps (Suc i) s2"
proof -
  let ?D = "\<Union>j < i. sub T (p @ [j])" and ?S = "sub T (p @ [i])"
  have U: "(\<Union>j < Suc i. sub T (p @ [j])) = ?D \<union> ?S" by (auto simp: less_Suc_eq)
  obtain ps1 where s1: "vm_ok kend s1 ps1" "set ps1 = set ps \<union> ?D" "same_out (insert q ?D) (vmem s) (vmem s1)"
    "load64 (vmem s1) (q + 8 * i) = load64 (vmem s) (q + 8 * i)"
    "\<forall>k. i < k \<and> k < 512 \<longrightarrow> load64 (vmem s1) (q + 8 * k) = load64 (vmem s) (q + 8 * k)"
    using f i unfolding freed_def by auto
  have e: "entry_ok (vmem s) (q + 8 * i) (T (p @ [i]))"
    using T(2,3) i unfolding no_leaf_def by (metis append_Nil append_Nil2)
  show ?thesis
  proof (cases "T (p @ [i])")
    case None
    then have "even (load64 (vmem s1) (q + 8 * i))" using e s1(4) by (simp add: entry_ok_def)
    moreover have "freed kend T p q s ps (Suc i) s1"
      using s1 unfolding freed_def U sub_None [OF T(1) None] by auto
    ultimately show ?thesis by simp
  next
    case (Some c)
    note sub = sub_split [OF T(1,2)] and dis = sub_disjoint [OF T(1)]
    have c: "page_ok kend c" by (rule pt_shapeD(1) [OF T(1) Some])
    have pte: "load64 (vmem s1) (q + 8 * i) = PA2PTE c OR PTE_V" using e s1(4) Some by (simp add: entry_ok_def)
    have pa: "PTE2PA (PA2PTE c OR PTE_V) = c" using c PTE_V_less by (intro PTE2PA_PA2PTE) (auto simp: page_ok_def)
    have D: "insert q ?D \<inter> ?S = {}" using dis(1) [of _ i p] dis(2) [OF T(2)] by fastforce
    have "?S \<subseteq> sub T p" unfolding sub using i by auto
    then have "?S \<inter> set ps1 = {}" unfolding s1(2) using ps D by auto
    from IH [OF Some no_leaf_same [OF no_leaf_child [OF T(3)] T(1) s1(3) D] s1(1) this]
    obtain s2 ps2 where s2: "freewalk d kend c s1 = Ok s2" "vm_ok kend s2 ps2" "set ps2 = set ps1 \<union> ?S" "same_out ?S (vmem s1) (vmem s2)"
      by blast
    let ?s = "s2\<lparr>vmem := store64 (q + 8 * i) 0 (vmem s2)\<rparr>"
    have q: "page_ok kend q" by (rule pt_shapeD(1) [OF T(1,2)])
    have "q \<notin> ?S" using D by blast
    have keep: "load64 (vmem ?s) (q + 8 * k) = load64 (vmem s) (q + 8 * k)" if "i < k" "k < 512" for k
    proof -
      have "load64 (vmem ?s) (q + 8 * k) = load64 (vmem s2) (q + 8 * k)" using that by (simp add: load64_store64_other)
      also have "\<dots> = load64 (vmem s1) (q + 8 * k)" by (rule same_out_load64 [OF s2(4) q \<open>q \<notin> ?S\<close> that(2)])
      finally show ?thesis using s1(5) that by simp
    qed
    have "same_out (insert q ?D \<union> ?S) (vmem s) (vmem s2)" using s1(3) s2(4) by (rule same_out_trans) simp
    then have "same_out (insert q (?D \<union> ?S)) (vmem s) (vmem ?s)"
      using same_out_store64 [OF q i] by (auto intro: same_out_trans)
    then have "freed kend T p q s ps (Suc i) ?s" unfolding freed_def U using s2(2,3) s1(2) keep by (auto simp: Suc_le_eq)
    moreover have "odd (PA2PTE c OR PTE_V)" by simp
    ultimately show ?thesis using s2(1) by (auto simp: pte pa table_entry)
  qed
qed

lemma freewalk_spec:
  assumes "pt_shape kend T" "T p = Some q" "no_leaf (vmem s) T p" "vm_ok kend s ps" "sub T p \<inter> set ps = {}" "length p + d = 3"
  shows "\<exists>s' ps'. freewalk d kend q s = Ok s' \<and> vm_ok kend s' ps' \<and> set ps' = set ps \<union> sub T p \<and> same_out (sub T p) (vmem s) (vmem s')"
  using assms(2-)
proof (induction d arbitrary: p q s ps)
  case 0
  then show ?case using pt_shapeD(3) [OF assms(1)] by fastforce
next
  case (Suc d)
  let ?f = "\<lambda>i s. let pte = load64 (vmem s) (q + 8 * i)
      in if pte AND PTE_V \<noteq> 0 \<and> pte AND (PTE_R OR PTE_W OR PTE_X) = 0
         then bindR (freewalk d kend (PTE2PA pte) s) (\<lambda>s. Ok (s\<lparr>vmem := store64 (q + 8 * i) 0 (vmem s)\<rparr>))
         else if pte AND PTE_V \<noteq> 0 then Panic ''freewalk: leaf'' else Ok s"
  note T = assms(1) Suc.prems(1,2)
  have "\<exists>s1. for_each ?f [0..<512] s = Ok s1 \<and> freed kend T p q s ps 512 s1"
  proof (rule for_each_upt_rule)
    show "freed kend T p q s ps 0 s" using Suc.prems(3) by (auto simp: freed_def)
    fix i s1
    assume i: "i < (512 :: nat)" and f: "freed kend T p q s ps i s1"
    show "\<exists>s'. ?f i s1 = Ok s' \<and> freed kend T p q s ps (Suc i) s'"
      by (rule freewalk_child [OF T Suc.prems(4) Suc.IH i f]) (use Suc.prems(5) in auto)
  qed simp
  then obtain s1 ps1 where s1: "for_each ?f [0..<512] s = Ok s1" "vm_ok kend s1 ps1"
    "set ps1 = set ps \<union> (\<Union>j < 512. sub T (p @ [j]))" "same_out (insert q (\<Union>j < 512. sub T (p @ [j]))) (vmem s) (vmem s1)"
    unfolding freed_def by blast
  note sub = sub_split [OF T(1,2)]
  have "q \<notin> set ps1" unfolding s1(3) using sub_disjoint(2) [OF T(1,2)] Suc.prems(4) unfolding sub by auto
  from vkfree_push [OF s1(2) pt_shapeD(1) [OF T(1,2)] this]
  obtain s2 where s2: "vkfree kend q s1 = Ok s2" "vm_ok kend s2 (q # ps1)" "same_out {q} (vmem s1) (vmem s2)" by blast
  have "same_out (sub T p) (vmem s) (vmem s2)" using s1(4) s2(3) by (rule same_out_trans) (simp add: sub)
  moreover have "set (q # ps1) = set ps \<union> sub T p" unfolding sub by (simp add: s1(3))
  ultimately show ?case using s1(1) s2(1,2) by (intro exI [of _ s2] exI [of _ "q # ps1"]) (simp add: Let_def)
qed

section \<open>uvmfree\<close>

lemma sub_Nil: "sub T [] = ran T"
  by (auto simp: sub_def ran_def)

lemma no_leaf_Nil:
  assumes T: "pt_tree kend m T" and ev: "\<And>v. even (leaf m T v)"
  shows "no_leaf m T []"
  unfolding no_leaf_def append_Nil
proof (intro allI impI)
  fix r q i
  assume q: "T r = Some q" and i: "i < (512 :: nat)"
  show "entry_ok m (q + 8 * i) (T (r @ [i]))"
  proof (cases "length r < 2")
    case True
    then show ?thesis using pt_tree_entry [OF T q] i by blast
  next
    case False
    then obtain a b where r: "r = [a, b]" "b < 512"
      using pt_tree_path [OF T q] by (cases r; cases "tl r") auto
    let ?v = "512 * (512 * a + b) + i"
    have m: "?v div 512 = 512 * a + b" "?v mod 512 = i"
      using i mod_mult_self4 [of 512 "512 * a + b" i] div_mult_self4 [of 512 "512 * a + b" i] by simp_all
    have "?v div 262144 = ?v div 512 div 512" by (simp add: div_mult2_eq [symmetric])
    then have "vpath ?v = r" unfolding vpath_def m(1) using r by simp
    then have "even (load64 m (q + 8 * i))" using ev [of ?v] q m(2) by (simp only: leaf_def option.case)
    moreover have "T (r @ [i]) = None" using pt_tree_path [OF T, of "r @ [i]"] r(1) by fastforce
    ultimately show ?thesis by (simp add: entry_ok_def)
  qed
qed

text \<open>Freeing a process that owns exactly the pages of its size gives every page back.\<close>

lemma uvmfree_spec:
  assumes sp: "space kend s T {0..<upg sz} ps" "T [] = Some pt" and sz: "unat sz \<le> 2 ^ 38"
    and ev: "\<And>v. upg sz \<le> v \<Longrightarrow> even (leaf (vmem s) T v)"
  shows "\<exists>s' ps'. uvmfree kend pt sz s = Ok s' \<and> vm_ok kend s' ps' \<and> set ps' = owned (vmem s) T {0..<upg sz} \<union> set ps \<and>
    same_out (owned (vmem s) T {0..<upg sz}) (vmem s) (vmem s')"
proof -
  let ?W = "{0..<upg sz}"
  have "\<exists>s1 ps1. (if sz > 0 then uvmunmap kend pt 0 (uPGROUNDUP sz div 0x1000) True s else Ok s) = Ok s1 \<and> space kend s1 T {} ps1 \<and>
    set ps1 = set ps \<union> frame (vmem s) T ` ?W \<and> leaf (vmem s1) T = (\<lambda>v. if v \<in> ?W then 0 else leaf (vmem s) T v) \<and>
    same_out (owned (vmem s) T ?W) (vmem s) (vmem s1)"
  proof (cases "sz > 0")
    case True
    have "unat (uPGROUNDUP sz) div 4096 = upg sz" using unat_up [OF sz] by (simp add: PGSIZE_def)
    moreover have "upg sz < 2 ^ 64" using upg_le [OF sz] by simp
    ultimately have "uPGROUNDUP sz div 0x1000 = of_nat (upg sz)" by (intro unat_eqI) (simp add: unat_div unat_of_nat64)
    then show ?thesis
      using True uvmunmap_spec [where va = 0 and ?v0.0 = 0 and n = "upg sz", OF sp] upg_le [OF sz] by (simp add: owned_def)
  next
    case False
    then have "sz = 0" by (simp add: word_neq_0_conv [symmetric])
    moreover from this have "upg sz = 0" by (simp add: upg_def PGSIZE_def)
    ultimately show ?thesis using sp by auto
  qed
  then obtain s1 ps1 where s1: "(if sz > 0 then uvmunmap kend pt 0 (uPGROUNDUP sz div 0x1000) True s else Ok s) = Ok s1"
    "space kend s1 T {} ps1" "set ps1 = set ps \<union> frame (vmem s) T ` ?W" "leaf (vmem s1) T = (\<lambda>v. if v \<in> ?W then 0 else leaf (vmem s) T v)"
    "same_out (owned (vmem s) T ?W) (vmem s) (vmem s1)"
    by blast
  note d = spaceD [OF s1(2)]
  have "no_leaf (vmem s1) T []" by (rule no_leaf_Nil [OF d(3)]) (use ev in \<open>auto simp: s1(4)\<close>)
  moreover have "pt_shape kend T" using d(3) by (simp add: pt_tree_def)
  ultimately obtain s2 ps2 where s2: "freewalk 3 kend pt s1 = Ok s2" "vm_ok kend s2 ps2" "set ps2 = set ps1 \<union> ran T"
    "same_out (ran T) (vmem s1) (vmem s2)"
    using freewalk_spec [where p = "[]" and d = 3 and T = T and q = pt and kend = kend and s = s1 and ps = ps1] sp(2) d(1) d(5) unfolding sub_Nil by auto
  have "same_out (owned (vmem s) T ?W) (vmem s) (vmem s2)" using s1(5) s2(4) by (rule same_out_trans) (auto simp: owned_def)
  then show ?thesis using s1(1,3) s2 by (intro exI [of _ s2] exI [of _ ps2]) (auto simp: uvmfree_def owned_def)
qed

end
