(* ===== verification/Vm_User.thy ===== *)
theory Vm_User
  imports Vm_Fork
begin

text \<open>
  What the operations of kernel/vm.c promise to a process: its memory as a partial function from virtual
  addresses to bytes under \<open>uvmalloc\<close>, \<open>uvmcopy\<close>, \<open>uvmfree\<close>, \<open>copyin\<close>, \<open>copyout\<close> and \<open>copyinstr\<close>, and
  that no physical page is lost or shared.
\<close>

unbundle bit_operations_syntax

section \<open>User memory after growing\<close>

text \<open>An address space with root \<open>pt\<close> that owns the pages \<open>W\<close>, among them all that are mapped for the user.\<close>

definition user_space :: "nat \<Rightarrow> vmstate \<Rightarrow> nat \<Rightarrow> ptree \<Rightarrow> nat set \<Rightarrow> nat list \<Rightarrow> bool" where
  "user_space kend s pt T W ps \<longleftrightarrow> space kend s T W ps \<and> T [] = Some pt \<and> upages (vmem s) T \<subseteq> W"

text \<open>Every page of the allocator is either on the free list or belongs to the address space.\<close>

definition all_pages :: "vmstate \<Rightarrow> ptree \<Rightarrow> nat set \<Rightarrow> nat list \<Rightarrow> nat set" where
  "all_pages s T W ps = owned (vmem s) T W \<union> set ps"

lemma flags_U: "PTE_FLAGS e AND PTE_U = e AND PTE_U"
proof -
  have "0x3FF AND PTE_U = PTE_U" by (simp add: PTE_U_def)
  then show ?thesis by (simp only: PTE_FLAGS_def and.assoc)
qed

lemma umem_keep:
  assumes base: "user_space kend s pt T W ps" and l: "leaf (vmem s1) T1 v = leaf (vmem s) T v"
    and out: "same_out (ran T \<union> set ps) (vmem s) (vmem s1)" and v: "a div PGSIZE = v"
  shows "umem (vmem s1) T1 a = umem (vmem s) T a"
proof (cases "v \<in> upages (vmem s) T")
  case True
  then have w: "v \<in> W" using base by (auto simp: user_space_def)
  have sp: "space kend s T W ps" using base by (simp add: user_space_def)
  note f = as_okD [OF spaceD(2) [OF sp] w]
  have "frame (vmem s) T v \<notin> ran T \<union> set ps" using f(3) w spaceD(4) [OF sp] by (auto simp: owned_def)
  from same_out_apply [OF out f(2) this] have "vmem s1 (frame (vmem s) T v + a mod PGSIZE) = vmem s (frame (vmem s) T v + a mod PGSIZE)"
    by (simp add: PGSIZE_def)
  then show ?thesis using True l v by (simp add: umem_def upages_def)
next
  case False
  then have "v \<notin> upages (vmem s1) T1" using l by (simp add: upages_def)
  then show ?thesis using False v by (simp add: umem_def)
qed

lemma umem_grow:
  assumes g: "grow_inv kend s T W ps fl C R s1 T1 ps1" and base: "user_space kend s pt T W ps"
  shows "umem (vmem s1) T1 = (\<lambda>a. if a div PGSIZE \<in> R
      then if fl (a div PGSIZE) AND PTE_U \<noteq> 0 then Some (C (a div PGSIZE) (a mod PGSIZE)) else None
      else umem (vmem s) T a)"
    and "user_space kend s1 pt T1 (W \<union> R) ps1" "all_pages s1 T1 (W \<union> R) ps1 = all_pages s T W ps"
proof -
  note d = grow_invD [OF g]
  show "all_pages s1 T1 (W \<union> R) ps1 = all_pages s T W ps" unfolding all_pages_def by (rule d(6))
  have up: "v \<in> upages (vmem s1) T1 \<longleftrightarrow> (if v \<in> R then fl v AND PTE_U \<noteq> 0 else v \<in> upages (vmem s) T)" for v
  proof (cases "v \<in> R")
    case True
    note v = as_okD [OF spaceD(2) [OF d(1)] UnI2 [OF True]]
    show ?thesis using True v(1,4) d(4) [OF True] flags_U [of "leaf (vmem s1) T1 v"] by (simp add: upages_def)
  next
    case False
    then show ?thesis using d(3) [OF False] by (simp add: upages_def)
  qed
  show "user_space kend s1 pt T1 (W \<union> R) ps1"
    using d(1) base map_le_root [OF d(2)] up by (auto simp: user_space_def split: if_splits)
  show "umem (vmem s1) T1 = (\<lambda>a. if a div PGSIZE \<in> R
      then if fl (a div PGSIZE) AND PTE_U \<noteq> 0 then Some (C (a div PGSIZE) (a mod PGSIZE)) else None
      else umem (vmem s) T a)"
  proof (rule ext)
    fix a
    have m: "a mod PGSIZE < PGSIZE" by (simp add: PGSIZE_def)
    show "umem (vmem s1) T1 a = (if a div PGSIZE \<in> R
        then if fl (a div PGSIZE) AND PTE_U \<noteq> 0 then Some (C (a div PGSIZE) (a mod PGSIZE)) else None
        else umem (vmem s) T a)"
    proof (cases "a div PGSIZE \<in> R")
      case True
      then show ?thesis using up [of "a div PGSIZE"] d(5) [OF True m] by (simp add: umem_def [of "vmem s1"])
    next
      case False
      then show ?thesis using umem_keep [OF base d(3) [OF False] d(7) refl] by simp
    qed
  qed
qed

lemma umem_restored:
  assumes r: "restored kend s T W ps s1 T1 ps1" and base: "user_space kend s pt T W ps"
  shows "umem (vmem s1) T1 = umem (vmem s) T" "user_space kend s1 pt T1 W ps1" "all_pages s1 T1 W ps1 = all_pages s T W ps"
proof -
  have r': "space kend s1 T1 W ps1" "T \<subseteq>\<^sub>m T1" "same_out (ran T \<union> set ps) (vmem s) (vmem s1)"
    "\<And>v. leaf (vmem s1) T1 v = leaf (vmem s) T v \<or> leaf (vmem s1) T1 v = 0 \<and> even (leaf (vmem s) T v)"
    using r unfolding restored_def by blast+
  show "all_pages s1 T1 W ps1 = all_pages s T W ps" using r unfolding restored_def all_pages_def by blast
  have up: "upages (vmem s1) T1 \<subseteq> upages (vmem s) T" 
  proof
    fix v
    assume "v \<in> upages (vmem s1) T1"
    then show "v \<in> upages (vmem s) T" using r'(4) [of v] by (auto simp: upages_def)
  qed
  show "user_space kend s1 pt T1 W ps1" using r'(1) base up map_le_root [OF r'(2)] by (auto simp: user_space_def)
  show "umem (vmem s1) T1 = umem (vmem s) T"
  proof (rule ext)
    fix a
    from r'(4) [of "a div PGSIZE"] show "umem (vmem s1) T1 a = umem (vmem s) T a"
    proof
      assume "leaf (vmem s1) T1 (a div PGSIZE) = leaf (vmem s) T (a div PGSIZE)"
      then show ?thesis using umem_keep [OF base _ r'(3) refl] by blast
    next
      assume "leaf (vmem s1) T1 (a div PGSIZE) = 0 \<and> even (leaf (vmem s) T (a div PGSIZE))"
      then show ?thesis by (simp add: umem_def upages_def)
    qed
  qed
qed

lemma umem_parent:
  assumes p: "parent kend s P V X" "upages (vmem s) P \<subseteq> V" and out: "same_out X (vmem s) m"
  shows "umem m P = umem (vmem s) P"
proof (rule ext)
  fix a
  note l = parent_same [OF p(1) out]
  have u: "upages m P = upages (vmem s) P" by (simp add: upages_def l(2))
  have "a mod PGSIZE < PGSIZE" by (simp add: PGSIZE_def)
  then show "umem m P a = umem (vmem s) P a" using l(3) [of "a div PGSIZE" "a mod PGSIZE"] p(2) by (auto simp: umem_def u l(2))
qed

section \<open>uvmalloc, uvmcopy, uvmfree\<close>

text \<open>C17. \<open>uvmalloc\<close> either grows the process to \<open>newsz\<close>, with every new byte zero and every old byte kept, or
  returns 0 with the memory of the process as it was; in both cases each physical page is still owned by
  exactly one of the process, its page table and the free list.\<close>

theorem uvmalloc_grows:
  assumes "user_space kend s pt T W ps" "oldsz \<le> newsz" "unat newsz \<le> 2 ^ 38" "xperm < 1024"
    and "\<And>v. v \<in> {upg oldsz..<upg newsz} \<Longrightarrow> even (leaf (vmem s) T v)"
  shows "\<exists>r s' T' ps'. uvmalloc kend pt oldsz newsz xperm s = Ok (r, s') \<and>
    (r = newsz \<and> user_space kend s' pt T' (W \<union> {upg oldsz..<upg newsz}) ps' \<and>
       all_pages s' T' (W \<union> {upg oldsz..<upg newsz}) ps' = all_pages s T W ps \<and>
       umem (vmem s') T' = (\<lambda>a. if a div PGSIZE \<in> {upg oldsz..<upg newsz} then Some 0 else umem (vmem s) T a) \<or>
     r = 0 \<and> user_space kend s' pt T' W ps' \<and> all_pages s' T' W ps' = all_pages s T W ps \<and>
       umem (vmem s') T' = umem (vmem s) T)"
proof -
  have base: "space kend s T W ps" "T [] = Some pt" using assms(1) by (simp_all add: user_space_def)
  obtain r s' T' ps' where r: "uvmalloc kend pt oldsz newsz xperm s = Ok (r, s')" and
    "r = newsz \<and> grow_inv kend s T W ps (\<lambda>v. PTE_R OR PTE_U OR xperm OR PTE_V) (\<lambda>_ _. 0) {upg oldsz..<upg newsz} s' T' ps' \<or>
     r = 0 \<and> restored kend s T W ps s' T' ps'"
    using uvmalloc_spec [OF base assms(2-)] by blast
  then consider "r = newsz" "grow_inv kend s T W ps (\<lambda>v. PTE_R OR PTE_U OR xperm OR PTE_V) (\<lambda>_ _. 0) {upg oldsz..<upg newsz} s' T' ps'"
    | "r = 0" "restored kend s T W ps s' T' ps'" by blast
  then show ?thesis
  proof cases
    case 1
    have "umem (vmem s') T' = (\<lambda>a. if a div PGSIZE \<in> {upg oldsz..<upg newsz} then Some 0 else umem (vmem s) T a)"
      using umem_grow(1) [OF 1(2) assms(1)] user_flags(3) [OF assms(4)] by (simp only: if_True not_False_eq_True)
    then show ?thesis using r 1(1) umem_grow(2,3) [OF 1(2) assms(1)] by blast
  next
    case 2
    then show ?thesis using r umem_restored [OF 2(2) assms(1)] by blast
  qed
qed


text \<open>C18. \<open>uvmfree\<close> of a process that owns exactly the pages of its size succeeds and puts every one of its
  pages and page-table pages on the free list.\<close>

theorem uvmfree_returns_pages:
  assumes "space kend s T {0..<upg sz} ps" "T [] = Some pt" "unat sz \<le> 2 ^ 38"
    and "\<And>v. upg sz \<le> v \<Longrightarrow> even (leaf (vmem s) T v)"
  shows "\<exists>s' ps'. uvmfree kend pt sz s = Ok s' \<and> vm_ok kend s' ps' \<and> set ps' = all_pages s T {0..<upg sz} ps"
  using uvmfree_spec [OF assms] unfolding all_pages_def by blast

section \<open>Copying between kernel and user memory\<close>

text \<open>C23. What \<open>copyout\<close> has written to a process, \<open>copyin\<close> reads back, across page boundaries.\<close>

theorem copyout_copyin:
  assumes "user_space kend s pt T W ps" "copyout pt dstva src s = Ok (0, s')"
  shows "copyin pt dstva (length src) s' = Ok (0, src)"
proof -
  have ok: "as_ok kend (vmem s) T (upages (vmem s) T)" "T [] = Some pt"
    using assms(1) as_ok_subset [OF spaceD(2)] by (auto simp: user_space_def)
  from copyout_spec [OF this, of dstva src] assms(2) have s': "as_ok kend (vmem s') T (upages (vmem s') T)"
    "umem (vmem s') T = vwrite (umem (vmem s) T) (unat dstva) src" by auto
  have all: "umem (vmem s') T (unat dstva + i) = Some (src ! i)" if "i < length src" for i
    using that by (simp add: s'(2) vwrite_def)
  from copyin_spec [OF s'(1) ok(2), of dstva "length src"] obtain r n where
    n: "copyin pt dstva (length src) s' = Ok (r, uread (vmem s') T (unat dstva) n)"
    "r = 0 \<and> n = length src \<or> r = - 1 \<and> n < length src \<and> umem (vmem s') T (unat dstva + n) = None" by blast
  have "n = length src" "r = 0" using n(2) all [of n] by auto
  moreover have "uread (vmem s') T (unat dstva) (length src) = src"
    by (rule nth_equalityI) (simp_all add: nth_uread all)
  ultimately show ?thesis using n(1) by simp
qed

text \<open>C24. \<open>copyinstr\<close> never copies more than \<open>maxn\<close> bytes; it succeeds exactly when a NUL byte comes within
  the first \<open>maxn\<close> bytes and everything up to it is mapped for the user, and then the copy is that string
  with its NUL.\<close>

theorem copyinstr_string:
  assumes "user_space kend s pt T W ps"
  shows "\<exists>r dst. copyinstr pt srcva maxn s = Ok (r, dst) \<and> length dst \<le> maxn \<and>
    (r = 0 \<longleftrightarrow> (\<exists>k < maxn. ustr (vmem s) T (unat srcva) k \<and> umem (vmem s) T (unat srcva + k) = Some 0)) \<and>
    (r = 0 \<longrightarrow> (\<exists>k. dst = uread (vmem s) T (unat srcva) (Suc k) \<and> ustr (vmem s) T (unat srcva) k \<and> dst ! k = 0))"
proof -
  have ok: "as_ok kend (vmem s) T (upages (vmem s) T)" "T [] = Some pt"
    using assms as_ok_subset [OF spaceD(2)] by (auto simp: user_space_def)
  from copyinstr_spec [OF this, of maxn srcva] show ?thesis
  proof
    assume "\<exists>k < maxn. ustr (vmem s) T (unat srcva) k \<and> umem (vmem s) T (unat srcva + k) = Some 0 \<and>
      copyinstr pt srcva maxn s = Ok (0, uread (vmem s) T (unat srcva) (Suc k))"
    then obtain k where k: "k < maxn" "ustr (vmem s) T (unat srcva) k" "umem (vmem s) T (unat srcva + k) = Some 0"
      "copyinstr pt srcva maxn s = Ok (0, uread (vmem s) T (unat srcva) (Suc k))" by blast
    have "uread (vmem s) T (unat srcva) (Suc k) ! k = 0" using k(3) by (simp add: nth_uread)
    then show ?thesis using k by (intro exI [of _ 0] exI [of _ "uread (vmem s) T (unat srcva) (Suc k)"]) auto
  next
    assume "\<exists>n \<le> maxn. ustr (vmem s) T (unat srcva) n \<and> (n = maxn \<or> umem (vmem s) T (unat srcva + n) = None) \<and>
      copyinstr pt srcva maxn s = Ok (- 1, uread (vmem s) T (unat srcva) n)"
    then obtain n where n: "n \<le> maxn" "ustr (vmem s) T (unat srcva) n" "n = maxn \<or> umem (vmem s) T (unat srcva + n) = None"
      "copyinstr pt srcva maxn s = Ok (- 1, uread (vmem s) T (unat srcva) n)" by blast
    have False if k: "k < maxn" "ustr (vmem s) T (unat srcva) k" "umem (vmem s) T (unat srcva + k) = Some 0" for k
    proof (cases k n rule: linorder_cases)
      case less
      then show ?thesis using n(2) k(3) by (auto simp: ustr_def)
    next
      case equal
      then show ?thesis using n(3) k(1,3) by auto
    next
      case greater
      then show ?thesis using n(3) k(1,2) by (auto simp: ustr_def)
    qed
    then show ?thesis using n(1,4) by auto
  qed
qed

section \<open>A small process\<close>

text \<open>Three page-table pages, one user page at address 0, an empty second address space, and four free pages.\<close>

definition ex_end :: nat where "ex_end = 0x80021000"

definition ex_root :: nat where "ex_root = 0x80030000"

definition ex_tree :: ptree where
  "ex_tree = [[] \<mapsto> ex_root, [0] \<mapsto> 0x80031000, [0, 0] \<mapsto> 0x80032000]"

definition ex_pte :: u64 where "ex_pte = PA2PTE 0x80033000 OR (PTE_R OR PTE_U OR PTE_W) OR PTE_V"

definition ex_mem1 :: mem where
  "ex_mem1 = store64 (ex_root + 8 * 0) (PA2PTE 0x80031000 OR PTE_V) (memset 0x80031000 0 PGSIZE (\<lambda>_. 0))"

definition ex_mem2 :: mem where
  "ex_mem2 = store64 (0x80031000 + 8 * 0) (PA2PTE 0x80032000 OR PTE_V) (memset 0x80032000 0 PGSIZE ex_mem1)"

definition ex_mem :: mem where
  "ex_mem = store64 (0x80032000 + 8 * (0 mod 512)) ex_pte ex_mem2"

definition ex_child :: ptree where "ex_child = [[] \<mapsto> 0x80034000]"

definition ex_free :: "nat list" where "ex_free = [0x80035000, 0x80036000, 0x80037000, 0x80038000]"

definition ex_state :: vmstate where
  "ex_state = \<lparr>vhart = \<lparr>cid = 0, noff = 0, intena = True, intr = True\<rparr>,
     vkmem = \<lparr>klock = initlock, freelist = 0x80035000, nextp = (\<lambda>p. if p = 0x80038000 then 0 else p + 0x1000)\<rparr>, vmem = ex_mem\<rparr>"

lemma ex_pages:
  "page_ok ex_end 0x80030000" "page_ok ex_end 0x80031000" "page_ok ex_end 0x80032000" "page_ok ex_end 0x80033000"
  "page_ok ex_end 0x80034000" "page_ok ex_end 0x80035000" "page_ok ex_end 0x80036000" "page_ok ex_end 0x80037000"
  "page_ok ex_end 0x80038000"
  by (simp_all add: page_ok_def PGSIZE_def PHYSTOP_def ex_end_def)

lemma zero_tree:
  assumes "page_ok kend q" "\<And>i. i < 512 \<Longrightarrow> load64 m (q + 8 * i) = 0"
  shows "pt_tree kend m [[] \<mapsto> q]" "leaf m [[] \<mapsto> q] = (\<lambda>_. 0)"
  using assms by (auto simp: pt_tree_def pt_shape_def entry_ok_def leaf_def vpath_def inj_on_def split: if_splits)

lemma ex_vm_ok: "vm_ok ex_end ex_state ex_free"
  using ex_pages by (simp add: vm_ok_def ex_state_def cpu_idle_def kmem_inv_def ex_free_def)

lemma ex_tree_ok: "pt_tree ex_end ex_mem ex_tree" "leaf ex_mem ex_tree = (\<lambda>_. 0)(0 := ex_pte)"
proof -
  have 0: "pt_tree ex_end (\<lambda>_. 0) [[] \<mapsto> ex_root]" "leaf (\<lambda>_. 0) [[] \<mapsto> ex_root] = (\<lambda>_. 0)"
    using zero_tree [of ex_end ex_root "\<lambda>_. 0"] by (auto simp: ex_root_def ex_pages load64_zero)
  have 1: "pt_tree ex_end ex_mem1 [[] \<mapsto> ex_root, [0] \<mapsto> 0x80031000]" "leaf ex_mem1 [[] \<mapsto> ex_root, [0] \<mapsto> 0x80031000] = (\<lambda>_. 0)"
    using pt_tree_extend [OF 0(1), where p = "[]" and q = ex_root and i = 0 and c = "0x80031000"] ex_pages 0(2)
    unfolding ex_mem1_def by (auto simp: ex_root_def)
  have 2: "pt_tree ex_end ex_mem2 ex_tree" "leaf ex_mem2 ex_tree = (\<lambda>_. 0)"
    using pt_tree_extend [OF 1(1), where p = "[0]" and q = "0x80031000" and i = 0 and c = "0x80032000"] ex_pages 1(2)
    unfolding ex_mem2_def ex_tree_def by (auto simp: ex_root_def ran_def split: if_splits)
  show "pt_tree ex_end ex_mem ex_tree" "leaf ex_mem ex_tree = (\<lambda>_. 0)(0 := ex_pte)"
    using pt_tree_store [OF 2(1), of "[0, 0]" "0x80032000" 0 ex_pte] leaf_store [OF 2(1), of 0 "0x80032000" ex_pte] 2(2)
    unfolding ex_mem_def by (simp_all add: ex_tree_def vpath_def)
qed

lemma ex_pte: "PTE2PA ex_pte = 0x80033000" "odd ex_pte" "PTE_FLAGS ex_pte \<noteq> PTE_V" "ex_pte AND PTE_U \<noteq> 0"
proof -
  have f: "PTE_R OR PTE_U OR PTE_W < 1024" by (simp add: PTE_R_def PTE_U_def PTE_W_def)
  note m = frame_mapped [OF ex_pages(4) f]
  show "PTE2PA ex_pte = 0x80033000" "odd ex_pte" using m(1,2) by (simp_all add: ex_pte_def)
  have "PTE_FLAGS ex_pte = 0x17" using m(3) by (simp add: ex_pte_def PTE_R_def PTE_U_def PTE_W_def PTE_V_def)
  then show "PTE_FLAGS ex_pte \<noteq> PTE_V" "ex_pte AND PTE_U \<noteq> 0"
    using flags_U [of ex_pte] by (simp_all add: PTE_V_def PTE_U_def)
qed

lemma ex_ran: "ran ex_tree = {0x80030000, 0x80031000, 0x80032000}"
  by (auto simp: ex_tree_def ex_root_def ran_def)

lemma ex_process: "user_space ex_end ex_state ex_root ex_tree {0} ex_free"
proof -
  have m: "vmem ex_state = ex_mem" by (simp add: ex_state_def)
  have "space ex_end ex_state ex_tree {0} ex_free"
    using ex_vm_ok ex_tree_ok ex_pte ex_pages
    unfolding space_def as_ok_def owned_def m by (simp add: ex_tree_ok(2) ex_ran ex_free_def)
  moreover have "upages ex_mem ex_tree \<subseteq> {0}" by (auto simp: upages_def ex_tree_ok(2) split: if_splits)
  ultimately show ?thesis by (simp add: user_space_def m ex_tree_def)
qed

lemma ex_same: "same_out {0x80030000, 0x80031000, 0x80032000} (\<lambda>_. 0) ex_mem"
proof -
  note s = same_out_memset same_out_store64
  have "same_out {0x80031000, 0x80030000} (\<lambda>_. 0) ex_mem1"
    unfolding ex_mem1_def ex_root_def by (rule same_out_trans [OF s(1) s(2)]) (use ex_pages in simp_all)
  then have "same_out {0x80030000, 0x80031000, 0x80032000} (\<lambda>_. 0) (memset 0x80032000 0 PGSIZE ex_mem1)"
    by (rule same_out_trans [OF _ s(1) [OF ex_pages(3)]]) simp
  then have "same_out {0x80030000, 0x80031000, 0x80032000} (\<lambda>_. 0) ex_mem2"
    unfolding ex_mem2_def by (rule same_out_trans [OF _ s(2) [OF ex_pages(2)]]) simp_all
  then show ?thesis unfolding ex_mem_def by (rule same_out_trans [OF _ s(2) [OF ex_pages(3)]]) simp_all
qed

lemma ex_child_leaf: "pt_tree ex_end ex_mem ex_child" "leaf ex_mem ex_child = (\<lambda>_. 0)"
proof -
  have l: "load64 ex_mem (0x80034000 + 8 * i) = 0" if "i < 512" for i
    using same_out_load64 [OF ex_same ex_pages(5) _ that] by (simp add: load64_zero)
  show "pt_tree ex_end ex_mem ex_child" "leaf ex_mem ex_child = (\<lambda>_. 0)"
    unfolding ex_child_def by (rule zero_tree [OF ex_pages(5)], rule l, assumption)+
qed

lemma ex_child_space: "user_space ex_end ex_state 0x80034000 ex_child {} ex_free"
proof -
  have "space ex_end ex_state ex_child {} ex_free"
    using ex_vm_ok ex_child_leaf(1) unfolding space_def as_ok_def owned_def by (auto simp: ex_state_def ex_child_def ex_free_def)
  moreover have "upages ex_mem ex_child = {}" unfolding upages_def ex_child_leaf(2) by simp
  ultimately show ?thesis by (simp add: user_space_def ex_child_def ex_state_def)
qed

lemma ex_upg: "upg 0x1000 = 1" "{0..<upg 0x1000} = {0}"
  by (auto simp: upg_def PGSIZE_def)

lemma ex_parent: "parent ex_end ex_state ex_tree {0} (ran ex_child \<union> set ex_free)"
proof -
  have sp: "space ex_end ex_state ex_tree {0} ex_free" using ex_process by (simp add: user_space_def)
  have "ran ex_child = {0x80034000}" by (auto simp: ex_child_def)
  then show ?thesis using spaceD(2,4,6) [OF sp] ex_pte(1)
    by (auto simp: parent_def owned_def ex_ran ex_state_def ex_tree_ok(2))
qed

theorem uvmalloc_grows_witness:
  "\<exists>r s' T' ps'. uvmalloc ex_end 0x80034000 0 0x1000 4 ex_state = Ok (r, s') \<and>
    (r = 0x1000 \<and> user_space ex_end s' 0x80034000 T' ({} \<union> {upg 0..<upg 0x1000}) ps' \<and>
       all_pages s' T' ({} \<union> {upg 0..<upg 0x1000}) ps' = all_pages ex_state ex_child {} ex_free \<and>
       umem (vmem s') T' = (\<lambda>a. if a div PGSIZE \<in> {upg 0..<upg 0x1000} then Some 0 else umem (vmem ex_state) ex_child a) \<or>
     r = 0 \<and> user_space ex_end s' 0x80034000 T' {} ps' \<and> all_pages s' T' {} ps' = all_pages ex_state ex_child {} ex_free \<and>
       umem (vmem s') T' = umem (vmem ex_state) ex_child)"
  by (rule uvmalloc_grows [OF ex_child_space]) (simp_all add: ex_child_leaf ex_state_def)


theorem uvmfree_returns_pages_witness:
  "\<exists>s' ps'. uvmfree ex_end ex_root 0x1000 ex_state = Ok s' \<and> vm_ok ex_end s' ps' \<and>
     set ps' = all_pages ex_state ex_tree {0..<upg 0x1000} ex_free"
  by (rule uvmfree_returns_pages)
    (use ex_process in \<open>simp_all add: user_space_def ex_upg ex_tree_ok(2) ex_state_def\<close>)

lemma ex_umem: "a < 4096 \<Longrightarrow> umem (vmem ex_state) ex_tree a = Some 0"
proof -
  assume a: "a < 4096"
  have "ex_mem (0x80033000 + a) = 0" using same_out_apply [OF ex_same ex_pages(4)] a by (simp add: PGSIZE_def)
  then show ?thesis using a ex_pte by (simp add: umem_def upages_def ex_state_def ex_tree_ok(2) PGSIZE_def)
qed

theorem copyout_copyin_witness:
  "\<exists>s'. copyout ex_root 0x10 [1, 2, 3] ex_state = Ok (0, s') \<and> copyin ex_root 0x10 3 s' = Ok (0, [1, 2, 3])"
proof -
  have "as_ok ex_end (vmem ex_state) ex_tree (upages (vmem ex_state) ex_tree)" "ex_tree [] = Some ex_root"
    using ex_process as_ok_subset [OF spaceD(2)] by (auto simp: user_space_def)
  from copyout_spec [OF this, of "0x10" "[1, 2, 3]"] obtain s' where "copyout ex_root 0x10 [1, 2, 3] ex_state = Ok (0, s')"
    using ex_umem by fastforce
  with copyout_copyin [OF ex_process this] show ?thesis by (simp add: numeral_3_eq_3)
qed

theorem copyinstr_string_witness:
  "\<exists>r dst. copyinstr ex_root 8 4 ex_state = Ok (r, dst) \<and> r = 0 \<and> dst = [0]"
proof -
  let ?m = "vmem ex_state"
  have "\<exists>k < 4. ustr ?m ex_tree (unat (8 :: u64)) k \<and> umem ?m ex_tree (unat (8 :: u64) + k) = Some 0"
    using ex_umem [of 8] by (intro exI [of _ 0]) (simp add: ustr_def)
  with copyinstr_string [OF ex_process, of 8 4] obtain r dst where r: "copyinstr ex_root 8 4 ex_state = Ok (r, dst)" "r = 0"
    and "\<exists>k. dst = uread ?m ex_tree (unat (8 :: u64)) (Suc k) \<and> ustr ?m ex_tree (unat (8 :: u64)) k \<and> dst ! k = 0"
    by blast
  then obtain k where k: "dst = uread ?m ex_tree 8 (Suc k)" "ustr ?m ex_tree 8 k" by auto
  have "k = 0" using k(2) ex_umem [of 8] by (cases k) (auto simp: ustr_def)
  then have "dst = [0]" using k(1) ex_umem [of 8] by (simp add: uread_def upt_Suc)
  with r show ?thesis by blast
qed

end
