(* ===== verification/Sys_Raid.thy ===== *)
theory Sys_Raid
  imports Raid_Example Vm_User
begin

text \<open>
  The system calls on the array (kernel/sysraid.c) and the fetching of their arguments (kernel/syscall.c). They join
  the array with the memory of the calling process: blocks go through a buffer on the kernel stack. The memory
  seen through the page table and the state of the array are separate parts of the state, since the copying
  functions neither allocate nor free a page.
\<close>

section \<open>Arguments\<close>

text \<open>The calling process: its page table, its size and the registers \<open>a0\<close> to \<open>a5\<close> saved in the trap frame.\<close>

record caller =
  pagetable :: nat
  psz :: u64
  tf_args :: "u64 list"

definition argraw :: "caller \<Rightarrow> int \<Rightarrow> u64 result" where
  "argraw p n = (if 0 \<le> n \<and> n \<le> 5 then Ok (tf_args p ! nat n) else Panic ''argraw'')"

definition argint :: "caller \<Rightarrow> int \<Rightarrow> int result" where
  "argint p n = bindR (argraw p n) (\<lambda>v. Ok (sint (ucast v :: 32 word)))"

definition argaddr :: "caller \<Rightarrow> int \<Rightarrow> u64 result" where
  "argaddr p n = argraw p n"

definition fetchaddr :: "caller \<Rightarrow> u64 \<Rightarrow> vmstate \<Rightarrow> (int \<times> byte list) result" where
  "fetchaddr p addr u =
     (if addr \<ge> psz p \<or> addr + 8 > psz p then Ok (- 1, [])
      else bindR (copyin (pagetable p) addr 8 u) (\<lambda>(r, ip). if r \<noteq> 0 then Ok (- 1, ip) else Ok (0, ip)))"

definition fetchstr :: "caller \<Rightarrow> u64 \<Rightarrow> nat \<Rightarrow> vmstate \<Rightarrow> (int \<times> byte list) result" where
  "fetchstr p addr maxn u =
     bindR (copyinstr (pagetable p) addr maxn u) (\<lambda>(r, buf).
       if r < 0 then Ok (- 1, buf) else Ok (int (length (takeWhile (\<lambda>b. b \<noteq> 0) buf)), buf))"

definition argstr :: "caller \<Rightarrow> int \<Rightarrow> nat \<Rightarrow> vmstate \<Rightarrow> (int \<times> byte list) result" where
  "argstr p n maxn u = bindR (argaddr p n) (\<lambda>addr. fetchstr p addr maxn u)"

section \<open>The calls\<close>

record sysstate =
  arr :: kstate
  usr :: vmstate

definition sys_init_raid :: "platform \<Rightarrow> caller \<Rightarrow> sysstate \<Rightarrow> (u64 \<times> sysstate) result" where
  "sys_init_raid E p s =
     bindR (argint p 0) (\<lambda>type.
       if type < 0 then Ok (- 1, s)
       else bindR (setraidtype E type (arr s)) (\<lambda>(_, k). Ok (0, s\<lparr>arr := k\<rparr>)))"

text \<open>\<open>stack\<close> is what the stack buffer holds before it is written. Comparisons with 0 are those of the C types:
  \<open>uint64\<close> for the results of the array functions and for addresses, \<open>int\<close> for \<open>copyin\<close> and \<open>copyout\<close>.\<close>

definition sys_read_raid :: "platform \<Rightarrow> caller \<Rightarrow> block \<Rightarrow> sysstate \<Rightarrow> (u64 \<times> sysstate) result" where
  "sys_read_raid E p stack s =
     bindR (argint p 0) (\<lambda>vblkn.
     bindR (argaddr p 1) (\<lambda>data_addr.
       if data_addr < 0 then Ok (- 1, s)
       else bindR (readraid E vblkn stack (arr s)) (\<lambda>(r, data, k).
            let s = s\<lparr>arr := k\<rparr>
            in if r < 0 then Ok (- 1, s)
               else bindR (copyout (pagetable p) data_addr data (usr s)) (\<lambda>(r, u).
                    let s = s\<lparr>usr := u\<rparr> in if r < 0 then Ok (- 1, s) else Ok (0, s)))))"

definition sys_write_raid :: "platform \<Rightarrow> caller \<Rightarrow> sysstate \<Rightarrow> (u64 \<times> sysstate) result" where
  "sys_write_raid E p s =
     bindR (argint p 0) (\<lambda>vblkn.
       if vblkn < 0 \<or> vblkn \<ge> int (raidblockn E (raidmeta (arr s))) then Ok (- 1, s)
       else bindR (argaddr p 1) (\<lambda>data_addr.
            if data_addr < 0 then Ok (- 1, s)
            else bindR (copyin (pagetable p) data_addr BSIZE (usr s)) (\<lambda>(r, data).
                 if r < 0 then Ok (- 1, s)
                 else bindR (writeraid E vblkn data (arr s)) (\<lambda>(r, k). Ok (r, s\<lparr>arr := k\<rparr>)))))"

definition sys_disk_fail_raid :: "platform \<Rightarrow> caller \<Rightarrow> sysstate \<Rightarrow> (u64 \<times> sysstate) result" where
  "sys_disk_fail_raid E p s =
     bindR (argint p 0) (\<lambda>diskn.
       if diskn < 0 then Ok (- 1, s) else bindR (raidfail E diskn (arr s)) (\<lambda>(r, k). Ok (r, s\<lparr>arr := k\<rparr>)))"

definition sys_disk_repaired_raid :: "platform \<Rightarrow> caller \<Rightarrow> sysstate \<Rightarrow> (u64 \<times> sysstate) result" where
  "sys_disk_repaired_raid E p s =
     bindR (argint p 0) (\<lambda>diskn.
       if diskn < 0 then Ok (- 1, s) else bindR (raidrepair E diskn (arr s)) (\<lambda>(r, k). Ok (r, s\<lparr>arr := k\<rparr>)))"

definition uint_bytes :: "nat \<Rightarrow> byte list" where
  "uint_bytes v = map (\<lambda>k. of_nat (v div 256 ^ k)) [0..<4]"

definition sys_info_raid :: "platform \<Rightarrow> caller \<Rightarrow> sysstate \<Rightarrow> (u64 \<times> sysstate) result" where
  "sys_info_raid E p s =
     bindR (argaddr p 0) (\<lambda>blkn_addr.
     bindR (argaddr p 1) (\<lambda>blks_addr.
     bindR (argaddr p 2) (\<lambda>diskn_addr.
       if blkn_addr < 0 \<or> blks_addr < 0 \<or> diskn_addr < 0 then Ok (- 1, s)
       else let blkn = uint_bytes (raidblockn E (raidmeta (arr s)));
                blks = uint_bytes BSIZE;
                diskn = uint_bytes (DISKS E)
            in bindR (copyout (pagetable p) blkn_addr blkn (usr s)) (\<lambda>(r, u).
               if r < 0 then Ok (- 1, s\<lparr>usr := u\<rparr>)
               else bindR (copyout (pagetable p) blks_addr blks u) (\<lambda>(r, u).
               if r < 0 then Ok (- 1, s\<lparr>usr := u\<rparr>)
               else bindR (copyout (pagetable p) diskn_addr diskn u) (\<lambda>(r, u).
               if r < 0 then Ok (- 1, s\<lparr>usr := u\<rparr>) else Ok (0, s\<lparr>usr := u\<rparr>)))))))"

definition sys_destroy_raid :: "platform \<Rightarrow> caller \<Rightarrow> sysstate \<Rightarrow> (u64 \<times> sysstate) result" where
  "sys_destroy_raid E p s = bindR (raiddestroy E (arr s)) (\<lambda>(r, k). Ok (r, s\<lparr>arr := k\<rparr>))"

section \<open>The memory of the caller\<close>

text \<open>The page table of \<open>p\<close> is the tree \<open>T\<close>.\<close>

definition caller_ok :: "nat \<Rightarrow> caller \<Rightarrow> ptree \<Rightarrow> vmstate \<Rightarrow> bool" where
  "caller_ok kend p T u \<longleftrightarrow> as_ok kend (vmem u) T (upages (vmem u) T) \<and> T [] = Some (pagetable p)"

definition mapped :: "vmstate \<Rightarrow> ptree \<Rightarrow> u64 \<Rightarrow> nat \<Rightarrow> bool" where
  "mapped u T a n \<longleftrightarrow> (\<forall>i < n. umem (vmem u) T (unat a + i) \<noteq> None)"

lemma copyout_mapped:
  assumes c: "caller_ok kend p T u" and m: "mapped u T a (length xs)"
  obtains u' where "copyout (pagetable p) a xs u = Ok (0, u')" "caller_ok kend p T u'" "umem (vmem u') T = vwrite (umem (vmem u) T) (unat a) xs"
    "\<forall>b n. mapped u' T b n = mapped u T b n" "uread (vmem u') T (unat a) (length xs) = xs"
proof -
  obtain r u' n where r: "copyout (pagetable p) a xs u = Ok (r, u')" "as_ok kend (vmem u') T (upages (vmem u') T)"
    "umem (vmem u') T = vwrite (umem (vmem u) T) (unat a) (take n xs)"
    "r = 0 \<and> n = length xs \<or> r = - 1 \<and> n < length xs \<and> umem (vmem u) T (unat a + n) = None"
    using copyout_spec [of kend u T "pagetable p" a xs] c unfolding caller_ok_def by blast
  then have n: "r = 0" "n = length xs" using m by (auto simp: mapped_def)
  have w: "umem (vmem u') T = vwrite (umem (vmem u) T) (unat a) xs" using r(3) n by simp
  have "umem (vmem u') T b = None \<longleftrightarrow> umem (vmem u) T b = None" for b
    using m by (auto simp: w vwrite_def mapped_def) (metis add_diff_inverse_nat less_diff_conv2 not_less add.commute)
  then have "\<forall>b n. mapped u' T b n = mapped u T b n" by (simp add: mapped_def)
  moreover have "uread (vmem u') T (unat a) (length xs) = xs" by (rule nth_equalityI) (simp_all add: nth_uread w vwrite_def)
  ultimately show thesis using that r(1,2) n w c by (simp add: caller_ok_def)
qed

lemma copyin_mapped:
  assumes c: "caller_ok kend p T u" and m: "mapped u T a n"
  shows "copyin (pagetable p) a n u = Ok (0, uread (vmem u) T (unat a) n)"
proof -
  obtain r k where "copyin (pagetable p) a n u = Ok (r, uread (vmem u) T (unat a) k)"
    "r = 0 \<and> k = n \<or> r = - 1 \<and> k < n \<and> umem (vmem u) T (unat a + k) = None"
    using copyin_spec [of kend u T "pagetable p" a n] c unfolding caller_ok_def by blast
  then show ?thesis using m by (auto simp: mapped_def)
qed

section \<open>Sequences of calls\<close>

datatype rcall = CWrite nat u64 | CFail nat | CRepair nat

text \<open>The process puts the arguments into its registers and makes the call.\<close>

primrec run_call :: "platform \<Rightarrow> caller \<Rightarrow> rcall \<Rightarrow> sysstate \<Rightarrow> (u64 \<times> sysstate) result" where
  "run_call E p (CWrite v a) s = sys_write_raid E (p\<lparr>tf_args := [of_nat v, a]\<rparr>) s"
| "run_call E p (CFail d) s = sys_disk_fail_raid E (p\<lparr>tf_args := [of_nat d]\<rparr>) s"
| "run_call E p (CRepair d) s = sys_disk_repaired_raid E (p\<lparr>tf_args := [of_nat d]\<rparr>) s"

primrec run_calls :: "platform \<Rightarrow> caller \<Rightarrow> rcall list \<Rightarrow> sysstate \<Rightarrow> (u64 \<times> sysstate) result" where
  "run_calls E p [] s = Ok (0, s)"
| "run_calls E p (c # cs) s =
     bindR (run_call E p c s) (\<lambda>(r, s). if r \<noteq> 0 then Ok (r, s) else run_calls E p cs s)"

text \<open>The operation of the abstract array that a call asks for: a write takes the bytes the process sees.\<close>

primrec call_op :: "vmstate \<Rightarrow> ptree \<Rightarrow> rcall \<Rightarrow> rop" where
  "call_op u T (CWrite v a) = Write v (uread (vmem u) T (unat a) BSIZE)"
| "call_op u T (CFail d) = Fail d"
| "call_op u T (CRepair d) = Repair d"

primrec call_ok :: "vmstate \<Rightarrow> ptree \<Rightarrow> rcall \<Rightarrow> bool" where
  "call_ok u T (CWrite v a) \<longleftrightarrow> v < 2 ^ 31 \<and> mapped u T a BSIZE"
| "call_ok u T (CFail d) \<longleftrightarrow> d < 2 ^ 31"
| "call_ok u T (CRepair d) \<longleftrightarrow> d < 2 ^ 31"

lemma argint_of_nat: "n < 2 ^ 31 \<Longrightarrow> tf_args p = of_nat n # xs \<Longrightarrow> argint p 0 = Ok (int n)"
  by (simp add: argint_def argraw_def unsigned_of_nat take_bit_nat_eq_self signed_of_nat signed_take_bit_int_eq_self)

lemma caller_ok_args [simp]: "caller_ok kend (p\<lparr>tf_args := xs\<rparr>) T u = caller_ok kend p T u"
  by (simp add: caller_ok_def)

text \<open>A level behind the system calls: \<open>raidblockn\<close> is its number of blocks.\<close>

locale raid_calls = raid_level +
  assumes blocks: "rtype m = t \<Longrightarrow> raidblockn E m = cap"
begin

lemma call_run_op:
  assumes "inv (arr s)" "caller_ok kend p T (usr s)" "call_ok (usr s) T c" "legal E cap tol a (call_op (usr s) T c)"
    and run: "run_op E (writeraid E) (call_op (usr s) T c) (arr s) = Ok (0, k)"
  shows "run_call E p c s = Ok (0, s\<lparr>arr := k\<rparr>)"
proof (cases c)
  case (CWrite v b)
  have t: "rtype (raidmeta (arr s)) = t" using inv_meta [OF assms(1)] by (simp add: meta_ok_def)
  have "copyin (pagetable (p\<lparr>tf_args := [of_nat v, b]\<rparr>)) b BSIZE (usr s) = Ok (0, uread (vmem (usr s)) T (unat b) BSIZE)"
    by (rule copyin_mapped [where kend = kend]) (use assms(2,3) CWrite in simp_all)
  then show ?thesis using assms(3-) CWrite argint_of_nat [of v "p\<lparr>tf_args := [of_nat v, b]\<rparr>" "[b]"]
    by (simp add: sys_write_raid_def argaddr_def argraw_def blocks [OF t])
next
  case (CFail d)
  then show ?thesis using assms(3-) argint_of_nat [of d "p\<lparr>tf_args := [of_nat d]\<rparr>" "[]"] by (simp add: sys_disk_fail_raid_def)
next
  case (CRepair d)
  then show ?thesis using assms(3-) argint_of_nat [of d "p\<lparr>tf_args := [of_nat d]\<rparr>" "[]"] by (simp add: sys_disk_repaired_raid_def)
qed

lemma calls_refine:
  assumes "top.refines (arr s) a" "caller_ok kend p T (usr s)" "list_all (call_ok (usr s) T) cs"
    "legal_run E cap tol a (map (call_op (usr s) T) cs)"
  shows "\<exists>k. run_calls E p cs s = Ok (0, s\<lparr>arr := k\<rparr>) \<and> top.refines k (fold astep (map (call_op (usr s) T) cs) a)"
  using assms
proof (induction cs arbitrary: s a)
  case Nil
  then show ?case by (intro exI [of _ "arr s"]) simp
next
  case (Cons c cs)
  let ?p = "call_op (usr s) T c"
  from Cons.prems have l: "legal E cap tol a ?p" by simp
  obtain k where k: "run_op E (writeraid E) ?p (arr s) = Ok (0, k)" "top.refines k (astep ?p a)"
    using top.sim_step [OF Cons.prems(1) l] by blast
  have r: "run_call E p c s = Ok (0, s\<lparr>arr := k\<rparr>)"
    using Cons.prems by (intro call_run_op [OF _ Cons.prems(2) _ l k(1)]) (simp_all add: top.refines_def)
  have "\<exists>k'. run_calls E p cs (s\<lparr>arr := k\<rparr>) = Ok (0, s\<lparr>arr := k\<rparr>\<lparr>arr := k'\<rparr>) \<and>
      top.refines k' (fold astep (map (call_op (usr (s\<lparr>arr := k\<rparr>)) T) cs) (astep ?p a))"
    by (rule Cons.IH) (use Cons.prems k(2) in simp_all)
  then show ?case using r by simp
qed

text \<open>After any legal sequence of calls, a read call puts what was written last into the memory of the process.\<close>

lemma calls_read_back:
  assumes i: "inv (arr s)" "tol (failed_disks E (arr s))" and c: "caller_ok kend p T (usr s)" "list_all (call_ok (usr s) T) cs"
    "legal_run E cap tol (start E (arr s)) (map (call_op (usr s) T) cs)"
    and v: "content (fold astep (map (call_op (usr s) T) cs) (start E (arr s))) v = Some x" "v < 2 ^ 31" "mapped (usr s) T dst BSIZE" "is_block x"
  shows "\<exists>s1 s2. run_calls E p cs s = Ok (0, s1) \<and> sys_read_raid E (p\<lparr>tf_args := [of_nat v, dst]\<rparr>) stack s1 = Ok (0, s2) \<and>
    umem (vmem (usr s2)) T = vwrite (umem (vmem (usr s)) T) (unat dst) x \<and> uread (vmem (usr s2)) T (unat dst) BSIZE = x"
proof -
  obtain k where k: "run_calls E p cs s = Ok (0, s\<lparr>arr := k\<rparr>)" "top.refines k (fold astep (map (call_op (usr s) T) cs) (start E (arr s)))"
    using calls_refine [OF top.start_refines [OF i] c] by blast
  from k(2) v(1) have kk: "inv k" "tol (failed_disks E k)" "v < cap" "stores k v x" by (auto simp: top.refines_def)
  obtain tb where r: "readraid E (int v) stack k = Ok (0, x, k\<lparr>tbuf := tb\<rparr>)" using top.read_law [OF kk] by blast
  have "mapped (usr s) T dst (length x)" using v(3,4) by (simp add: is_block_def)
  then obtain u' where u: "copyout (pagetable p) dst x (usr s) = Ok (0, u')" "umem (vmem u') T = vwrite (umem (vmem (usr s)) T) (unat dst) x"
    "uread (vmem u') T (unat dst) (length x) = x"
    using copyout_mapped [OF c(1)] by metis
  have "sys_read_raid E (p\<lparr>tf_args := [of_nat v, dst]\<rparr>) stack (s\<lparr>arr := k\<rparr>) = Ok (0, s\<lparr>arr := k\<lparr>tbuf := tb\<rparr>, usr := u'\<rparr>)"
    using v(2) r u(1) argint_of_nat [of v "p\<lparr>tf_args := [of_nat v, dst]\<rparr>" "[dst]"]
    by (simp add: sys_read_raid_def argaddr_def argraw_def)
  then show ?thesis using k(1) u(2,3) v(4) by (simp add: is_block_def)
qed

end

interpretation c0: raid_calls E "raid0read E" "raid0write E" "raid0_inv E" "raid0_cap E" raid0_tol
  "raid0_stores E" RAID0 for E
  by unfold_locales (simp add: raidblockn_def)

interpretation c1: raid_calls E "raid1read E" "raid1write E" "raid1_inv E" "raid1_cap E" "raid1_tol E"
  "mirror_stores (\<lambda>k. 2 * k) (\<lambda>k. 2 * k + 1) (\<lambda>v. v div diskblockn) (\<lambda>v. v mod diskblockn)" RAID1 for E
  by unfold_locales (simp add: raidblockn_def)

interpretation c01: raid_calls E "raid0_1read E" "raid0_1write E" "raid0_1_inv E" "raid0_1_cap E" "raid0_1_tol E"
  "mirror_stores (\<lambda>k. k) (\<lambda>k. k + DISKS E div 2) (\<lambda>v. v mod (DISKS E div 2)) (\<lambda>v. v div (DISKS E div 2))"
  RAID0_1 for E
  by unfold_locales (simp add: raidblockn_def)

interpretation c4: raid_calls E "raid4read E" "raid4write E" "parity_inv E RAID4" "raid4_cap E" parity_tol
  "parity_stores E (\<lambda>v. v mod (DISKS E - 1)) (\<lambda>v. v div (DISKS E - 1))" RAID4 for E
  by unfold_locales (simp add: raidblockn_def)

interpretation c5: raid_calls E "raid5read E" "raid5write E" "parity_inv E RAID5" "raid5_cap E" parity_tol
  "parity_stores E (raid5_dsk E) (\<lambda>v. v div (DISKS E - 1))" RAID5 for E
  by unfold_locales (simp add: raidblockn_def)

section \<open>The array as a process sees it\<close>

lemma content_block:
  assumes "legal_run E cap tol a ps" "\<And>v x. content a v = Some x \<Longrightarrow> is_block x" "content (fold astep ps a) v = Some x"
  shows "is_block x"
  using assms
proof (induction ps arbitrary: a)
  case (Cons p ps)
  show ?case
  proof (rule Cons.IH)
    show "is_block y" if "content (astep p a) w = Some y" for w y
      using that Cons.prems(1,2) by (cases p) (auto split: if_splits)
  qed (use Cons.prems in simp_all)
qed simp

text \<open>C2. The system calls on a RAID 5 array, from the process's point of view: after \<open>init_raid(4)\<close>, every sequence of
  \<open>write_raid\<close>, \<open>disk_fail_raid\<close> and \<open>disk_repaired_raid\<close> calls, with buffers the process owns and at most one failed disk
  at a time, returns 0 throughout, and a following \<open>read_raid\<close> returns 0 and places in the caller's buffer the bytes that
  the last \<open>write_raid\<close> of that block took from its memory, changing no other byte of the process.\<close>

theorem raid5_calls:
  assumes b: "base_ok E (arr s)" "parity_tol (failed_disks E (arr s))" "kmem_inv (kernel_end E) (kmem (arr s)) (pg # pg' # pgs)"
    and c: "caller_ok kend p T (usr s)" "list_all (call_ok (usr s) T) cs"
      "legal_run E (raid5_cap E) parity_tol (start E (arr s)) (map (call_op (usr s) T) cs)"
    and v: "content (fold astep (map (call_op (usr s) T) cs) (start E (arr s))) v = Some x" "v < 2 ^ 31" "mapped (usr s) T dst BSIZE"
  shows "\<exists>s0 s1 s2. sys_init_raid E (p\<lparr>tf_args := [4]\<rparr>) s = Ok (0, s0) \<and> run_calls E p cs s0 = Ok (0, s1) \<and>
    sys_read_raid E (p\<lparr>tf_args := [of_nat v, dst]\<rparr>) stack s1 = Ok (0, s2) \<and>
    umem (vmem (usr s2)) T = vwrite (umem (vmem (usr s)) T) (unat dst) x \<and> uread (vmem (usr s2)) T (unat dst) BSIZE = x"
proof -
  obtain k where k: "setraidtype E 4 (arr s) = Ok (0, k)" "parity_inv E RAID5 k" "failed_disks E k = failed_disks E (arr s)"
    using raid5_start [OF b] by blast
  let ?s = "s\<lparr>arr := k\<rparr>"
  have st: "start E k = start E (arr s)" using k(3) by (simp add: start_def)
  have i: "sys_init_raid E (p\<lparr>tf_args := [4]\<rparr>) s = Ok (0, ?s)"
    using k(1) argint_of_nat [of 4 "p\<lparr>tf_args := [4]\<rparr>" "[]"] by (simp add: sys_init_raid_def)
  have "is_block x" by (rule content_block [OF c(3) _ v(1)]) (simp add: start_def)
  then have "\<exists>s1 s2. run_calls E p cs ?s = Ok (0, s1) \<and> sys_read_raid E (p\<lparr>tf_args := [of_nat v, dst]\<rparr>) stack s1 = Ok (0, s2) \<and>
    umem (vmem (usr s2)) T = vwrite (umem (vmem (usr ?s)) T) (unat dst) x \<and> uread (vmem (usr s2)) T (unat dst) BSIZE = x"
    by (intro c5.calls_read_back [where kend = kend]) (use k st b(2) c v in simp_all)
  then show ?thesis using i by auto
qed

text \<open>C28. A failed \<open>read_raid\<close> is reported as a success: for a block number outside the array \<open>readraid\<close> returns -1, but the
  call returns 0, and the caller's buffer receives whatever the kernel stack held.\<close>

theorem sys_read_raid_leak:
  assumes "parity_inv E RAID5 (arr s)" "raidblockn E (raidmeta (arr s)) \<le> n" "n < 2 ^ 31"
    and "caller_ok kend p T (usr s)" "mapped (usr s) T dst BSIZE" "is_block stack"
  shows "readraid E (int n) stack (arr s) = Ok (- 1, stack, arr s) \<and>
    (\<exists>s'. sys_read_raid E (p\<lparr>tf_args := [of_nat n, dst]\<rparr>) stack s = Ok (0, s') \<and> uread (vmem (usr s')) T (unat dst) BSIZE = stack)"
proof -
  have "rtype (raidmeta (arr s)) = RAID5" using l5.inv_meta [OF assms(1)] by (simp add: meta_ok_def)
  then have "raid5_cap E \<le> n" using assms(2) by (simp add: raidblockn_def)
  then have "int (raid5_cap E) \<le> int n" by (simp only: of_nat_le_iff)
  then have r: "readraid E (int n) stack (arr s) = Ok (- 1, stack, arr s)" using l5.top_range [OF assms(1) disjI2] by blast
  have len: "length stack = BSIZE" using assms(6) by (simp add: is_block_def)
  obtain u' where u: "copyout (pagetable p) dst stack (usr s) = Ok (0, u')" "uread (vmem u') T (unat dst) BSIZE = stack"
    using copyout_mapped [OF assms(4), of dst stack] assms(5) unfolding len by metis
  have "sys_read_raid E (p\<lparr>tf_args := [of_nat n, dst]\<rparr>) stack s = Ok (0, s\<lparr>usr := u'\<rparr>)"
    using assms(3) r u(1) argint_of_nat [of n "p\<lparr>tf_args := [of_nat n, dst]\<rparr>" "[dst]"]
    by (simp add: sys_read_raid_def argaddr_def argraw_def)
  then show ?thesis using r u(2) by simp
qed

section \<open>An example\<close>

definition ex_caller :: caller where
  "ex_caller = \<lparr>pagetable = ex_root, psz = 0x1000, tf_args = []\<rparr>"

lemma ex_caller_ok: "caller_ok ex_end ex_caller ex_tree ex_state" "a + n \<le> 4096 \<Longrightarrow> mapped ex_state ex_tree (of_nat a) n"
proof -
  show "caller_ok ex_end ex_caller ex_tree ex_state"
    using ex_process as_ok_subset [OF spaceD(2)] by (auto simp: user_space_def caller_ok_def ex_caller_def)
  show "mapped ex_state ex_tree (of_nat a) n" if "a + n \<le> 4096"
    using that ex_umem by (simp add: mapped_def unsigned_of_nat take_bit_nat_eq_self)
qed

theorem raid5_calls_witness:
  "\<exists>s0 s1 s2. sys_init_raid (demo_E 4) (ex_caller\<lparr>tf_args := [4]\<rparr>) \<lparr>arr = demo_state 4, usr = ex_state\<rparr> = Ok (0, s0) \<and>
     run_calls (demo_E 4) ex_caller [CWrite 7 1024, CFail 2, CWrite 7 2048] s0 = Ok (0, s1) \<and>
     sys_read_raid (demo_E 4) (ex_caller\<lparr>tf_args := [of_nat 7, 0]\<rparr>) (replicate BSIZE 9) s1 = Ok (0, s2) \<and>
     uread (vmem (usr s2)) ex_tree 0 BSIZE = uread (vmem ex_state) ex_tree 2048 BSIZE"
proof -
  let ?s = "\<lparr>arr = demo_state 4, usr = ex_state\<rparr>" and ?cs = "[CWrite 7 1024, CFail 2, CWrite 7 2048]"
  let ?x = "uread (vmem ex_state) ex_tree 2048 BSIZE"
  note m = ex_caller_ok(2) [of 1024 BSIZE] ex_caller_ok(2) [of 2048 BSIZE] ex_caller_ok(2) [of 0 BSIZE]
  have k: "kmem_inv (kernel_end (demo_E 4)) (kmem (arr ?s)) [0x80030000, 0x80031000]" using demo_kmem_inv by simp
  have "\<exists>s0 s1 s2. sys_init_raid (demo_E 4) (ex_caller\<lparr>tf_args := [4]\<rparr>) ?s = Ok (0, s0) \<and> run_calls (demo_E 4) ex_caller ?cs s0 = Ok (0, s1) \<and>
    sys_read_raid (demo_E 4) (ex_caller\<lparr>tf_args := [of_nat 7, 0]\<rparr>) (replicate BSIZE 9) s1 = Ok (0, s2) \<and>
    umem (vmem (usr s2)) ex_tree = vwrite (umem (vmem (usr ?s)) ex_tree) (unat (0 :: u64)) ?x \<and> uread (vmem (usr s2)) ex_tree (unat (0 :: u64)) BSIZE = ?x"
    by (rule raid5_calls [OF _ _ k, where kend = ex_end])
      (use m ex_caller_ok(1) in \<open>simp_all add: BSIZE_def is_block_def parity_tol_def diskblockn_val start_def\<close>)
  then show ?thesis unfolding unsigned_0 by blast
qed

theorem sys_read_raid_leak_witness:
  "\<exists>k s'. parity_inv (demo_E 4) RAID5 k \<and> readraid (demo_E 4) 100000 (replicate BSIZE 9) k = Ok (- 1, replicate BSIZE 9, k) \<and>
     sys_read_raid (demo_E 4) (ex_caller\<lparr>tf_args := [100000, 0]\<rparr>) (replicate BSIZE 9) \<lparr>arr = k, usr = ex_state\<rparr> = Ok (0, s') \<and>
     uread (vmem (usr s')) ex_tree 0 BSIZE = replicate BSIZE 9"
proof -
  have "kmem_inv (kernel_end (demo_E 4)) (kmem (demo_state 4)) [0x80030000, 0x80031000]" using demo_kmem_inv by simp
  from raid5_start [OF _ _ this] obtain k where k: "parity_inv (demo_E 4) RAID5 k" by (auto simp: parity_tol_def)
  have "rtype (raidmeta k) = RAID5" using l5.inv_meta [OF k] by (simp add: meta_ok_def)
  then have "raidblockn (demo_E 4) (raidmeta k) \<le> 100000" by (simp add: raidblockn_def diskblockn_val)
  with sys_read_raid_leak [of "demo_E 4" "\<lparr>arr = k, usr = ex_state\<rparr>" 100000 ex_end ex_caller ex_tree 0 "replicate BSIZE 9"] k ex_caller_ok(1)
    ex_caller_ok(2) [of 0 BSIZE]
  show ?thesis by (auto simp: BSIZE_def is_block_def)
qed

end
