(* ===== verification/Ring.thy ===== *)
theory Ring
  imports Kernel_Prelude "HOL-Library.Word"
begin

text \<open>
  Ring buffers with free-running indices: the virtio rings, pipes, the console's input buffer and the
  transmit buffer of the UART. An index is a machine word that is only ever incremented and wraps around at its
  width; the entry for index \<open>a\<close> is at position \<open>a mod S\<close>.
\<close>

text \<open>The entries from index \<open>a\<close> (inclusive) to \<open>e\<close> (exclusive) are \<open>xs\<close>.\<close>

definition ring_is :: "nat \<Rightarrow> (nat \<Rightarrow> 'b) \<Rightarrow> 'a::len word \<Rightarrow> 'a word \<Rightarrow> 'b list \<Rightarrow> bool" where
  "ring_is S r a e xs \<longleftrightarrow> e = a + of_nat (length xs) \<and> length xs \<le> S \<and> (\<forall>n < length xs. r ((unat a + n) mod S) = xs ! n)"

lemma ring_empty [simp]: "ring_is S r a a []"
  by (simp add: ring_is_def)

text \<open>The laws hold when the number of entries divides the range of the index.\<close>

locale ring_size =
  fixes S :: nat and ty :: "'a::len itself"
  assumes size_pos: "0 < S" and size_dvd: "S dvd 2 ^ LENGTH('a)" and size_less: "S < 2 ^ LENGTH('a)"
begin

lemma unat_ring: "unat (a + of_nat n :: 'a word) mod S = (unat a + n) mod S"
proof -
  have "unat (a + of_nat n) = (unat a + n) mod 2 ^ LENGTH('a)"
    by (simp add: unat_word_ariths unsigned_of_nat take_bit_eq_mod mod_add_right_eq)
  then show ?thesis by (simp add: mod_mod_cancel [OF size_dvd])
qed

lemma ring_push:
  fixes a e :: "'a word"
  assumes "ring_is S r a e xs" "length xs < S"
  shows "ring_is S (r(unat e mod S := x)) a (e + 1) (xs @ [x])"
proof -
  have "(unat a + n) mod S \<noteq> (unat a + length xs) mod S" if "n < length xs" for n
  proof
    assume "(unat a + n) mod S = (unat a + length xs) mod S"
    then have "S dvd length xs - n" using mod_eq_dvd_iff_nat [of "unat a + n" "unat a + length xs" S] that by simp
    then show False using that assms(2) nat_dvd_not_less [of "length xs - n" S] by simp
  qed
  then show ?thesis using assms unfolding ring_is_def by (auto simp: unat_ring nth_append less_Suc_eq)
qed

lemma ring_pop:
  fixes a e :: "'a word"
  assumes "ring_is S r a e (x # xs)"
  shows "r (unat a mod S) = x" "ring_is S r (a + 1) e xs"
proof -
  from assms have n: "r ((unat a + n) mod S) = (x # xs) ! n" if "n < length (x # xs)" for n using that by (simp add: ring_is_def)
  show "r (unat a mod S) = x" using n [of 0] by simp
  have "r ((unat (a + 1) + n) mod S) = xs ! n" if "n < length xs" for n
  proof -
    have "(unat (a + 1) + n) mod S = (unat (a + 1) mod S + n) mod S" by (simp only: mod_add_left_eq)
    also have "\<dots> = (unat a + Suc n) mod S" using unat_ring [of a 1] by (simp add: mod_simps)
    finally show ?thesis using n [of "Suc n"] that by simp
  qed
  then show "ring_is S r (a + 1) e xs" using assms by (simp add: ring_is_def add.assoc)
qed

lemma ring_length:
  fixes a e :: "'a word"
  assumes "ring_is S r a e xs"
  shows "unat (e - a) = length xs"
proof -
  have "length xs < 2 ^ LENGTH('a)" using assms size_less by (simp add: ring_is_def)
  then show ?thesis using assms by (simp add: ring_is_def unsigned_of_nat take_bit_nat_eq_self)
qed

lemma ring_nonempty:
  fixes a e :: "'a word"
  assumes "ring_is S r a e xs"
  shows "a = e \<longleftrightarrow> xs = []"
  using ring_length [OF assms] assms by (auto simp: ring_is_def)

lemma ring_full:
  fixes a e :: "'a word"
  assumes "ring_is S r a e xs"
  shows "e = a + of_nat S \<longleftrightarrow> length xs = S"
proof
  assume "e = a + of_nat S"
  then have "unat (e - a) = S" using size_less by (simp add: unsigned_of_nat take_bit_nat_eq_self)
  then show "length xs = S" using ring_length [OF assms] by simp
qed (use assms in \<open>simp add: ring_is_def\<close>)

text \<open>Dropping the newest entry.\<close>

lemma ring_drop:
  fixes a e :: "'a word"
  assumes "ring_is S r a e (xs @ [x])"
  shows "ring_is S r a (e - 1) xs" "r (unat (e - 1) mod S) = x"
proof -
  show p: "ring_is S r a (e - 1) xs" using assms by (auto simp: ring_is_def nth_append)
  have "e - 1 = a + of_nat (length xs)" using p by (simp add: ring_is_def)
  then have "unat (e - 1) mod S = (unat a + length xs) mod S" by (simp add: unat_ring)
  then show "r (unat (e - 1) mod S) = x" using assms by (simp add: ring_is_def)
qed

end

end
