(* ===== verification/Virtio.thy ===== *)
theory Virtio
  imports Raid_Meta Ring
begin

text \<open>
  The driver of one virtio disk (kernel/virtio_disk.c): the descriptors, the two rings shared with the device and
  the book-keeping of requests in flight. Addresses given to the device are kept symbolic: the header
  \<open>ops[i]\<close>, the data of a buffer or the status byte \<open>info[i].status\<close>.
\<close>

definition NUM :: nat where "NUM = 16"

datatype dma = NoAddr | Req nat | Data nat | Status nat

record virtq_desc =
  daddr :: dma
  dlen :: nat
  dflags :: "16 word"
  dnext :: "16 word"

record virtio_blk_req =
  req_type :: nat
  sector :: u64

text \<open>\<open>bno\<close>, \<open>bdat\<close> and \<open>bdisk\<close> are the fields \<open>blockno\<close>, \<open>data\<close> and \<open>disk\<close> of the buffers.\<close>

record vdisk =
  vfree :: "nat \<Rightarrow> bool"
  vqdesc :: "nat \<Rightarrow> virtq_desc"
  vops :: "nat \<Rightarrow> virtio_blk_req"
  info_b :: "nat \<Rightarrow> nat option"
  info_status :: "nat \<Rightarrow> byte"
  av_ring :: "nat \<Rightarrow> nat"
  av_idx :: "16 word"
  us_ring :: "nat \<Rightarrow> nat"
  us_idx :: "16 word"
  used_idx :: "16 word"
  bno :: "nat \<Rightarrow> 32 word"
  bdat :: "nat \<Rightarrow> block"
  bdisk :: "nat \<Rightarrow> bool"

abbreviation VRING_DESC_F_NEXT :: "16 word" where "VRING_DESC_F_NEXT \<equiv> 1"

abbreviation VRING_DESC_F_WRITE :: "16 word" where "VRING_DESC_F_WRITE \<equiv> 2"

section \<open>Descriptors\<close>

definition alloc_desc :: "vdisk \<Rightarrow> nat option \<times> vdisk" where
  "alloc_desc d = (case find (vfree d) [0..<NUM] of
     Some i \<Rightarrow> (Some i, d\<lparr>vfree := (vfree d)(i := False)\<rparr>)
   | None \<Rightarrow> (None, d))"

definition no_desc :: virtq_desc where
  "no_desc = \<lparr>daddr = NoAddr, dlen = 0, dflags = 0, dnext = 0\<rparr>"

definition free_desc :: "nat \<Rightarrow> vdisk \<Rightarrow> vdisk result" where
  "free_desc i d =
     (if i \<ge> NUM then Panic ''free_desc 1''
      else if vfree d i then Panic ''free_desc 2''
      else Ok (d\<lparr>vqdesc := (vqdesc d)(i := no_desc), vfree := (vfree d)(i := True)\<rparr>))"

text \<open>The loop ends whatever the descriptors hold: each turn frees a descriptor that was in use, or panics.\<close>

function free_chain :: "nat \<Rightarrow> vdisk \<Rightarrow> vdisk result" where
  "free_chain i d =
     (let flag = dflags (vqdesc d i); nxt = unat (dnext (vqdesc d i))
      in case free_desc i d of
           Ok d' \<Rightarrow> if flag AND VRING_DESC_F_NEXT \<noteq> 0 then free_chain nxt d' else Ok d'
         | Panic m \<Rightarrow> Panic m
         | Blocked \<Rightarrow> Blocked
         | Fault \<Rightarrow> Fault)"
  by pat_completeness auto
termination
proof (relation "measure (\<lambda>(_, d). card {i. i < NUM \<and> \<not> vfree d i})", goal_cases)
  case (2 i d flag nxt d')
  then have d': "vfree d' = (vfree d)(i := True)" "i < NUM" "\<not> vfree d i" by (auto simp: free_desc_def split: if_splits)
  then have "{j. j < NUM \<and> \<not> vfree d' j} \<subset> {j. j < NUM \<and> \<not> vfree d j}" by auto
  then show ?case by (simp add: psubset_card_mono)
qed simp

declare free_chain.simps [simp del]

text \<open>\<open>idx\<close> is the array of the descriptors found so far.\<close>

definition alloc3_desc :: "vdisk \<Rightarrow> (nat \<times> nat \<times> nat) option \<times> vdisk result" where
  "alloc3_desc d =
     (case alloc_desc d of
        (None, d) \<Rightarrow> (None, Ok d)
      | (Some i0, d) \<Rightarrow>
          (case alloc_desc d of
             (None, d) \<Rightarrow> (None, free_desc i0 d)
           | (Some i1, d) \<Rightarrow>
               (case alloc_desc d of
                  (None, d) \<Rightarrow> (None, bindR (free_desc i0 d) (free_desc i1))
                | (Some i2, d) \<Rightarrow> (Some (i0, i1, i2), Ok d))))"

section \<open>Requests\<close>

text \<open>The part of \<open>virtio_disk_rw\<close> between the allocation of the descriptors and the \<open>sleep\<close> on the buffer.\<close>

definition submit :: "nat \<Rightarrow> bool \<Rightarrow> nat \<times> nat \<times> nat \<Rightarrow> vdisk \<Rightarrow> vdisk" where
  "submit b write idx d =
     (case idx of (i0, i1, i2) \<Rightarrow>
      let d = d\<lparr>vops := (vops d)(i0 := \<lparr>req_type = (if write then 1 else 0), sector = ucast (bno d b * of_nat (BSIZE div 512))\<rparr>)\<rparr>;
          d = d\<lparr>vqdesc := (vqdesc d)(i0 := \<lparr>daddr = Req i0, dlen = 16, dflags = VRING_DESC_F_NEXT, dnext = of_nat i1\<rparr>)\<rparr>;
          d = d\<lparr>vqdesc := (vqdesc d)(i1 := \<lparr>daddr = Data b, dlen = BSIZE,
                 dflags = (if write then 0 else VRING_DESC_F_WRITE) OR VRING_DESC_F_NEXT, dnext = of_nat i2\<rparr>)\<rparr>;
          d = d\<lparr>info_status := (info_status d)(i0 := 0xff)\<rparr>;
          d = d\<lparr>vqdesc := (vqdesc d)(i2 := \<lparr>daddr = Status i0, dlen = 1, dflags = VRING_DESC_F_WRITE, dnext = 0\<rparr>)\<rparr>;
          d = d\<lparr>bdisk := (bdisk d)(b := True)\<rparr>;
          d = d\<lparr>info_b := (info_b d)(i0 := Some b)\<rparr>;
          d = d\<lparr>av_ring := (av_ring d)(unat (av_idx d) mod NUM := i0)\<rparr>
      in d\<lparr>av_idx := av_idx d + 1\<rparr>)"

text \<open>The part after the \<open>sleep\<close>.\<close>

definition finish :: "nat \<Rightarrow> vdisk \<Rightarrow> vdisk result" where
  "finish i0 d = free_chain i0 (d\<lparr>info_b := (info_b d)(i0 := None)\<rparr>)"

text \<open>\<open>virtio_disk_intr\<close>: the loop over the new entries of the used ring. The buffers on which \<open>wakeup\<close> is called are
  collected. The index of an entry is the device's; one that is not a descriptor is a wild access.\<close>

function virtio_disk_intr :: "nat list \<Rightarrow> vdisk \<Rightarrow> (nat list \<times> vdisk) result" where
  "virtio_disk_intr ws d =
     (if used_idx d = us_idx d then Ok (ws, d)
      else let idx = us_ring d (unat (used_idx d) mod NUM)
           in if idx \<ge> NUM then Fault
              else if info_status d idx \<noteq> 0 then Panic ''virtio_disk_intr status''
              else case info_b d idx of
                     None \<Rightarrow> Fault
                   | Some b \<Rightarrow> virtio_disk_intr (ws @ [b]) (d\<lparr>bdisk := (bdisk d)(b := False), used_idx := used_idx d + 1\<rparr>))"
  by pat_completeness auto
termination
proof (relation "measure (\<lambda>(_, d). unat (us_idx d - used_idx d))", goal_cases)
  case (2 ws d)
  then have "us_idx d - used_idx d \<noteq> 0" by simp
  then have "unat (us_idx d - used_idx d - 1) < unat (us_idx d - used_idx d)" by (metis measure_unat)
  then show ?case by (simp add: algebra_simps)
qed simp

declare virtio_disk_intr.simps [simp del]

section \<open>Rings\<close>

interpretation vring: ring_size NUM "TYPE(16)"
  by unfold_locales (simp_all add: NUM_def)

section \<open>Effects\<close>

lemma alloc_desc_cases:
  obtains (free) i where "alloc_desc d = (Some i, d\<lparr>vfree := (vfree d)(i := False)\<rparr>)" "i < NUM" "vfree d i"
  | (full) "alloc_desc d = (None, d)" "\<forall>i < NUM. \<not> vfree d i"
proof (cases "find (vfree d) [0..<NUM]")
  case None
  then have "alloc_desc d = (None, d)" by (simp add: alloc_desc_def)
  moreover have "\<forall>i < NUM. \<not> vfree d i" using None by (auto simp: find_None_iff)
  ultimately show thesis by (rule full)
next
  case (Some i)
  then have "alloc_desc d = (Some i, d\<lparr>vfree := (vfree d)(i := False)\<rparr>)" by (simp add: alloc_desc_def)
  moreover have "i < NUM" "vfree d i" using Some by (auto simp: find_Some_iff)
  ultimately show thesis by (rule free)
qed

text \<open>Three different free descriptors, or none: then those taken meanwhile have been given back.\<close>

lemma alloc3_desc_cases:
  obtains (free) i j k where "alloc3_desc d = (Some (i, j, k), Ok (d\<lparr>vfree := (vfree d)(i := False, j := False, k := False)\<rparr>))"
    "distinct [i, j, k]" "i < NUM" "j < NUM" "k < NUM" "vfree d i" "vfree d j" "vfree d k"
  | (full) q where "alloc3_desc d = (None, Ok (d\<lparr>vqdesc := q\<rparr>))" "\<forall>x. \<not> vfree d x \<longrightarrow> q x = vqdesc d x"
proof (cases rule: alloc_desc_cases [of d])
  case full
  then show thesis using that(2) [of "vqdesc d"] by (simp add: alloc3_desc_def)
next
  case i: (free i)
  let ?d = "d\<lparr>vfree := (vfree d)(i := False)\<rparr>"
  show thesis
  proof (cases rule: alloc_desc_cases [of ?d])
    case full
    have "(vfree d)(i := True) = vfree d" using i(3) by (auto simp: fun_eq_iff)
    then show thesis using that(2) [of "(vqdesc d)(i := no_desc)"] full i by (simp add: alloc3_desc_def free_desc_def)
  next
    case j: (free j)
    then have ij: "i \<noteq> j" "vfree d j" by (auto split: if_splits)
    let ?e = "d\<lparr>vfree := (vfree d)(i := False, j := False)\<rparr>"
    show thesis
    proof (cases rule: alloc_desc_cases [of ?e])
      case full
      have "(vfree d)(i := True, j := True) = vfree d" "(vfree d)(j := False, i := True, j := True) = vfree d" using i(3) ij by (auto simp: fun_eq_iff)
      then show thesis
        using that(2) [of "(vqdesc d)(i := no_desc, j := no_desc)"] full i j ij by (simp add: alloc3_desc_def free_desc_def fun_upd_twist)
    next
      case k: (free k)
      then have "k \<noteq> i" "k \<noteq> j" "vfree d k" by (auto split: if_splits)
      then show thesis using that(1) [of i j k] i j k ij by (simp add: alloc3_desc_def)
    qed
  qed
qed

text \<open>A request is a chain of three descriptors: header, data, status.\<close>

definition second :: "vdisk \<Rightarrow> nat \<Rightarrow> nat" where
  "second d i = unat (dnext (vqdesc d i))"

definition tri :: "vdisk \<Rightarrow> nat \<Rightarrow> nat set" where
  "tri d i = {i, second d i, second d (second d i)}"

definition block_sector :: "vdisk \<Rightarrow> nat \<Rightarrow> u64" where
  "block_sector d b = ucast (bno d b * of_nat (BSIZE div 512))"

definition chain_ok :: "vdisk \<Rightarrow> nat \<Rightarrow> bool \<Rightarrow> nat \<Rightarrow> bool" where
  "chain_ok d b w i \<longleftrightarrow>
     (let j = second d i; k = second d j
      in i < NUM \<and> j < NUM \<and> k < NUM \<and> distinct [i, j, k] \<and> \<not> vfree d i \<and> \<not> vfree d j \<and> \<not> vfree d k \<and>
         daddr (vqdesc d i) = Req i \<and> dflags (vqdesc d i) = VRING_DESC_F_NEXT \<and>
         daddr (vqdesc d j) = Data b \<and> dlen (vqdesc d j) = BSIZE \<and>
         dflags (vqdesc d j) = (if w then 0 else VRING_DESC_F_WRITE) OR VRING_DESC_F_NEXT \<and>
         daddr (vqdesc d k) = Status i \<and> dflags (vqdesc d k) = VRING_DESC_F_WRITE \<and>
         req_type (vops d i) = (if w then 1 else 0) \<and> sector (vops d i) = block_sector d b \<and> info_b d i = Some b)"

lemma chain_cong:
  assumes "chain_ok d b w i" "\<forall>x \<in> tri d i. vqdesc d' x = vqdesc d x \<and> vfree d' x = vfree d x" "vops d' i = vops d i" "info_b d' i = info_b d i"
    "bno d' b = bno d b"
  shows "chain_ok d' b w i" "tri d' i = tri d i"
proof -
  have e: "vqdesc d' i = vqdesc d i" "vqdesc d' (second d i) = vqdesc d (second d i)" "vqdesc d' (second d (second d i)) = vqdesc d (second d (second d i))"
    "vfree d' i = vfree d i" "vfree d' (second d i) = vfree d (second d i)" "vfree d' (second d (second d i)) = vfree d (second d (second d i))"
    using assms(2) by (simp_all add: tri_def)
  then have j: "second d' i = second d i" "second d' (second d i) = second d (second d i)" by (simp_all add: second_def)
  then show "tri d' i = tri d i" by (simp add: tri_def)
  show "chain_ok d' b w i" using assms(1,3-5) e j by (simp add: chain_ok_def block_sector_def Let_def)
qed

lemma chain_tri: "chain_ok d b w i \<Longrightarrow> x \<in> tri d i \<Longrightarrow> x < NUM \<and> \<not> vfree d x"
  by (auto simp: chain_ok_def tri_def Let_def)

lemma submit_chain:
  fixes b d w
  assumes "distinct [i, j, k]" "i < NUM" "j < NUM" "k < NUM"
  defines "d' \<equiv> submit b w (i, j, k) (d\<lparr>vfree := (vfree d)(i := False, j := False, k := False)\<rparr>)"
  shows "chain_ok d' b w i" "tri d' i = {i, j, k}"
proof -
  have u: "unat (of_nat j :: 16 word) = j" "unat (of_nat k :: 16 word) = k" using assms(3,4) by (simp_all add: NUM_def unsigned_of_nat take_bit_nat_eq_self)
  have s: "second d' i = j" "second d' j = k" using assms(1) by (simp_all add: d'_def submit_def second_def Let_def u)
  then show "tri d' i = {i, j, k}" by (simp add: tri_def)
  show "chain_ok d' b w i" using assms(1-4) unfolding chain_ok_def Let_def s by (simp add: d'_def submit_def Let_def block_sector_def)
qed

text \<open>Freeing a chain frees exactly its three descriptors.\<close>

lemma finish_chain:
  assumes "chain_ok d b w i"
  obtains q where "finish i d = Ok (d\<lparr>info_b := (info_b d)(i := None), vqdesc := q, vfree := (\<lambda>x. x \<in> tri d i \<or> vfree d x)\<rparr>)"
    "\<forall>x. x \<notin> tri d i \<longrightarrow> q x = vqdesc d x"
proof -
  define j where "j = second d i"
  define k where "k = second d j"
  let ?d = "d\<lparr>info_b := (info_b d)(i := None)\<rparr>"
  have c: "i < NUM" "j < NUM" "k < NUM" "i \<noteq> j" "i \<noteq> k" "j \<noteq> k" "\<not> vfree d i" "\<not> vfree d j" "\<not> vfree d k"
    "dflags (vqdesc d i) = 1" "dflags (vqdesc d j) = (if w then 0 else 2) OR 1" "dflags (vqdesc d k) = 2"
    "unat (dnext (vqdesc d i)) = j" "unat (dnext (vqdesc d j)) = k"
    using assms by (simp_all add: chain_ok_def Let_def j_def k_def second_def)
  have f: "((if w then 0 else 2) OR 1 :: 16 word) AND 1 \<noteq> 0" "(1 :: 16 word) AND 1 \<noteq> 0" "(2 :: 16 word) AND 1 = 0" by simp_all
  let ?q = "(vqdesc d)(i := no_desc, j := no_desc, k := no_desc)" and ?f = "(vfree d)(i := True, j := True, k := True)"
  have "finish i d = Ok (?d\<lparr>vqdesc := ?q, vfree := ?f\<rparr>)"
    unfolding finish_def
    apply (subst free_chain.simps)
    apply (simp add: free_desc_def c f Let_def)
    apply (subst free_chain.simps)
    apply (simp add: free_desc_def c f Let_def c(4) [symmetric])
    apply (subst free_chain.simps)
    apply (simp add: free_desc_def c f Let_def c(4-6) [symmetric] not_le)
    done
  moreover have "?f = (\<lambda>x. x \<in> tri d i \<or> vfree d x)" by (auto simp: tri_def j_def k_def fun_eq_iff)
  ultimately show thesis using that [of ?q] by (simp add: tri_def j_def k_def)
qed

text \<open>The interrupt handler takes all new entries of the used ring.\<close>

lemma intr_spec:
  assumes "ring_is NUM (us_ring d) (used_idx d) (us_idx d) xs" "\<forall>i \<in> set xs. i < NUM \<and> info_status d i = 0 \<and> info_b d i = Some (bf i)"
  shows "\<exists>bd. virtio_disk_intr ws d = Ok (ws @ map bf xs, d\<lparr>bdisk := bd, used_idx := us_idx d\<rparr>)"
  using assms
proof (induction xs arbitrary: ws d)
  case Nil
  then have e: "used_idx d = us_idx d" using vring.ring_nonempty by blast
  then have "d = d\<lparr>used_idx := us_idx d\<rparr>" by simp
  then show ?case using e by (intro exI [of _ "bdisk d"]) (simp add: virtio_disk_intr.simps)
next
  case (Cons x xs)
  let ?d = "d\<lparr>bdisk := (bdisk d)(bf x := False), used_idx := used_idx d + 1\<rparr>"
  have ne: "used_idx d \<noteq> us_idx d" using vring.ring_nonempty [OF Cons.prems(1)] by simp
  note p = vring.ring_pop [OF Cons.prems(1)]
  have "\<exists>bd. virtio_disk_intr (ws @ [bf x]) ?d = Ok ((ws @ [bf x]) @ map bf xs, ?d\<lparr>bdisk := bd, used_idx := us_idx ?d\<rparr>)"
    by (rule Cons.IH) (use p(2) Cons.prems(2) in simp_all)
  then show ?case using ne p(1) Cons.prems(2) by (subst virtio_disk_intr.simps) (auto simp: Let_def)
qed

end
