(* ===== verification/Virtio_Protocol.thy ===== *)
theory Virtio_Protocol
  imports Virtio
begin

text \<open>
  Any number of threads in \<open>virtio_disk_rw\<close>, the device and the interrupt handler, as a step relation. A step of the
  driver is what runs between acquiring \<open>vdisk_lock\<close> and giving it up, in \<open>sleep\<close> or \<open>release\<close>. The device takes the
  requests of the available ring in order and completes them in any order.
\<close>

section \<open>Steps\<close>

text \<open>Where a thread is in \<open>virtio_disk_rw(b, write)\<close>: not in it, before the allocation of descriptors, asleep for
  descriptors, asleep for the completion of its request, or woken from that. The head of the request's chain
  is kept, and how many transfers the device had done when the request was made.\<close>

datatype vpc = VIdle | VEnter nat bool | VWait nat bool | VSleep nat bool nat nat | VWoken nat bool nat nat

type_synonym transfer = "bool \<times> u64 \<times> nat"

record vsys =
  vd :: vdisk
  vpcs :: "nat \<Rightarrow> vpc"
  dev_idx :: "16 word"
  busy :: "nat list"
  media :: "u64 \<Rightarrow> block"
  hist :: "transfer list"

fun req_of :: "vpc \<Rightarrow> (nat \<times> bool \<times> nat \<times> nat) option" where
  "req_of (VSleep b w i n) = Some (b, w, i, n)"
| "req_of (VWoken b w i n) = Some (b, w, i, n)"
| "req_of _ = None"

fun buf_of :: "vpc \<Rightarrow> nat option" where
  "buf_of VIdle = None"
| "buf_of (VEnter b w) = Some b"
| "buf_of (VWait b w) = Some b"
| "buf_of (VSleep b w i n) = Some b"
| "buf_of (VWoken b w i n) = Some b"

fun wake_free :: "vpc \<Rightarrow> vpc" where
  "wake_free (VWait b w) = VEnter b w"
| "wake_free p = p"

fun wake_buf :: "nat list \<Rightarrow> vpc \<Rightarrow> vpc" where
  "wake_buf bs (VSleep b w i n) = (if b \<in> set bs then VWoken b w i n else VSleep b w i n)"
| "wake_buf bs p = p"

text \<open>One transfer by the device, as the chain that starts at \<open>h\<close> tells it; a chain of another form is an error.\<close>

definition dev_exec :: "nat \<Rightarrow> vdisk \<Rightarrow> (u64 \<Rightarrow> block) \<Rightarrow> (transfer \<times> vdisk \<times> (u64 \<Rightarrow> block)) option" where
  "dev_exec h d m =
     (let q = vqdesc d h; r = vqdesc d (unat (dnext q)); t = vqdesc d (unat (dnext r))
      in case (daddr q, daddr r, daddr t) of
           (Req k, Data b, Status l) \<Rightarrow>
             let w = (req_type (vops d k) = 1); a = sector (vops d k)
             in if dflags q AND VRING_DESC_F_NEXT \<noteq> 0 \<and> dflags r AND VRING_DESC_F_NEXT \<noteq> 0 \<and> dflags t AND VRING_DESC_F_NEXT = 0 \<and>
                   dflags t AND VRING_DESC_F_WRITE \<noteq> 0 \<and> (w \<longleftrightarrow> dflags r AND VRING_DESC_F_WRITE = 0) \<and> dlen r = BSIZE
                then Some ((w, a, b),
                       d\<lparr>bdat := (if w then bdat d else (bdat d)(b := m a)), info_status := (info_status d)(l := 0)\<rparr>,
                       (if w then m(a := bdat d b) else m))
                else None
         | _ \<Rightarrow> None)"

inductive vstep :: "vsys \<Rightarrow> vsys \<Rightarrow> bool" where
  call: "vpcs s t = VIdle \<Longrightarrow> \<forall>t'. buf_of (vpcs s t') \<noteq> Some b \<Longrightarrow>
    vstep s (s\<lparr>vpcs := (vpcs s)(t := VEnter b w), vd := (vd s)\<lparr>bno := (bno (vd s))(b := k), bdat := (bdat (vd s))(b := x)\<rparr>\<rparr>)"
| request: "vpcs s t = VEnter b w \<Longrightarrow> alloc3_desc (vd s) = (Some (i, j, k), Ok d) \<Longrightarrow>
    vstep s (s\<lparr>vd := submit b w (i, j, k) d, vpcs := (vpcs s)(t := VSleep b w i (length (hist s)))\<rparr>)"
| full: "vpcs s t = VEnter b w \<Longrightarrow> alloc3_desc (vd s) = (None, Ok d) \<Longrightarrow>
    vstep s (s\<lparr>vd := d, vpcs := (if \<exists>i < NUM. vfree (vd s) i then wake_free \<circ> vpcs s else vpcs s)(t := VWait b w)\<rparr>)"
| fetch: "dev_idx s \<noteq> av_idx (vd s) \<Longrightarrow>
    vstep s (s\<lparr>busy := busy s @ [av_ring (vd s) (unat (dev_idx s) mod NUM)], dev_idx := dev_idx s + 1\<rparr>)"
| transfer: "h \<in> set (busy s) \<Longrightarrow> dev_exec h (vd s) (media s) = Some (e, d, m) \<Longrightarrow>
    vstep s (s\<lparr>vd := d\<lparr>us_ring := (us_ring d)(unat (us_idx d) mod NUM := h), us_idx := us_idx d + 1\<rparr>,
      media := m, busy := remove1 h (busy s), hist := hist s @ [e]\<rparr>)"
| interrupt: "virtio_disk_intr [] (vd s) = Ok (bs, d) \<Longrightarrow> vstep s (s\<lparr>vd := d, vpcs := wake_buf bs \<circ> vpcs s\<rparr>)"
| leave: "vpcs s t = VWoken b w i n \<Longrightarrow> finish i (vd s) = Ok d \<Longrightarrow>
    vstep s (s\<lparr>vd := d, vpcs := (wake_free \<circ> vpcs s)(t := VIdle)\<rparr>)"

text \<open>The state after \<open>virtio_disk_init\<close>.\<close>

definition vinit :: "(u64 \<Rightarrow> block) \<Rightarrow> vsys" where
  "vinit m = \<lparr>vd = \<lparr>vfree = (\<lambda>_. True), vqdesc = (\<lambda>_. no_desc), vops = (\<lambda>_. \<lparr>req_type = 0, sector = 0\<rparr>), info_b = (\<lambda>_. None),
     info_status = (\<lambda>_. 0), av_ring = (\<lambda>_. 0), av_idx = 0, us_ring = (\<lambda>_. 0), us_idx = 0, used_idx = 0, bno = (\<lambda>_. 0),
     bdat = (\<lambda>_. []), bdisk = (\<lambda>_. False)\<rparr>, vpcs = (\<lambda>_. VIdle), dev_idx = 0, busy = [], media = m, hist = []\<rparr>"

section \<open>Invariant\<close>

text \<open>The transfers with buffer \<open>b\<close> since the first \<open>n\<close>.\<close>

definition since :: "vsys \<Rightarrow> nat \<Rightarrow> nat \<Rightarrow> transfer list" where
  "since s n b = filter (\<lambda>(_, _, c). c = b) (drop n (hist s))"

definition reqs_ok :: "vsys \<Rightarrow> bool" where
  "reqs_ok s \<longleftrightarrow>
     (\<forall>t b w i n. req_of (vpcs s t) = Some (b, w, i, n) \<longrightarrow> chain_ok (vd s) b w i \<and> n \<le> length (hist s)) \<and>
     (\<forall>t t' b w i n b' w' i' n'. t \<noteq> t' \<longrightarrow> req_of (vpcs s t) = Some (b, w, i, n) \<longrightarrow> req_of (vpcs s t') = Some (b', w', i', n') \<longrightarrow>
        tri (vd s) i \<inter> tri (vd s) i' = {}) \<and>
     (\<forall>t t' b. buf_of (vpcs s t) = Some b \<longrightarrow> buf_of (vpcs s t') = Some b \<longrightarrow> t = t')"

definition sleepers :: "vsys \<Rightarrow> nat set" where
  "sleepers s = {i. \<exists>t b w n. vpcs s t = VSleep b w i n}"

definition queues_ok :: "vsys \<Rightarrow> nat list \<Rightarrow> nat list \<Rightarrow> bool" where
  "queues_ok s new old \<longleftrightarrow>
     ring_is NUM (av_ring (vd s)) (dev_idx s) (av_idx (vd s)) new \<and> ring_is NUM (us_ring (vd s)) (used_idx (vd s)) (us_idx (vd s)) old \<and>
     distinct (new @ busy s @ old) \<and> set (new @ busy s @ old) = sleepers s"

definition hist_ok :: "vsys \<Rightarrow> nat list \<Rightarrow> bool" where
  "hist_ok s old \<longleftrightarrow>
     (\<forall>t b w i n. vpcs s t = VSleep b w i n \<longrightarrow>
        (if i \<in> set old then info_status (vd s) i = 0 \<and> since s n b = [(w, block_sector (vd s) b, b)] else since s n b = [])) \<and>
     (\<forall>t b w i n. vpcs s t = VWoken b w i n \<longrightarrow> since s n b = [(w, block_sector (vd s) b, b)])"

definition vinv :: "vsys \<Rightarrow> bool" where
  "vinv s \<longleftrightarrow> reqs_ok s \<and> (\<exists>new old. queues_ok s new old \<and> hist_ok s old)"

lemma vinv_init: "vinv (vinit m)"
proof -
  have "queues_ok (vinit m) [] []" by (simp add: queues_ok_def sleepers_def vinit_def ring_empty)
  moreover have "hist_ok (vinit m) []" by (simp add: hist_ok_def vinit_def)
  moreover have "reqs_ok (vinit m)" by (simp add: reqs_ok_def vinit_def)
  ultimately show ?thesis unfolding vinv_def by blast
qed

section \<open>Preservation\<close>

lemma wake_free_simps [simp]:
  "req_of (wake_free p) = req_of p" "buf_of (wake_free p) = buf_of p"
  "wake_free p = VSleep b w i n \<longleftrightarrow> p = VSleep b w i n" "wake_free p = VWoken b w i n \<longleftrightarrow> p = VWoken b w i n"
  by (cases p; simp)+

lemma wake_buf_simps [simp]: "req_of (wake_buf bs p) = req_of p" "buf_of (wake_buf bs p) = buf_of p"
  by (cases p; simp)+

lemma req_buf: "req_of p = Some (b, w, i, n) \<Longrightarrow> buf_of p = Some b"
  by (cases p) simp_all

lemma reqs_okD:
  assumes "reqs_ok s"
  shows "req_of (vpcs s t) = Some (b, w, i, n) \<Longrightarrow> chain_ok (vd s) b w i" "req_of (vpcs s t) = Some (b, w, i, n) \<Longrightarrow> n \<le> length (hist s)"
    "t \<noteq> t' \<Longrightarrow> req_of (vpcs s t) = Some (b, w, i, n) \<Longrightarrow> req_of (vpcs s t') = Some (b', w', i', n') \<Longrightarrow> tri (vd s) i \<inter> tri (vd s) i' = {}"
    "buf_of (vpcs s t) = Some b \<Longrightarrow> buf_of (vpcs s t') = Some b \<Longrightarrow> t = t'"
  using assms unfolding reqs_ok_def by blast+

text \<open>The part of the invariant on requests: the threads outside \<open>T\<close>, which has at most one element, keep their
  requests; a request of the thread in \<open>T\<close> uses descriptors that were free.\<close>

lemma reqs_step:
  assumes r: "reqs_ok s" and T: "\<And>t t'. t \<in> T \<Longrightarrow> t' \<in> T \<Longrightarrow> t = t'" and h: "length (hist s) \<le> length (hist s')"
    and old: "\<And>t q. t \<notin> T \<Longrightarrow> req_of (vpcs s' t) = Some q \<Longrightarrow> req_of (vpcs s t) = Some q"
    and buf: "\<And>t b. t \<notin> T \<Longrightarrow> buf_of (vpcs s' t) = Some b \<Longrightarrow> buf_of (vpcs s t) = Some b"
    and keep: "\<And>t b w i n. t \<notin> T \<Longrightarrow> req_of (vpcs s' t) = Some (b, w, i, n) \<Longrightarrow>
      (\<forall>x \<in> tri (vd s) i. vqdesc (vd s') x = vqdesc (vd s) x \<and> vfree (vd s') x = vfree (vd s) x) \<and> vops (vd s') i = vops (vd s) i \<and>
      info_b (vd s') i = info_b (vd s) i \<and> bno (vd s') b = bno (vd s) b"
    and new: "\<And>t b w i n. t \<in> T \<Longrightarrow> req_of (vpcs s' t) = Some (b, w, i, n) \<Longrightarrow>
      chain_ok (vd s') b w i \<and> n \<le> length (hist s') \<and> (\<forall>x \<in> tri (vd s') i. vfree (vd s) x)"
    and nbuf: "\<And>t b. t \<in> T \<Longrightarrow> buf_of (vpcs s' t) = Some b \<Longrightarrow> \<forall>t'. t' \<noteq> t \<longrightarrow> buf_of (vpcs s t') \<noteq> Some b"
  shows "reqs_ok s'"
proof -
  have k: "chain_ok (vd s) b w i" "chain_ok (vd s') b w i" "tri (vd s') i = tri (vd s) i" "n \<le> length (hist s')"
    if q: "t \<notin> T" "req_of (vpcs s' t) = Some (b, w, i, n)" for t b w i n
  proof -
    show c: "chain_ok (vd s) b w i" by (rule reqs_okD(1) [OF r old [OF q]])
    from keep [OF q] have e: "\<forall>x \<in> tri (vd s) i. vqdesc (vd s') x = vqdesc (vd s) x \<and> vfree (vd s') x = vfree (vd s) x" "vops (vd s') i = vops (vd s) i"
      "info_b (vd s') i = info_b (vd s) i" "bno (vd s') b = bno (vd s) b" by simp_all
    show "chain_ok (vd s') b w i" "tri (vd s') i = tri (vd s) i" by (rule chain_cong [OF c e])+
    show "n \<le> length (hist s')" using reqs_okD(2) [OF r old [OF q]] h by simp
  qed
  have "tri (vd s') i \<inter> tri (vd s') i' = {}"
    if q: "t \<noteq> t'" "req_of (vpcs s' t) = Some (b, w, i, n)" "req_of (vpcs s' t') = Some (b', w', i', n')" for t t' b w i n b' w' i' n'
  proof (cases "t \<in> T"; cases "t' \<in> T")
    assume a: "t \<in> T" "t' \<in> T"
    then show ?thesis using T [OF a] q(1) by simp
  next
    assume a: "t \<in> T" "t' \<notin> T"
    then show ?thesis using new [OF a(1) q(2)] k(3) [OF a(2) q(3)] chain_tri [OF k(1) [OF a(2) q(3)]] by blast
  next
    assume a: "t \<notin> T" "t' \<in> T"
    then show ?thesis using new [OF a(2) q(3)] k(3) [OF a(1) q(2)] chain_tri [OF k(1) [OF a(1) q(2)]] by blast
  next
    assume a: "t \<notin> T" "t' \<notin> T"
    then show ?thesis using k(3) [OF a(1) q(2)] k(3) [OF a(2) q(3)] reqs_okD(3) [OF r q(1) old [OF a(1) q(2)] old [OF a(2) q(3)]] by simp
  qed
  moreover have "t = t'" if q: "buf_of (vpcs s' t) = Some b" "buf_of (vpcs s' t') = Some b" for t t' b
  proof (rule ccontr)
    assume ne: "t \<noteq> t'"
    consider "t \<in> T" "t' \<in> T" | "t \<in> T" "t' \<notin> T" | "t \<notin> T" "t' \<in> T" | "t \<notin> T" "t' \<notin> T" by blast
    then show False
    proof cases
      case 1
      then show ?thesis using T [OF 1] ne by simp
    next
      case 2
      then show ?thesis using nbuf [OF 2(1) q(1)] buf [OF 2(2) q(2)] ne by simp
    next
      case 3
      then show ?thesis using nbuf [OF 3(2) q(2)] buf [OF 3(1) q(1)] ne by simp
    next
      case 4
      then show ?thesis using reqs_okD(4) [OF r buf [OF 4(1) q(1)] buf [OF 4(2) q(2)]] ne by simp
    qed
  qed
  moreover have "chain_ok (vd s') b w i \<and> n \<le> length (hist s')" if q: "req_of (vpcs s' t) = Some (b, w, i, n)" for t b w i n
  proof (cases "t \<in> T")
    case True
    then show ?thesis using new [OF True q] by simp
  next
    case False
    then show ?thesis using k(2,4) [OF False q] by simp
  qed
  ultimately show ?thesis unfolding reqs_ok_def by blast
qed

lemma queued_req:
  assumes "queues_ok s new old" "i \<in> set (new @ busy s @ old)"
  obtains t b w n where "vpcs s t = VSleep b w i n" "req_of (vpcs s t) = Some (b, w, i, n)"
proof -
  obtain t b w n where "vpcs s t = VSleep b w i n" using assms unfolding queues_ok_def sleepers_def by blast
  then show thesis using that by simp
qed

lemma queued_less:
  assumes "reqs_ok s" "queues_ok s new old" "i \<in> set (new @ busy s @ old)"
  shows "i < NUM" "\<not> vfree (vd s) i"
proof -
  obtain t b w n where "req_of (vpcs s t) = Some (b, w, i, n)" using queued_req [OF assms(2,3)] .
  from reqs_okD(1) [OF assms(1) this] show "i < NUM" "\<not> vfree (vd s) i" by (simp_all add: chain_ok_def Let_def)
qed

lemma dev_exec_chain:
  assumes "chain_ok d b w h"
  shows "dev_exec h d m = Some ((w, block_sector d b, b),
    d\<lparr>bdat := (if w then bdat d else (bdat d)(b := m (block_sector d b))), info_status := (info_status d)(h := 0)\<rparr>,
    (if w then m(block_sector d b := bdat d b) else m))"
proof -
  define j where "j = unat (dnext (vqdesc d h))"
  define k where "k = unat (dnext (vqdesc d j))"
  have a: "daddr (vqdesc d h) = Req h" "daddr (vqdesc d j) = Data b" "daddr (vqdesc d k) = Status h"
    "dflags (vqdesc d h) = 1" "dflags (vqdesc d j) = (if w then 0 else 2) OR 1" "dflags (vqdesc d k) = 2" "dlen (vqdesc d j) = BSIZE"
    "req_type (vops d h) = (if w then 1 else 0)" "sector (vops d h) = block_sector d b"
    using assms by (simp_all add: chain_ok_def second_def Let_def j_def k_def)
  show ?thesis unfolding dev_exec_def Let_def j_def [symmetric] k_def [symmetric] a by (cases w) (simp_all add: a)
qed

lemma since_snoc: "n \<le> length (hist s) \<Longrightarrow> hist s' = hist s @ [(w, a, c)] \<Longrightarrow> since s' n b = since s n b @ (if c = b then [(w, a, c)] else [])"
  by (simp add: since_def)

lemma hist_step:
  assumes o: "hist_ok s old" and h: "hist s' = hist s"
    and sl: "\<And>t b w i n. vpcs s' t = VSleep b w i n \<Longrightarrow>
      vpcs s t = VSleep b w i n \<and> (i \<in> set old \<longleftrightarrow> i \<in> set old') \<and> (i \<in> set old' \<longrightarrow> info_status (vd s') i = info_status (vd s) i) \<and>
        block_sector (vd s') b = block_sector (vd s) b
      \<or> n = length (hist s) \<and> i \<notin> set old'"
    and wk: "\<And>t b w i n. vpcs s' t = VWoken b w i n \<Longrightarrow>
      (vpcs s t = VWoken b w i n \<or> vpcs s t = VSleep b w i n \<and> i \<in> set old) \<and> block_sector (vd s') b = block_sector (vd s) b"
  shows "hist_ok s' old'"
proof -
  have e: "since s' n b = since s n b" for n b by (simp add: since_def h)
  have l: "since s (length (hist s)) b = []" for b by (simp add: since_def)
  have os: "if i \<in> set old then info_status (vd s) i = 0 \<and> since s n b = [(w, block_sector (vd s) b, b)] else since s n b = []"
    if "vpcs s t = VSleep b w i n" for t b w i n using o that unfolding hist_ok_def by blast
  have ow: "since s n b = [(w, block_sector (vd s) b, b)]" if "vpcs s t = VWoken b w i n" for t b w i n using o that unfolding hist_ok_def by blast
  show ?thesis unfolding hist_ok_def e
  proof (intro conjI allI impI)
    fix t b w i n
    assume "vpcs s' t = VSleep b w i n"
    from sl [OF this] show "if i \<in> set old' then info_status (vd s') i = 0 \<and> since s n b = [(w, block_sector (vd s') b, b)] else since s n b = []"
      using os [of t b w i n] l by auto
  next
    fix t b w i n
    assume "vpcs s' t = VWoken b w i n"
    from wk [OF this] show "since s n b = [(w, block_sector (vd s') b, b)]" using os [of t b w i n] ow [of t b w i n] by auto
  qed
qed

text \<open>One lemma per step.\<close>

lemma room:
  assumes "reqs_ok s" "queues_ok s new old" "i < NUM" "i \<notin> set (new @ busy s @ old)"
  shows "length new < NUM" "length old < NUM"
proof -
  let ?q = "i # new @ busy s @ old"
  have "set ?q \<subseteq> {..<NUM}" using assms(3) queued_less(1) [OF assms(1,2)] by auto
  then have "card (set ?q) \<le> NUM" using card_mono [of "{..<NUM}" "set ?q"] by simp
  moreover have "distinct ?q" using assms(2,4) by (simp add: queues_ok_def)
  ultimately have "length ?q \<le> NUM" by (metis distinct_card)
  then show "length new < NUM" "length old < NUM" by simp_all
qed

lemma inv_call:
  fixes w k x
  assumes i: "reqs_ok s" "queues_ok s new old" "hist_ok s old" and t: "vpcs s t = VIdle" "\<forall>t'. buf_of (vpcs s t') \<noteq> Some b"
  defines "s' \<equiv> s\<lparr>vpcs := (vpcs s)(t := VEnter b w), vd := (vd s)\<lparr>bno := (bno (vd s))(b := k), bdat := (bdat (vd s))(b := x)\<rparr>\<rparr>"
  shows "reqs_ok s' \<and> queues_ok s' new old \<and> hist_ok s' old"
proof (intro conjI)
  have nb: "c \<noteq> b" if "req_of (vpcs s u) = Some (c, v, j, n)" for u c v j n
    using req_buf [OF that] t(2) by auto
  show "reqs_ok s'"
    by (rule reqs_step [OF i(1), of "{t}"]) (use t nb in \<open>auto simp: s'_def\<close>)
  have "sleepers s' = sleepers s" using t(1) by (auto simp: sleepers_def s'_def) (metis vpc.distinct(5))
  then show "queues_ok s' new old" using i(2) unfolding queues_ok_def by (simp add: s'_def)
  show "hist_ok s' old"
  proof (rule hist_step [OF i(3)])
    fix u c v j n
    assume "vpcs s' u = VSleep c v j n"
    then have "vpcs s u = VSleep c v j n" by (auto simp: s'_def split: if_splits)
    moreover from this nb [of u c v j n] have "c \<noteq> b" by simp
    ultimately show "vpcs s u = VSleep c v j n \<and> (j \<in> set old \<longleftrightarrow> j \<in> set old) \<and> (j \<in> set old \<longrightarrow> info_status (vd s') j = info_status (vd s) j) \<and>
        block_sector (vd s') c = block_sector (vd s) c \<or> n = length (hist s) \<and> j \<notin> set old"
      by (simp add: s'_def block_sector_def)
  next
    fix u c v j n
    assume "vpcs s' u = VWoken c v j n"
    then have "vpcs s u = VWoken c v j n" by (auto simp: s'_def split: if_splits)
    moreover from this nb [of u c v j n] have "c \<noteq> b" by simp
    ultimately show "(vpcs s u = VWoken c v j n \<or> vpcs s u = VSleep c v j n \<and> j \<in> set old) \<and> block_sector (vd s') c = block_sector (vd s) c"
      by (simp add: s'_def block_sector_def)
  qed (simp add: s'_def)
qed

lemma inv_request:
  assumes i: "reqs_ok s" "queues_ok s new old" "hist_ok s old" and t: "vpcs s t = VEnter b w" "alloc3_desc (vd s) = (Some (i, j, k), Ok d)"
  defines "s' \<equiv> s\<lparr>vd := submit b w (i, j, k) d, vpcs := (vpcs s)(t := VSleep b w i (length (hist s)))\<rparr>"
  shows "reqs_ok s' \<and> queues_ok s' (new @ [i]) old \<and> hist_ok s' old"
proof -
  have a: "distinct [i, j, k]" "i < NUM" "j < NUM" "k < NUM" "vfree (vd s) i" "vfree (vd s) j" "vfree (vd s) k"
    "d = vd s\<lparr>vfree := (vfree (vd s))(i := False, j := False, k := False)\<rparr>"
    using t(2) by (cases rule: alloc3_desc_cases [of "vd s"]; simp)+
  note c = submit_chain [OF a(1-4), of b w "vd s", folded a(8)]
  have nb: "buf_of (vpcs s u) \<noteq> Some b" if "u \<noteq> t" for u using reqs_okD(4) [OF i(1), of u b t] t(1) that by auto
  have fr: "\<not> vfree (vd s) x" if "req_of (vpcs s u) = Some (c, v, h, n)" "x \<in> tri (vd s) h" for u c v h n x
    using chain_tri [OF reqs_okD(1) [OF i(1) that(1)] that(2)] by simp
  have hi: "h \<noteq> i" if "req_of (vpcs s u) = Some (c, v, h, n)" for u c v h n using fr [OF that, of h] a(5) by (auto simp: tri_def)
  have iq: "i \<notin> set (new @ busy s @ old)" using queued_less(2) [OF i(1,2)] a(5) by blast
  have "reqs_ok s'"
  proof (rule reqs_step [OF i(1), of "{t}"])
    fix u c v h n
    assume u: "u \<notin> {t}" "req_of (vpcs s' u) = Some (c, v, h, n)"
    then have q: "req_of (vpcs s u) = Some (c, v, h, n)" by (simp add: s'_def)
    then have "\<forall>x \<in> tri (vd s) h. x \<notin> {i, j, k}" using fr [OF q] a(5-7) by blast
    then show "(\<forall>x \<in> tri (vd s) h. vqdesc (vd s') x = vqdesc (vd s) x \<and> vfree (vd s') x = vfree (vd s) x) \<and> vops (vd s') h = vops (vd s) h \<and>
      info_b (vd s') h = info_b (vd s) h \<and> bno (vd s') c = bno (vd s) c"
      using hi [OF q] by (simp add: s'_def submit_def Let_def a(8))
  qed (use nb c a(5-7) in \<open>auto simp: s'_def\<close>)
  moreover have "queues_ok s' (new @ [i]) old"
  proof -
    have "sleepers s' = insert i (sleepers s)" using t(1) by (auto simp: sleepers_def s'_def) (metis vpc.distinct(11))
    moreover have "ring_is NUM ((av_ring (vd s))(unat (av_idx (vd s)) mod NUM := i)) (dev_idx s) (av_idx (vd s) + 1) (new @ [i])"
      by (rule vring.ring_push [OF _ room(1) [OF i(1,2) a(2) iq]]) (use i(2) in \<open>simp add: queues_ok_def\<close>)
    ultimately show ?thesis using i(2) iq unfolding queues_ok_def by (auto simp: s'_def submit_def Let_def a(8))
  qed
  moreover have "hist_ok s' old"
  proof -
    have e: "block_sector (vd s') c = block_sector (vd s) c" for c by (simp add: s'_def block_sector_def submit_def Let_def a(8))
    have st: "info_status (vd s') h = info_status (vd s) h" if "h \<in> set old" for h
      using iq that by (auto simp: s'_def submit_def Let_def a(8))
    show ?thesis by (rule hist_step [OF i(3)]) (use iq e st in \<open>auto simp: s'_def split: if_splits\<close>)
  qed
  ultimately show ?thesis by simp
qed

lemma inv_full:
  assumes i: "reqs_ok s" "queues_ok s new old" "hist_ok s old" and t: "vpcs s t = VEnter b w" "alloc3_desc (vd s) = (None, Ok d)"
  defines "s' \<equiv> s\<lparr>vd := d, vpcs := (if \<exists>i < NUM. vfree (vd s) i then wake_free \<circ> vpcs s else vpcs s)(t := VWait b w)\<rparr>"
  shows "reqs_ok s' \<and> queues_ok s' new old \<and> hist_ok s' old"
proof -
  obtain q where d: "d = vd s\<lparr>vqdesc := q\<rparr>" "\<forall>x. \<not> vfree (vd s) x \<longrightarrow> q x = vqdesc (vd s) x"
    using t(2) by (cases rule: alloc3_desc_cases [of "vd s"]) auto
  have p: "req_of (vpcs s' u) = req_of (vpcs s u)" "buf_of (vpcs s' u) = buf_of (vpcs s u)" "vpcs s' u = VSleep c v h n \<longleftrightarrow> vpcs s u = VSleep c v h n"
    "vpcs s' u = VWoken c v h n \<longleftrightarrow> vpcs s u = VWoken c v h n" for u c v h n
    using t(1) by (auto simp: s'_def)
  have "reqs_ok s'"
  proof (rule reqs_step [OF i(1), of "{}"])
    fix u c v h n
    assume "req_of (vpcs s' u) = Some (c, v, h, n)"
    then have "req_of (vpcs s u) = Some (c, v, h, n)" by (simp add: p)
    from chain_tri [OF reqs_okD(1) [OF i(1) this]]
    show "(\<forall>x \<in> tri (vd s) h. vqdesc (vd s') x = vqdesc (vd s) x \<and> vfree (vd s') x = vfree (vd s) x) \<and> vops (vd s') h = vops (vd s) h \<and>
      info_b (vd s') h = info_b (vd s) h \<and> bno (vd s') c = bno (vd s) c"
      using d(2) by (simp add: s'_def d(1))
  qed (simp_all add: p, simp add: s'_def)
  moreover have "sleepers s' = sleepers s" by (simp add: sleepers_def p)
  then have "queues_ok s' new old" using i(2) unfolding queues_ok_def by (simp add: s'_def d(1))
  moreover have "hist_ok s' old" by (rule hist_step [OF i(3)]) (simp_all add: p, simp_all add: s'_def d(1) block_sector_def)
  ultimately show ?thesis by simp
qed

lemma inv_fetch:
  assumes i: "reqs_ok s" "queues_ok s new old" "hist_ok s old" and n: "dev_idx s \<noteq> av_idx (vd s)"
  defines "s' \<equiv> s\<lparr>busy := busy s @ [av_ring (vd s) (unat (dev_idx s) mod NUM)], dev_idx := dev_idx s + 1\<rparr>"
  shows "reqs_ok s' \<and> queues_ok s' (tl new) old \<and> hist_ok s' old"
proof -
  have r: "ring_is NUM (av_ring (vd s)) (dev_idx s) (av_idx (vd s)) new" using i(2) by (simp add: queues_ok_def)
  then obtain x xs where new: "new = x # xs" using vring.ring_nonempty [OF r] n by (cases new) auto
  note p = vring.ring_pop [OF r [unfolded new]]
  have "sleepers s' = sleepers s" by (simp add: sleepers_def s'_def)
  then have "queues_ok s' xs old" using i(2) p unfolding queues_ok_def by (auto simp: s'_def new)
  moreover have "reqs_ok s'" using i(1) by (simp add: reqs_ok_def s'_def)
  moreover have "hist_ok s' old" by (rule hist_step [OF i(3)]) (simp_all add: s'_def)
  ultimately show ?thesis by (simp add: new)
qed

lemma inv_transfer:
  assumes i: "reqs_ok s" "queues_ok s new old" "hist_ok s old" and h: "h \<in> set (busy s)" "dev_exec h (vd s) (media s) = Some (e, d, m)"
  defines "s' \<equiv> s\<lparr>vd := d\<lparr>us_ring := (us_ring d)(unat (us_idx d) mod NUM := h), us_idx := us_idx d + 1\<rparr>,
      media := m, busy := remove1 h (busy s), hist := hist s @ [e]\<rparr>"
  shows "reqs_ok s' \<and> queues_ok s' new (old @ [h]) \<and> hist_ok s' (old @ [h])"
proof -
  have hq: "h \<in> set (new @ busy s @ old)" using h(1) by simp
  obtain t b w n where t: "vpcs s t = VSleep b w h n" "req_of (vpcs s t) = Some (b, w, h, n)" using queued_req [OF i(2) hq] .
  note c = reqs_okD(1) [OF i(1) t(2)]
  obtain x where e: "e = (w, block_sector (vd s) b, b)" and d: "d = vd s\<lparr>bdat := x, info_status := (info_status (vd s))(h := 0)\<rparr>"
    using h(2) dev_exec_chain [OF c, of "media s"] by auto
  have p: "vpcs s' = vpcs s" by (simp add: s'_def)
  have ds: "distinct (new @ busy s @ old)" "set (new @ busy s @ old) = sleepers s" using i(2) by (simp_all add: queues_ok_def)
  have ho: "h \<notin> set old" "h \<notin> set new" using ds(1) h(1) by auto
  have "reqs_ok s'" by (rule reqs_step [OF i(1), of "{}"]) (simp_all add: p, simp_all add: s'_def d)
  moreover have "queues_ok s' new (old @ [h])"
  proof -
    have "length old < NUM"
    proof -
      have "set (new @ busy s @ old) \<subseteq> {..<NUM}" using queued_less(1) [OF i(1,2)] by auto
      then have "card (set (new @ busy s @ old)) \<le> NUM" using card_mono [of "{..<NUM}"] by fastforce
      then have "length (new @ busy s @ old) \<le> NUM" using distinct_card [OF ds(1)] by simp
      then show ?thesis using h(1) by (cases "busy s") auto
    qed
    from vring.ring_push [OF _ this, of "us_ring (vd s)" "used_idx (vd s)" "us_idx (vd s)" h]
    have "ring_is NUM ((us_ring (vd s))(unat (us_idx (vd s)) mod NUM := h)) (used_idx (vd s)) (us_idx (vd s) + 1) (old @ [h])"
      using i(2) by (simp add: queues_ok_def)
    moreover have "sleepers s' = sleepers s" by (simp add: sleepers_def p)
    moreover have "set (busy s) = insert h (set (remove1 h (busy s)))" using ds(1) h(1) by auto
    ultimately show ?thesis using i(2) ho unfolding queues_ok_def by (auto simp: s'_def d)
  qed
  moreover have "hist_ok s' (old @ [h])"
  proof -
    have bs: "block_sector (vd s') c = block_sector (vd s) c" for c by (simp add: s'_def d block_sector_def)
    have other: "u = t" if "buf_of (vpcs s u) = Some b" for u using reqs_okD(4) [OF i(1) that, of t] t(1) by simp
    have new: "since s' n' c = since s n' c @ (if b = c then [e] else [])" if "req_of (vpcs s u) = Some (c, v, j, n')" for u c v j n'
      using since_snoc [OF reqs_okD(2) [OF i(1) that], of s' w "block_sector (vd s) b" b c] e by (simp add: s'_def)
    show ?thesis unfolding hist_ok_def p
    proof (intro conjI allI impI)
      fix u c v j n'
      assume u: "vpcs s u = VSleep c v j n'"
      then have o: "if j \<in> set old then info_status (vd s) j = 0 \<and> since s n' c = [(v, block_sector (vd s) c, c)] else since s n' c = []"
        using i(3) unfolding hist_ok_def by blast
      have r: "req_of (vpcs s u) = Some (c, v, j, n')" using u by simp
      have "b = c \<longleftrightarrow> u = t" using other [of u] u t(1) by auto
      moreover have "j = h \<longleftrightarrow> u = t"
        using reqs_okD(3) [OF i(1) _ r t(2)] u t(1) by (auto simp: tri_def)
      ultimately show "if j \<in> set (old @ [h]) then info_status (vd s') j = 0 \<and> since s' n' c = [(v, block_sector (vd s') c, c)] else since s' n' c = []"
        using o new [OF r] ho(1) u t(1) by (auto simp: bs e, auto simp: s'_def d)
    next
      fix u c v j n'
      assume u: "vpcs s u = VWoken c v j n'"
      then have r: "req_of (vpcs s u) = Some (c, v, j, n')" by simp
      have "b \<noteq> c" using other [of u] u t(1) by auto
      moreover have "since s n' c = [(v, block_sector (vd s) c, c)]" using i(3) u unfolding hist_ok_def by blast
      ultimately show "since s' n' c = [(v, block_sector (vd s') c, c)]" using new [OF r] by (simp add: bs)
    qed
  qed
  ultimately show ?thesis by simp
qed

text \<open>What the handler does: it wakes exactly the threads whose request is done.\<close>

lemma intr_wakes:
  assumes i: "reqs_ok s" "queues_ok s new old" "hist_ok s old"
  obtains bs bd where "virtio_disk_intr [] (vd s) = Ok (bs, vd s\<lparr>bdisk := bd, used_idx := us_idx (vd s)\<rparr>)"
    "\<forall>t b w h n. vpcs s t = VSleep b w h n \<longrightarrow> (b \<in> set bs \<longleftrightarrow> h \<in> set old)"
proof -
  define bf where "bf h = the (info_b (vd s) h)" for h
  have old: "h < NUM \<and> info_status (vd s) h = 0 \<and> info_b (vd s) h = Some (bf h)" if "h \<in> set old" for h
  proof -
    have q: "h \<in> set (new @ busy s @ old)" using that by simp
    obtain t b w n where t: "vpcs s t = VSleep b w h n" "req_of (vpcs s t) = Some (b, w, h, n)" using queued_req [OF i(2) q] .
    have "info_status (vd s) h = 0" using i(3) t(1) that unfolding hist_ok_def by metis
    then show ?thesis using reqs_okD(1) [OF i(1) t(2)] by (simp add: chain_ok_def Let_def bf_def)
  qed
  have sl: "info_b (vd s) h = Some b" if "vpcs s t = VSleep b w h n" for t b w h n
    using reqs_okD(1) [OF i(1), of t b w h n] that by (simp add: chain_ok_def Let_def)
  have "b \<in> set (map bf old) \<longleftrightarrow> h \<in> set old" if t: "vpcs s t = VSleep b w h n" for t b w h n
  proof
    assume "b \<in> set (map bf old)"
    then obtain g where g: "g \<in> set old" "bf g = b" by auto
    then have q: "g \<in> set (new @ busy s @ old)" by simp
    obtain t' b' w' n' where t': "vpcs s t' = VSleep b' w' g n'" using queued_req [OF i(2) q] .
    then have "b' = b" using sl [OF t'] g(2) by (simp add: bf_def)
    then have "t' = t" using reqs_okD(4) [OF i(1), of t' b t] t t' by simp
    then show "h \<in> set old" using t t' g(1) by simp
  next
    assume "h \<in> set old"
    moreover have "bf h = b" using sl [OF t] by (simp add: bf_def)
    ultimately show "b \<in> set (map bf old)" by auto
  qed
  moreover obtain bd where "virtio_disk_intr [] (vd s) = Ok ([] @ map bf old, vd s\<lparr>bdisk := bd, used_idx := us_idx (vd s)\<rparr>)"
    using intr_spec [of "vd s" old bf "[]"] old i(2) by (auto simp: queues_ok_def)
  ultimately show thesis using that [of "map bf old" bd] by simp
qed

lemma inv_interrupt:
  assumes i: "reqs_ok s" "queues_ok s new old" "hist_ok s old" and d: "virtio_disk_intr [] (vd s) = Ok (bs, d)"
  defines "s' \<equiv> s\<lparr>vd := d, vpcs := wake_buf bs \<circ> vpcs s\<rparr>"
  shows "reqs_ok s' \<and> queues_ok s' new [] \<and> hist_ok s' []"
proof -
  obtain bd where e: "d = vd s\<lparr>bdisk := bd, used_idx := us_idx (vd s)\<rparr>"
    and w: "vpcs s t = VSleep b w h n \<Longrightarrow> b \<in> set bs \<longleftrightarrow> h \<in> set old" for t b w h n
    using intr_wakes [OF i] d by (metis Pair_inject result.inject(1))
  have sl: "vpcs s' t = VSleep b w h n \<longleftrightarrow> vpcs s t = VSleep b w h n \<and> h \<notin> set old" for t b w h n
    using w [of t b w h n] by (cases "vpcs s t") (auto simp: s'_def)
  have wk: "vpcs s' t = VWoken b w h n \<longleftrightarrow> vpcs s t = VWoken b w h n \<or> vpcs s t = VSleep b w h n \<and> h \<in> set old" for t b w h n
    using w [of t b w h n] by (cases "vpcs s t") (auto simp: s'_def)
  have "reqs_ok s'" by (rule reqs_step [OF i(1), of "{}"]) (simp_all add: s'_def e)
  moreover have "queues_ok s' new []"
  proof -
    have "sleepers s' = sleepers s - set old" by (auto simp: sleepers_def sl)
    then show ?thesis using i(2) unfolding queues_ok_def by (auto simp: s'_def e ring_empty)
  qed
  moreover have "hist_ok s' []" by (rule hist_step [OF i(3)]) (simp_all add: sl wk, simp_all add: s'_def e block_sector_def)
  ultimately show ?thesis by simp
qed

lemma inv_leave:
  assumes i: "reqs_ok s" "queues_ok s new old" "hist_ok s old" and t: "vpcs s t = VWoken b w h n" "finish h (vd s) = Ok d"
  defines "s' \<equiv> s\<lparr>vd := d, vpcs := (wake_free \<circ> vpcs s)(t := VIdle)\<rparr>"
  shows "reqs_ok s' \<and> queues_ok s' new old \<and> hist_ok s' old"
proof -
  have r: "req_of (vpcs s t) = Some (b, w, h, n)" using t(1) by simp
  obtain q where d: "d = vd s\<lparr>info_b := (info_b (vd s))(h := None), vqdesc := q, vfree := (\<lambda>x. x \<in> tri (vd s) h \<or> vfree (vd s) x)\<rparr>"
    "\<forall>x. x \<notin> tri (vd s) h \<longrightarrow> q x = vqdesc (vd s) x"
    using finish_chain [OF reqs_okD(1) [OF i(1) r]] t(2) by (metis result.inject(1))
  have p: "req_of (vpcs s' u) = (if u = t then None else req_of (vpcs s u))" "buf_of (vpcs s' u) = (if u = t then None else buf_of (vpcs s u))"
    "vpcs s' u = VSleep c v g m \<longleftrightarrow> vpcs s u = VSleep c v g m" "vpcs s' u = VWoken c v g m \<longleftrightarrow> u \<noteq> t \<and> vpcs s u = VWoken c v g m" for u c v g m
    using t(1) by (auto simp: s'_def)
  have "reqs_ok s'"
  proof (rule reqs_step [OF i(1), of "{}"])
    fix u c v g m
    assume "req_of (vpcs s' u) = Some (c, v, g, m)"
    then have u: "u \<noteq> t" "req_of (vpcs s u) = Some (c, v, g, m)" by (auto simp: p split: if_splits)
    from reqs_okD(3) [OF i(1) u(1) u(2) r] have "tri (vd s) g \<inter> tri (vd s) h = {}" .
    moreover from this have "g \<noteq> h" by (auto simp: tri_def)
    ultimately show "(\<forall>x \<in> tri (vd s) g. vqdesc (vd s') x = vqdesc (vd s) x \<and> vfree (vd s') x = vfree (vd s) x) \<and> vops (vd s') g = vops (vd s) g \<and>
      info_b (vd s') g = info_b (vd s) g \<and> bno (vd s') c = bno (vd s) c"
      using d(2) by (auto simp: s'_def d(1))
  qed (auto simp: p s'_def split: if_splits)
  moreover have "sleepers s' = sleepers s" by (simp add: sleepers_def p)
  then have "queues_ok s' new old" using i(2) unfolding queues_ok_def by (simp add: s'_def d(1))
  moreover have "hist_ok s' old" by (rule hist_step [OF i(3)]) (simp_all add: p, simp_all add: s'_def d(1) block_sector_def)
  ultimately show ?thesis by simp
qed

lemma vinv_step: "vstep s s' \<Longrightarrow> vinv s \<Longrightarrow> vinv s'"
  unfolding vinv_def
  by (induction rule: vstep.induct) (use inv_call inv_request inv_full inv_fetch inv_transfer inv_interrupt inv_leave in meson)+

lemma vinv_reachable: "vstep\<^sup>*\<^sup>* (vinit m) s \<Longrightarrow> vinv s"
  by (induction rule: rtranclp_induct) (auto intro: vinv_init vinv_step)

end
