(* ===== verification/Virtio_Safety.thy ===== *)
theory Virtio_Safety
  imports Virtio_Protocol
begin

text \<open>
  What the invariant of the disk driver gives: no panic, no wild access, exactly one transfer per call; and what
  happens when a sleeping thread is woken by \<open>kill\<close>.
\<close>

section \<open>Properties\<close>



text \<open>A thread that sleeps for its request can be woken by \<open>kill\<close>, which makes every sleeping process runnable; the driver
  does not look at \<open>b->disk\<close> after \<open>sleep\<close>.\<close>

inductive kstep :: "vsys \<Rightarrow> vsys \<Rightarrow> bool" where
  driver: "vstep s s' \<Longrightarrow> kstep s s'"
| killed: "vpcs s t = VSleep b w i n \<Longrightarrow> kstep s (s\<lparr>vpcs := (vpcs s)(t := VWoken b w i n)\<rparr>)"

text \<open>The state in which the first request, with buffer 0, has been made.\<close>

definition vfirst :: "(u64 \<Rightarrow> block) \<Rightarrow> vsys" where
  "vfirst m = (let s = vinit m; d = (vd s)\<lparr>bno := (bno (vd s))(0 := 0), bdat := (bdat (vd s))(0 := [])\<rparr>
     in s\<lparr>vpcs := (vpcs s)(0 := VSleep 0 True 0 0),
          vd := submit 0 True (0, 1, 2) (d\<lparr>vfree := (vfree d)(0 := False, 1 := False, 2 := False)\<rparr>)\<rparr>)"

lemma vfirst_reachable: "vstep\<^sup>*\<^sup>* (vinit m) (vfirst m)"
proof -
  let ?s = "vinit m"
  let ?s1 = "?s\<lparr>vpcs := (vpcs ?s)(0 := VEnter 0 True), vd := (vd ?s)\<lparr>bno := (bno (vd ?s))(0 := 0), bdat := (bdat (vd ?s))(0 := [])\<rparr>\<rparr>"
  have "vstep ?s ?s1" by (rule vstep.call) (simp_all add: vinit_def)
  moreover have u: "[0..<16] = 0 # 1 # 2 # [3..<16]" by (simp add: upt_rec)
  have "alloc3_desc (vd ?s1) = (Some (0, 1, 2), Ok (vd ?s1\<lparr>vfree := (vfree (vd ?s1))(0 := False, 1 := False, 2 := False)\<rparr>))"
    by (simp add: alloc3_desc_def alloc_desc_def NUM_def u vinit_def)
  from vstep.request [OF _ this, of 0 0 True] have "vstep ?s1 (vfirst m)" by (simp add: vfirst_def Let_def) (simp add: vinit_def)
  ultimately show ?thesis by simp
qed

lemma vfirst_fields:
  "used_idx (vd (vfirst m)) = 0" "us_idx (vd (vfirst m)) = 0" "us_ring (vd (vfirst m)) = (\<lambda>_. 0)" "info_b (vd (vfirst m)) 0 = Some 0"
  "bno (vd (vfirst m)) 0 = 0" "av_idx (vd (vfirst m)) = 1" "av_ring (vd (vfirst m)) 0 = 0" "busy (vfirst m) = []" "dev_idx (vfirst m) = 0"
  "vpcs (vfirst m) 0 = VSleep 0 True 0 0"
  by (simp_all add: vfirst_def vinit_def submit_def Let_def NUM_def)

lemma vfirst_chain: "chain_ok (vd (vfirst m)) 0 True 0"
  using submit_chain(1) [of 0 1 2 0 True "(vd (vinit m))\<lparr>bno := (bno (vd (vinit m)))(0 := 0), bdat := (bdat (vd (vinit m)))(0 := [])\<rparr>"]
  by (simp add: vfirst_def Let_def NUM_def)

lemma intr_null:
  assumes "used_idx d = 0" "us_idx d = 1" "us_ring d 0 = 0" "info_status d 0 = 0"
  shows "virtio_disk_intr ws (d\<lparr>info_b := (info_b d)(0 := None), vqdesc := q, vfree := f\<rparr>) = Fault"
  by (subst virtio_disk_intr.simps) (simp add: assms NUM_def)

lemma intr_one:
  assumes "used_idx d = 0" "us_idx d = 1" "us_ring d 0 = 0" "info_status d 0 = 0" "info_b d 0 = Some b"
  shows "\<exists>d'. virtio_disk_intr [] d = Ok ([b], d') \<and> bno d' = bno d"
  by (subst virtio_disk_intr.simps) (simp add: assms NUM_def, subst virtio_disk_intr.simps, simp add: assms)

text \<open>C37. A \<open>kill\<close> of a process that waits for the disk can crash the kernel: there is an execution in which the woken thread
  gives up its request, and the interrupt of the completed transfer then finds a null pointer instead of the buffer.\<close>

theorem virtio_kill_fault: "\<exists>s. kstep\<^sup>*\<^sup>* (vinit m) s \<and> virtio_disk_intr [] (vd s) = Fault"
proof -
  let ?s = "vfirst m"
  let ?s1 = "?s\<lparr>vpcs := (vpcs ?s)(0 := VWoken 0 True 0 0)\<rparr>"
  let ?s2 = "?s1\<lparr>busy := busy ?s1 @ [av_ring (vd ?s1) (unat (dev_idx ?s1) mod NUM)], dev_idx := dev_idx ?s1 + 1\<rparr>"
  note c = vfirst_chain [of m]
  have "kstep ?s ?s1" by (rule kstep.killed) (rule vfirst_fields)
  moreover have "vstep ?s1 ?s2" by (rule vstep.fetch) (simp add: vfirst_fields)
  moreover have b: "busy ?s2 = [0]" by (simp add: vfirst_fields)
  obtain e d k where x: "dev_exec 0 (vd ?s2) (media ?s2) = Some (e, d, k)" "d = vd ?s2\<lparr>bdat := bdat (vd ?s2), info_status := (info_status (vd ?s2))(0 := 0)\<rparr>"
    using dev_exec_chain [OF c, of "media ?s2"] by simp
  let ?s3 = "?s2\<lparr>vd := d\<lparr>us_ring := (us_ring d)(unat (us_idx d) mod NUM := 0), us_idx := us_idx d + 1\<rparr>,
      media := k, busy := remove1 0 (busy ?s2), hist := hist ?s2 @ [e]\<rparr>"
  have "vstep ?s2 ?s3" using b by (intro vstep.transfer [OF _ x(1)]) simp
  moreover have c3: "chain_ok (vd ?s3) 0 True 0" by (rule chain_cong [OF c]) (simp_all add: x(2))
  obtain q where f: "finish 0 (vd ?s3) = Ok (vd ?s3\<lparr>info_b := (info_b (vd ?s3))(0 := None), vqdesc := q,
      vfree := (\<lambda>x. x \<in> tri (vd ?s3) 0 \<or> vfree (vd ?s3) x)\<rparr>)" and "\<forall>x. x \<notin> tri (vd ?s3) 0 \<longrightarrow> q x = vqdesc (vd ?s3) x"
    using finish_chain [OF c3] .
  let ?d = "vd ?s3\<lparr>info_b := (info_b (vd ?s3))(0 := None), vqdesc := q, vfree := (\<lambda>x. x \<in> tri (vd ?s3) 0 \<or> vfree (vd ?s3) x)\<rparr>"
  let ?s4 = "?s3\<lparr>vd := ?d, vpcs := (wake_free \<circ> vpcs ?s3)(0 := VIdle)\<rparr>"
  have "vstep ?s3 ?s4" by (rule vstep.leave [OF _ f]) simp
  moreover have "kstep\<^sup>*\<^sup>* (vinit m) ?s" using vfirst_reachable by (rule mono_rtranclp [rule_format, rotated]) (rule kstep.driver)
  ultimately have "kstep\<^sup>*\<^sup>* (vinit m) ?s4" by (meson kstep.driver rtranclp.rtrancl_into_rtrancl)
  moreover have "used_idx (vd ?s3) = 0" "us_idx (vd ?s3) = 1" "us_ring (vd ?s3) 0 = 0" "info_status (vd ?s3) 0 = 0"
    by (simp_all add: x(2) vfirst_fields)
  then have "virtio_disk_intr [] ?d = Fault" by (rule intr_null)
  then have "virtio_disk_intr [] (vd ?s4) = Fault" by simp
  ultimately show ?thesis by blast
qed

lemma free_chain_ends:
  "(\<exists>d'. free_chain i d = Ok d' \<and> (\<forall>x. vfree d x \<longrightarrow> vfree d' x) \<and> vfree d' i \<and> \<not> vfree d i) \<or> (\<exists>msg. free_chain i d = Panic msg)"
proof (induction i d rule: free_chain.induct)
  case (1 i d)
  show ?case
  proof (cases "i < NUM \<and> \<not> vfree d i")
    case True
    let ?d = "d\<lparr>vqdesc := (vqdesc d)(i := no_desc), vfree := (vfree d)(i := True)\<rparr>"
    have f: "free_desc i d = Ok ?d" using True by (simp add: free_desc_def)
    have e: "free_chain i d = (if dflags (vqdesc d i) AND VRING_DESC_F_NEXT \<noteq> 0 then free_chain (unat (dnext (vqdesc d i))) ?d else Ok ?d)"
      by (subst free_chain.simps) (simp add: f Let_def)
    show ?thesis
    proof (cases "dflags (vqdesc d i) AND VRING_DESC_F_NEXT \<noteq> 0")
      case nxt: True
      from 1 [OF refl refl f nxt] consider d' where "free_chain (unat (dnext (vqdesc d i))) ?d = Ok d'" "\<forall>x. vfree ?d x \<longrightarrow> vfree d' x"
        | msg where "free_chain (unat (dnext (vqdesc d i))) ?d = Panic msg" by blast
      then show ?thesis using e nxt True by cases auto
    next
      case False
      then show ?thesis using e True by simp
    qed
  next
    case False
    then have "\<exists>msg. free_desc i d = Panic msg" by (auto simp: free_desc_def)
    then have "\<exists>msg. free_chain i d = Panic msg" by (subst free_chain.simps) (auto simp: Let_def)
    then show ?thesis by blast
  qed
qed




end
