(* ===== verification/Virtio_Init.thy ===== *)
theory Virtio_Init
  imports Virtio
begin

text \<open>
  The initialisation of a disk, \<open>virtio_disk_init\<close> (kernel/virtio_disk.c). The device is a parameter: what a read of a
  control register returns after the register writes made so far. The model collects the writes.
\<close>

type_synonym reg_writes = "(nat \<times> 32 word) list"

type_synonym device = "reg_writes \<Rightarrow> nat \<Rightarrow> 32 word"

abbreviation (input) VIRTIO_MMIO_STATUS :: nat where "VIRTIO_MMIO_STATUS \<equiv> 0x070"

abbreviation (input) VIRTIO_MMIO_DRIVER_FEATURES :: nat where "VIRTIO_MMIO_DRIVER_FEATURES \<equiv> 0x020"

abbreviation (input) VIRTIO_MMIO_QUEUE_READY :: nat where "VIRTIO_MMIO_QUEUE_READY \<equiv> 0x044"

text \<open>The feature bits that the driver does not accept.\<close>

definition refused :: "nat list" where
  "refused = [5, 7, 11, 12, 27, 29, 28]"

definition mask_features :: "32 word \<Rightarrow> 32 word" where
  "mask_features f = fold (\<lambda>b f. f AND NOT (push_bit b 1)) refused f"

definition lo32 :: "nat \<Rightarrow> 32 word" where
  "lo32 a = of_nat a"

definition hi32 :: "nat \<Rightarrow> 32 word" where
  "hi32 a = of_nat (drop_bit 32 a)"

text \<open>The pages given to the device: descriptors, available ring, used ring; and the page of the transfer buffer.\<close>

record queue_pages =
  desc_page :: nat
  avail_page :: nat
  used_page :: nat
  buf_page :: nat

definition queue_writes :: "queue_pages \<Rightarrow> reg_writes" where
  "queue_writes q =
     [(0x038, of_nat NUM), (0x080, lo32 (desc_page q)), (0x084, hi32 (desc_page q)), (0x090, lo32 (avail_page q)), (0x094, hi32 (avail_page q)),
      (0x0a0, lo32 (used_page q)), (0x0a4, hi32 (used_page q)), (VIRTIO_MMIO_QUEUE_READY, 1)]"

definition virtio_disk_init ::
  "device \<Rightarrow> nat \<Rightarrow> string \<Rightarrow> vdisk \<Rightarrow> kmem \<Rightarrow> cpu \<Rightarrow> (reg_writes \<times> queue_pages \<times> vdisk \<times> kmem \<times> cpu) result" where
  "virtio_disk_init dev n name d k c =
     (if dev [] 0x000 \<noteq> 0x74726976 \<or> dev [] 0x004 \<noteq> 2 \<or> dev [] 0x008 \<noteq> 2 \<or> dev [] 0x00c \<noteq> 0x554d4551
      then Panic (''could not find virtio disk: '' @ name)
      else let w = [(VIRTIO_MMIO_STATUS, 0)];
               status = 1; w = w @ [(VIRTIO_MMIO_STATUS, status)];
               status = status OR 2; w = w @ [(VIRTIO_MMIO_STATUS, status)];
               w = w @ [(VIRTIO_MMIO_DRIVER_FEATURES, mask_features (dev w 0x010))];
               status = status OR 8; w = w @ [(VIRTIO_MMIO_STATUS, status)];
               status = dev w VIRTIO_MMIO_STATUS
           in if status AND 8 = 0 then Panic (name @ '': virtio disk FEATURES_OK unset'')
              else let w = w @ [(0x030, 0)]
                   in if dev w VIRTIO_MMIO_QUEUE_READY \<noteq> 0 then Panic (name @ '': virtio disk should not be ready'')
                      else let mx = dev w 0x034
                           in if mx = 0 then Panic (name @ '': virtio disk has no queue 0'')
                              else if mx < of_nat NUM then Panic (name @ '': virtio disk max queue too short'')
                              else bindR (kalloc k c) (\<lambda>(p, k, c).
                                   bindR (kalloc k c) (\<lambda>(p', k, c).
                                   bindR (kalloc k c) (\<lambda>(p'', k, c).
                                     if p = 0 \<or> p' = 0 \<or> p'' = 0 then Panic (name @ '': virtio disk kalloc'')
                                     else let q = \<lparr>desc_page = p, avail_page = p', used_page = p'', buf_page = 0\<rparr>;
                                              d = d\<lparr>vqdesc := (\<lambda>_. no_desc), av_ring := (\<lambda>_. 0), av_idx := 0, us_ring := (\<lambda>_. 0), us_idx := 0\<rparr>;
                                              w = w @ queue_writes q;
                                              d = d\<lparr>vfree := (\<lambda>i. if i < NUM then True else vfree d i)\<rparr>;
                                              w = w @ [(VIRTIO_MMIO_STATUS, status OR 4)]
                                          in if n \<ge> 1
                                             then bindR (kalloc k c) (\<lambda>(p, k, c).
                                                  if p = 0 then Panic ''virtio_disk_init: kalloc of transfer_buffer failed''
                                                  else Ok (w, q\<lparr>buf_page := p\<rparr>, d, k, c))
                                             else Ok (w, q, d, k, c)))))"

lemma clear_bits:
  fixes f :: "32 word"
  shows "bit (fold (\<lambda>b f. f AND NOT (push_bit b 1)) bs f) n \<longleftrightarrow> bit f n \<and> n \<notin> set bs"
proof (induction bs arbitrary: f)
  case (Cons b bs)
  have "bit (f AND NOT (push_bit b 1)) n \<longleftrightarrow> bit f n \<and> n \<noteq> b"
    using bit_imp_le_length [of f n] by (auto simp: bit_and_iff bit_not_iff bit_exp_iff)
  then show ?case using Cons.IH by auto
qed simp

lemma mask_features_bit: "bit (mask_features f) n \<longleftrightarrow> bit f n \<and> n \<notin> set refused"
  unfolding mask_features_def by (rule clear_bits)

text \<open>The device is driven through its states in the order of the virtio specification: reset, ACKNOWLEDGE, DRIVER, the
  features, FEATURES_OK, the queue, DRIVER_OK; no refused feature is accepted, and the queue starts empty.\<close>

lemma virtio_disk_init_Ok:
  assumes "virtio_disk_init dev n name d k c = Ok (w, q, d', k', c')"
  shows "\<exists>f st. w = [(0x070, 0), (0x070, 1), (0x070, 3), (0x020, mask_features f), (0x070, 11), (0x030, 0)] @ queue_writes q @ [(0x070, st OR 4)] \<and>
    st AND 8 \<noteq> 0 \<and> (\<forall>b \<in> set refused. \<not> bit (mask_features f) b)"
    "av_idx d' = 0" "us_idx d' = 0" "\<forall>i < NUM. vfree d' i" "desc_page q \<noteq> 0" "avail_page q \<noteq> 0" "used_page q \<noteq> 0"
  using assms
  by (auto simp: virtio_disk_init_def Let_def queue_writes_def mask_features_bit bindR_Ok_iff split: if_splits)

end
