(* ===== verification/Pipe.thy ===== *)
theory Pipe
  imports Ring
begin

text \<open>
  Pipes (kernel/pipe.c). \<open>pipewrite\<close> and \<open>piperead\<close> run under the pipe's lock until they return or sleep, so each of these
  stretches is one function here. Copying from and to the memory of the caller is a parameter: the byte at an
  offset, or none when \<open>copyin\<close> fails; whether \<open>copyout\<close> to an offset succeeds.
\<close>

definition PIPESIZE :: nat where "PIPESIZE = 512"

record pipe =
  pdata :: "nat \<Rightarrow> 8 word"
  nread :: "32 word"
  nwrite :: "32 word"
  readopen :: bool
  writeopen :: bool

interpretation pring: ring_size PIPESIZE "TYPE(32)"
  by unfold_locales (simp_all add: PIPESIZE_def)

text \<open>The part of \<open>pipealloc\<close> that fills in the new pipe.\<close>

definition new_pipe :: "(nat \<Rightarrow> 8 word) \<Rightarrow> pipe" where
  "new_pipe page = \<lparr>pdata = page, nread = 0, nwrite = 0, readopen = True, writeopen = True\<rparr>"

text \<open>Whom \<open>pipeclose\<close> wakes, and whether the page of the pipe is freed.\<close>

datatype waiters = Readers | Writers

definition pipeclose :: "bool \<Rightarrow> pipe \<Rightarrow> waiters \<times> bool \<times> pipe" where
  "pipeclose writable p =
     (let (w, p) = (if writable then (Readers, p\<lparr>writeopen := False\<rparr>) else (Writers, p\<lparr>readopen := False\<rparr>))
      in (w, \<not> readopen p \<and> \<not> writeopen p, p))"

text \<open>How a stretch of a call ends: with the result of the call, or asleep.\<close>

datatype outcome = Returns int | Sleeps

text \<open>The loop of \<open>pipewrite\<close> from the local variable \<open>i\<close> on; \<open>kl i\<close> is what \<open>killed(pr)\<close> says in that turn. The last
  component is \<open>i\<close> at the end.\<close>

function pipewrite :: "(int \<Rightarrow> bool) \<Rightarrow> (int \<Rightarrow> 8 word option) \<Rightarrow> int \<Rightarrow> int \<Rightarrow> pipe \<Rightarrow> outcome \<times> int \<times> pipe" where
  "pipewrite kl get n i p =
     (if i < n
      then if \<not> readopen p \<or> kl i then (Returns (- 1), i, p)
           else if nwrite p = nread p + of_nat PIPESIZE then (Sleeps, i, p)
           else case get i of
                  None \<Rightarrow> (Returns i, i, p)
                | Some ch \<Rightarrow> pipewrite kl get n (i + 1)
                    (p\<lparr>pdata := (pdata p)(unat (nwrite p) mod PIPESIZE := ch), nwrite := nwrite p + 1\<rparr>)
      else (Returns i, i, p))"
  by pat_completeness auto
termination
  by (relation "measure (\<lambda>(_, _, n, i, _). nat (n - i))") auto

declare pipewrite.simps [simp del]

text \<open>The copying loop of \<open>piperead\<close>; \<open>put i\<close> says whether \<open>copyout\<close> of the byte at offset \<open>i\<close> succeeds. The bytes that
  arrived are collected. A byte is taken out of the pipe before it is copied.\<close>

function piperead_copy :: "(int \<Rightarrow> bool) \<Rightarrow> int \<Rightarrow> int \<Rightarrow> 8 word list \<Rightarrow> pipe \<Rightarrow> int \<times> 8 word list \<times> pipe" where
  "piperead_copy put n i got p =
     (if i < n
      then if nread p = nwrite p then (i, got, p)
           else let ch = pdata p (unat (nread p) mod PIPESIZE); p = p\<lparr>nread := nread p + 1\<rparr>
                in if put i then piperead_copy put n (i + 1) (got @ [ch]) p else (i, got, p)
      else (i, got, p))"
  by pat_completeness auto
termination
  by (relation "measure (\<lambda>(_, n, i, _, _). nat (n - i))") auto

declare piperead_copy.simps [simp del]

definition piperead :: "bool \<Rightarrow> (int \<Rightarrow> bool) \<Rightarrow> int \<Rightarrow> pipe \<Rightarrow> outcome \<times> 8 word list \<times> pipe" where
  "piperead kl put n p =
     (if nread p = nwrite p \<and> writeopen p
      then (if kl then Returns (- 1) else Sleeps, [], p)
      else let (i, got, p) = piperead_copy put n 0 [] p in (Returns i, got, p))"

section \<open>The bytes in a pipe\<close>

abbreviation holds :: "pipe \<Rightarrow> 8 word list \<Rightarrow> bool" where
  "holds p xs \<equiv> ring_is PIPESIZE (pdata p) (nread p) (nwrite p) xs"

lemma pipe_empty: "holds p xs \<Longrightarrow> nread p = nwrite p \<longleftrightarrow> xs = []"
  by (rule pring.ring_nonempty)

lemma pipe_full: "holds p xs \<Longrightarrow> nwrite p = nread p + of_nat PIPESIZE \<longleftrightarrow> length xs = PIPESIZE"
  by (rule pring.ring_full)

text \<open>A stretch of \<open>pipewrite\<close> appends consecutive bytes of the caller, as many as it counts. It sleeps only when the pipe
  is full, and returns before the end only when the read end is closed, the caller is killed or an address is bad.\<close>

lemma pipewrite_spec:
  assumes "holds p xs" "i \<le> n"
  shows "\<exists>r j q. pipewrite kl get n i p = (r, j, q) \<and> i \<le> j \<and> j \<le> n \<and> (\<forall>m. i \<le> m \<and> m < j \<longrightarrow> get m \<noteq> None) \<and>
    holds q (xs @ map (the \<circ> get) [i..j - 1]) \<and> nread q = nread p \<and> readopen q = readopen p \<and> writeopen q = writeopen p \<and>
    (r = Sleeps \<longrightarrow> j < n \<and> readopen q \<and> length (xs @ map (the \<circ> get) [i..j - 1]) = PIPESIZE) \<and>
    (r \<noteq> Sleeps \<longrightarrow> r = Returns j \<and> (j < n \<longrightarrow> get j = None) \<or> r = Returns (- 1) \<and> j < n \<and> (\<not> readopen p \<or> kl j))"
  using assms
proof (induction "nat (n - i)" arbitrary: i p xs rule: less_induct)
  case less
  have e: "[i..i - 1] = []" by simp
  show ?case
  proof (cases "i < n \<and> readopen p \<and> \<not> kl i \<and> nwrite p \<noteq> nread p + of_nat PIPESIZE \<and> get i \<noteq> None")
    case False
    then show ?thesis using less.prems pipe_full [OF less.prems(1)] e
      by (subst pipewrite.simps) (auto split: option.split)
  next
    case True
    then obtain ch where ch: "get i = Some ch" by auto
    let ?p = "p\<lparr>pdata := (pdata p)(unat (nwrite p) mod PIPESIZE := ch), nwrite := nwrite p + 1\<rparr>"
    have "length xs < PIPESIZE" using True pipe_full [OF less.prems(1)] less.prems(1) by (simp add: ring_is_def le_neq_implies_less)
    then have h: "holds ?p (xs @ [ch])" using pring.ring_push [OF less.prems(1)] by simp
    have step: "pipewrite kl get n i p = pipewrite kl get n (i + 1) ?p" using True ch by (subst pipewrite.simps) simp
    from less.hyps [OF _ h, of "i + 1"] True obtain r j q where
      q: "pipewrite kl get n (i + 1) ?p = (r, j, q)" "i + 1 \<le> j" "j \<le> n" "\<forall>m. i + 1 \<le> m \<and> m < j \<longrightarrow> get m \<noteq> None"
        "holds q ((xs @ [ch]) @ map (the \<circ> get) [i + 1..j - 1])" "nread q = nread ?p" "readopen q = readopen ?p" "writeopen q = writeopen ?p"
        "r = Sleeps \<longrightarrow> j < n \<and> readopen q \<and> length ((xs @ [ch]) @ map (the \<circ> get) [i + 1..j - 1]) = PIPESIZE"
        "r \<noteq> Sleeps \<longrightarrow> r = Returns j \<and> (j < n \<longrightarrow> get j = None) \<or> r = Returns (- 1) \<and> j < n \<and> (\<not> readopen ?p \<or> kl j)"
      by auto
    have "[i..j - 1] = i # [i + 1..j - 1]" using q(2) by (simp add: upto_rec1)
    then have m: "xs @ map (the \<circ> get) [i..j - 1] = (xs @ [ch]) @ map (the \<circ> get) [i + 1..j - 1]" using ch by simp
    have "\<forall>m. i \<le> m \<and> m < j \<longrightarrow> get m \<noteq> None"
    proof (intro allI impI)
      fix m assume "i \<le> m \<and> m < j"
      then show "get m \<noteq> None" using q(4) ch by (cases "m = i") auto
    qed
    then show ?thesis unfolding step using q by (intro exI [of _ r] exI [of _ j] exI [of _ q], unfold m) simp
  qed
qed

text \<open>\<open>piperead\<close> takes bytes from the front, in order: those that arrived, and one more when \<open>copyout\<close> failed.\<close>

lemma piperead_copy_spec:
  assumes "holds p xs" "i \<le> n"
  shows "\<exists>j k q. piperead_copy put n i got p = (j, got @ take k xs, q) \<and> j = i + int k \<and> k \<le> length xs \<and> j \<le> n \<and>
    nwrite q = nwrite p \<and> readopen q = readopen p \<and> writeopen q = writeopen p \<and>
    (holds q (drop k xs) \<and> (j = n \<or> k = length xs) \<or> holds q (drop (Suc k) xs) \<and> k < length xs \<and> j < n \<and> \<not> put j)"
  using assms
proof (induction "nat (n - i)" arbitrary: i p xs got rule: less_induct)
  case less
  show ?case
  proof (cases "i < n \<and> xs \<noteq> []")
    case False
    then show ?thesis using less.prems pipe_empty [OF less.prems(1)]
      by (intro exI [of _ i] exI [of _ 0] exI [of _ p]) (subst piperead_copy.simps, auto)
  next
    case True
    then obtain x ys where xs: "xs = x # ys" by (cases xs) auto
    note pop = pring.ring_pop [OF less.prems(1) [unfolded xs]]
    let ?p = "p\<lparr>nread := nread p + 1\<rparr>"
    have ne: "nread p \<noteq> nwrite p" using True pipe_empty [OF less.prems(1)] by simp
    have h: "holds ?p ys" using pop(2) by simp
    show ?thesis
    proof (cases "put i")
      case False
      then show ?thesis using True ne pop h xs
        by (intro exI [of _ i] exI [of _ 0] exI [of _ ?p]) (subst piperead_copy.simps, simp add: Let_def)
    next
      case put: True
      have step: "piperead_copy put n i got p = piperead_copy put n (i + 1) (got @ [x]) ?p"
        using True ne put pop(1) by (subst piperead_copy.simps) (simp add: Let_def)
      from less.hyps [OF _ h, of "i + 1" "got @ [x]"] True obtain j k q where
        q: "piperead_copy put n (i + 1) (got @ [x]) ?p = (j, (got @ [x]) @ take k ys, q)" "j = i + 1 + int k" "k \<le> length ys" "j \<le> n"
          "nwrite q = nwrite ?p" "readopen q = readopen ?p" "writeopen q = writeopen ?p"
          "holds q (drop k ys) \<and> (j = n \<or> k = length ys) \<or> holds q (drop (Suc k) ys) \<and> k < length ys \<and> j < n \<and> \<not> put j"
        by auto
      then show ?thesis unfolding step xs by (intro exI [of _ j] exI [of _ "Suc k"] exI [of _ q]) simp
    qed
  qed
qed

end
