(* ===== verification/Pipe_Protocol.thy ===== *)
theory Pipe_Protocol
  imports Pipe
begin

text \<open>
  Any number of readers and writers of one pipe. A step of a thread is a stretch of \<open>pipewrite\<close> or \<open>piperead\<close> under
  the pipe's lock. With \<open>K\<close> processes may be killed at any time, which also wakes them.
\<close>

section \<open>Steps\<close>

datatype ppc = PIdle | PWrite "int \<Rightarrow> 8 word option" int int | PWSleep "int \<Rightarrow> 8 word option" int int | PRead "int \<Rightarrow> bool" int | PRSleep "int \<Rightarrow> bool" int

record pipesys =
  q_pipe :: pipe
  q_pcs :: "nat \<Rightarrow> ppc"
  q_sent :: "8 word list"
  q_taken :: "8 word list"

fun wake_readers :: "ppc \<Rightarrow> ppc" where
  "wake_readers (PRSleep put n) = PRead put n"
| "wake_readers c = c"

fun wake_writers :: "ppc \<Rightarrow> ppc" where
  "wake_writers (PWSleep get n i) = PWrite get n i"
| "wake_writers c = c"

fun writing :: "ppc \<Rightarrow> bool" where
  "writing (PWrite get n i) = True"
| "writing (PWSleep get n i) = True"
| "writing _ = False"

fun reading :: "ppc \<Rightarrow> bool" where
  "reading (PRead put n) = True"
| "reading (PRSleep put n) = True"
| "reading _ = False"

text \<open>The bytes a stretch of \<open>piperead\<close> has taken out of the pipe \<open>p\<close>: those that arrived, and the one after them when
  it was taken, too.\<close>

definition removed :: "pipe \<Rightarrow> pipe \<Rightarrow> 8 word list \<Rightarrow> 8 word list" where
  "removed p q got =
     (let a = nread p + of_nat (length got)
      in if nread q = a then got else got @ [pdata p (unat a mod PIPESIZE)])"

inductive qstep :: "bool \<Rightarrow> pipesys \<Rightarrow> pipesys \<Rightarrow> bool" for K where
  write_call: "q_pcs s t = PIdle \<Longrightarrow> writeopen (q_pipe s) \<Longrightarrow> qstep K s (s\<lparr>q_pcs := (q_pcs s)(t := PWrite get n 0)\<rparr>)"
| write_run: "q_pcs s t = PWrite get n i \<Longrightarrow> (\<not> K \<longrightarrow> kl = (\<lambda>_. False)) \<Longrightarrow> pipewrite kl get n i (q_pipe s) = (r, j, p) \<Longrightarrow>
    qstep K s (s\<lparr>q_pipe := p, q_sent := q_sent s @ map (the \<circ> get) [i..j - 1],
      q_pcs := (if r = Returns (- 1) then q_pcs s else wake_readers \<circ> q_pcs s)(t := if r = Sleeps then PWSleep get n j else PIdle)\<rparr>)"
| read_call: "q_pcs s t = PIdle \<Longrightarrow> readopen (q_pipe s) \<Longrightarrow> qstep K s (s\<lparr>q_pcs := (q_pcs s)(t := PRead put n)\<rparr>)"
| read_run: "q_pcs s t = PRead put n \<Longrightarrow> (\<not> K \<longrightarrow> \<not> kl) \<Longrightarrow> piperead kl put n (q_pipe s) = (r, got, p) \<Longrightarrow>
    qstep K s (s\<lparr>q_pipe := p, q_taken := q_taken s @ removed (q_pipe s) p got,
      q_pcs := (if r = Returns (- 1) \<or> r = Sleeps then q_pcs s else wake_writers \<circ> q_pcs s)(t := if r = Sleeps then PRSleep put n else PIdle)\<rparr>)"
| close_write: "\<forall>t. \<not> writing (q_pcs s t) \<Longrightarrow> pipeclose True (q_pipe s) = (Readers, x, p) \<Longrightarrow>
    qstep K s (s\<lparr>q_pipe := p, q_pcs := wake_readers \<circ> q_pcs s\<rparr>)"
| close_read: "\<forall>t. \<not> reading (q_pcs s t) \<Longrightarrow> pipeclose False (q_pipe s) = (Writers, x, p) \<Longrightarrow>
    qstep K s (s\<lparr>q_pipe := p, q_pcs := wake_writers \<circ> q_pcs s\<rparr>)"
| kill_writer: "K \<Longrightarrow> q_pcs s t = PWSleep get n i \<Longrightarrow> qstep K s (s\<lparr>q_pcs := (q_pcs s)(t := PWrite get n i)\<rparr>)"
| kill_reader: "K \<Longrightarrow> q_pcs s t = PRSleep put n \<Longrightarrow> qstep K s (s\<lparr>q_pcs := (q_pcs s)(t := PRead put n)\<rparr>)"

definition qinit :: "(nat \<Rightarrow> 8 word) \<Rightarrow> pipesys" where
  "qinit page = \<lparr>q_pipe = new_pipe page, q_pcs = (\<lambda>_. PIdle), q_sent = [], q_taken = []\<rparr>"

section \<open>First in, first out\<close>

lemma pipewrite_run:
  assumes "holds p xs" "pipewrite kl get n i p = (r, j, q)"
  shows "holds q (xs @ map (the \<circ> get) [i..j - 1])"
    "r = Sleeps \<Longrightarrow> readopen q \<and> length (xs @ map (the \<circ> get) [i..j - 1]) = PIPESIZE" "readopen q = readopen p" "writeopen q = writeopen p"
    "r = Returns (- 1) \<Longrightarrow> 0 \<le> i \<Longrightarrow> \<not> readopen p \<or> kl j" "0 \<le> i \<Longrightarrow> 0 \<le> j" "\<not> readopen p \<Longrightarrow> 0 \<le> i \<Longrightarrow> q = p"
proof -
  consider "i \<le> n" | "n < i" by linarith
  then have "holds q (xs @ map (the \<circ> get) [i..j - 1]) \<and> (r = Sleeps \<longrightarrow> readopen q \<and> length (xs @ map (the \<circ> get) [i..j - 1]) = PIPESIZE) \<and>
    readopen q = readopen p \<and> writeopen q = writeopen p \<and> (r = Returns (- 1) \<longrightarrow> 0 \<le> i \<longrightarrow> \<not> readopen p \<or> kl j) \<and> (0 \<le> i \<longrightarrow> 0 \<le> j)"
  proof cases
    case 1
    from pipewrite_spec [OF assms(1) 1, of kl get] assms(2) show ?thesis by auto
  next
    case 2
    then show ?thesis using assms by (subst (asm) pipewrite.simps) auto
  qed
  then show "holds q (xs @ map (the \<circ> get) [i..j - 1])"
    "r = Sleeps \<Longrightarrow> readopen q \<and> length (xs @ map (the \<circ> get) [i..j - 1]) = PIPESIZE" "readopen q = readopen p" "writeopen q = writeopen p"
    "r = Returns (- 1) \<Longrightarrow> 0 \<le> i \<Longrightarrow> \<not> readopen p \<or> kl j" "0 \<le> i \<Longrightarrow> 0 \<le> j" by simp_all
  show "q = p" if "\<not> readopen p" using assms(2) that by (subst (asm) pipewrite.simps) (auto split: if_splits)
qed

lemma piperead_run:
  assumes h: "holds p xs" and r: "piperead kl put n p = (r, got, q)"
  shows "\<exists>k. removed p q got = take k xs \<and> holds q (drop k xs)" "readopen q = readopen p" "writeopen q = writeopen p"
    "r = Sleeps \<Longrightarrow> xs = [] \<and> writeopen p \<and> q = p" "r = Returns (- 1) \<Longrightarrow> kl \<and> q = p"
proof -
  consider (wait) "nread p = nwrite p" "writeopen p" | (neg) "\<not> (nread p = nwrite p \<and> writeopen p)" "n < 0" | (copy) "\<not> (nread p = nwrite p \<and> writeopen p)" "0 \<le> n"
    by linarith
  then have "(\<exists>k. removed p q got = take k xs \<and> holds q (drop k xs)) \<and> readopen q = readopen p \<and> writeopen q = writeopen p \<and>
    (r = Sleeps \<longrightarrow> xs = [] \<and> writeopen p \<and> q = p) \<and> (r = Returns (- 1) \<longrightarrow> kl \<and> q = p)"
  proof cases
    case wait
    then have "xs = []" using pipe_empty [OF h] by simp
    moreover have "got = []" "q = p" "r = (if kl then Returns (- 1) else Sleeps)" using wait r by (simp_all add: piperead_def)
    ultimately show ?thesis using wait h by (simp add: removed_def)
  next
    case neg
    then have "piperead_copy put n 0 [] p = (0, [], p)" by (subst piperead_copy.simps) simp
    then have "got = []" "q = p" "r = Returns 0" using neg(1) r by (simp_all only: piperead_def if_False prod.case Let_def prod.inject)
    then show ?thesis using h by (auto simp: removed_def)
  next
    case copy
    from piperead_copy_spec [OF h copy(2), of put "[]"] obtain j k q' where
      c': "piperead_copy put n 0 [] p = (j, [] @ take k xs, q')" "j = 0 + int k" "k \<le> length xs" "j \<le> n" "nwrite q' = nwrite p"
        "readopen q' = readopen p" "writeopen q' = writeopen p"
        "holds q' (drop k xs) \<and> (j = n \<or> k = length xs) \<or> holds q' (drop (Suc k) xs) \<and> k < length xs \<and> j < n \<and> \<not> put j"
      by (elim exE conjE)
    have rg: "r = Returns j" "got = take k xs" and q: "q' = q"
      using r copy(1) c'(1) by (simp_all only: piperead_def if_False prod.case Let_def prod.inject append_Nil)
    note c = c'(2,3,5,6,7) [unfolded q]
    have e: "nwrite p = nread p + of_nat (length xs)" using h by (simp add: ring_is_def)
    have rem: "\<exists>k. removed p q got = take k xs \<and> holds q (drop k xs)"
    proof (rule disjE [OF c'(8) [unfolded q]]; elim conjE)
      assume d: "holds q (drop k xs)"
      then have "nwrite q = nread q + of_nat (length xs - k)" by (simp add: ring_is_def)
      then have "nread q = nread p + of_nat k" using c(2,3) e by (simp add: of_nat_diff algebra_simps)
      then have "removed p q got = take k xs" using c(2) by (simp add: removed_def rg(2) min_def)
      then show ?thesis using d by blast
    next
      assume d: "holds q (drop (Suc k) xs)" "k < length xs"
      from d(1) have "nwrite q = nread q + of_nat (length xs - Suc k)" by (simp add: ring_is_def)
      then have nr: "nread q = nread p + of_nat (Suc k)" using d(2) c(3) e by (simp add: of_nat_diff algebra_simps)
      have "pdata p (unat (nread p + of_nat k) mod PIPESIZE) = xs ! k" using h d(2) by (simp add: ring_is_def pring.unat_ring)
      then have "removed p q got = take (Suc k) xs" using d(2) nr by (simp add: removed_def rg(2) min_def take_Suc_conv_app_nth)
      then show ?thesis using d(1) by blast
    qed
    then show ?thesis using c(1,4,5) rg(1) by simp
  qed
  then show "\<exists>k. removed p q got = take k xs \<and> holds q (drop k xs)" "readopen q = readopen p" "writeopen q = writeopen p"
    "r = Sleeps \<Longrightarrow> xs = [] \<and> writeopen p \<and> q = p" "r = Returns (- 1) \<Longrightarrow> kl \<and> q = p" by simp_all
qed

definition fifo :: "pipesys \<Rightarrow> bool" where
  "fifo s \<longleftrightarrow> (\<exists>xs. holds (q_pipe s) xs \<and> q_sent s = q_taken s @ xs)"

lemma fifo_step: "qstep K s s' \<Longrightarrow> fifo s \<Longrightarrow> fifo s'"
proof (induction rule: qstep.induct)
  case (write_run s t get n i kl r j p)
  then obtain xs where xs: "holds (q_pipe s) xs" "q_sent s = q_taken s @ xs" unfolding fifo_def by blast
  from pipewrite_run(1) [OF xs(1) write_run.hyps(3)] show ?case unfolding fifo_def
    by (intro exI [of _ "xs @ map (the \<circ> get) [i..j - 1]"]) (simp add: xs(2))
next
  case (read_run s t put n kl r got p)
  then obtain xs where xs: "holds (q_pipe s) xs" "q_sent s = q_taken s @ xs" unfolding fifo_def by blast
  from piperead_run(1) [OF xs(1) read_run.hyps(3)] obtain k where "removed (q_pipe s) p got = take k xs" "holds p (drop k xs)" by blast
  then show ?case unfolding fifo_def by (intro exI [of _ "drop k xs"]) (simp add: xs(2))
qed (auto simp: fifo_def pipeclose_def Let_def)

text \<open>C21. A pipe is a queue of bytes, for any number of readers and writers, kills included, and across the wrap-around of its
  32-bit counters: the bytes written so far are the bytes taken out, in the same order, followed by the at most
  \<open>PIPESIZE\<close> bytes that the buffer holds. (A byte whose \<open>copyout\<close> failed counts as taken.)\<close>

theorem pipe_fifo:
  assumes "(qstep K)\<^sup>*\<^sup>* (qinit page) s"
  shows "\<exists>xs. q_sent s = q_taken s @ xs \<and> length xs \<le> 512 \<and> nwrite (q_pipe s) = nread (q_pipe s) + of_nat (length xs) \<and>
    (\<forall>k < length xs. pdata (q_pipe s) (unat (nread (q_pipe s) + of_nat k) mod 512) = xs ! k)"
proof -
  have "fifo (qinit page)" by (simp add: fifo_def qinit_def new_pipe_def)
  with assms have "fifo s" by (induction rule: rtranclp_induct) (auto intro: fifo_step)
  then obtain xs where "holds (q_pipe s) xs" "q_sent s = q_taken s @ xs" unfolding fifo_def by blast
  then show ?thesis by (intro exI [of _ xs]) (simp add: ring_is_def pring.unat_ring [unfolded PIPESIZE_def] PIPESIZE_def)
qed

text \<open>The hypothesis holds for a writer that puts two bytes into a new pipe, and the theorem gives what the pipe then holds.\<close>

definition two_bytes :: pipesys where
  "two_bytes = (qinit (\<lambda>_. 0))\<lparr>
     q_pipe := \<lparr>pdata = (\<lambda>_. 0)(0 := 5, 1 := 7), nread = 0, nwrite = 2, readopen = True, writeopen = True\<rparr>,
     q_sent := [5, 7]\<rparr>"

lemma two_bytes_run: "(qstep K)\<^sup>*\<^sup>* (qinit (\<lambda>_. 0)) two_bytes"
proof -
  let ?get = "\<lambda>i. Some (if i = 0 then 5 else 7) :: 8 word option" and ?s = "qinit (\<lambda>_. 0)"
  let ?u = "?s\<lparr>q_pcs := (q_pcs ?s)(0 := PWrite ?get 2 0)\<rparr>"
  have a: "qstep K ?s ?u" by (rule qstep.write_call) (simp_all add: qinit_def new_pipe_def)
  have w: "pipewrite (\<lambda>_. False) ?get 2 0 (q_pipe ?u) = (Returns 2, 2, q_pipe two_bytes)"
    by (simp add: pipewrite.simps qinit_def new_pipe_def two_bytes_def PIPESIZE_def)
  have "[0..1::int] = [0, 1]" by (simp add: upto_rec1)
  then have e: "?u\<lparr>q_pipe := q_pipe two_bytes, q_sent := q_sent ?u @ map (the \<circ> ?get) [0..2 - 1],
      q_pcs := (if Returns 2 = Returns (- 1) then q_pcs ?u else wake_readers \<circ> q_pcs ?u)(0 := if Returns 2 = Sleeps then PWSleep ?get 2 2 else PIdle)\<rparr> = two_bytes"
    by (simp add: qinit_def two_bytes_def fun_eq_iff)
  have "qstep K ?u two_bytes" using qstep.write_run [OF _ _ w, of 0 K] unfolding e by simp
  with a show ?thesis by (meson r_into_rtranclp rtranclp.rtrancl_into_rtrancl)
qed

theorem pipe_fifo_witness:
  "(qstep True)\<^sup>*\<^sup>* (qinit (\<lambda>_. 0)) two_bytes \<and>
   (\<exists>xs. q_sent two_bytes = q_taken two_bytes @ xs \<and> length xs \<le> 512 \<and>
      nwrite (q_pipe two_bytes) = nread (q_pipe two_bytes) + of_nat (length xs) \<and>
      (\<forall>k < length xs. pdata (q_pipe two_bytes) (unat (nread (q_pipe two_bytes) + of_nat k) mod 512) = xs ! k))"
  using two_bytes_run [of True] pipe_fifo [OF two_bytes_run [of True]] by (rule conjI)

section \<open>Wakeups\<close>

definition wake_ok :: "pipesys \<Rightarrow> bool" where
  "wake_ok s \<longleftrightarrow>
     (\<forall>t put n. q_pcs s t = PRSleep put n \<longrightarrow> nread (q_pipe s) = nwrite (q_pipe s) \<and> writeopen (q_pipe s)) \<and>
     (\<forall>t get n i. q_pcs s t = PWSleep get n i \<longrightarrow> nwrite (q_pipe s) = nread (q_pipe s) + of_nat PIPESIZE \<and> readopen (q_pipe s)) \<and>
     (\<forall>t get n i. q_pcs s t = PWSleep get n i \<or> q_pcs s t = PWrite get n i \<longrightarrow> 0 \<le> i)"

lemma wake_cases:
  "wake_readers c = PWSleep get n i \<longleftrightarrow> c = PWSleep get n i" "wake_readers c = PWrite get n i \<longleftrightarrow> c = PWrite get n i"
  "wake_readers c \<noteq> PRSleep put n" "wake_writers c = PRSleep put n \<longleftrightarrow> c = PRSleep put n"
  "wake_writers c \<noteq> PWSleep get n i"
  "wake_writers c = PWrite get n i \<longleftrightarrow> c = PWrite get n i \<or> c = PWSleep get n i"
  by (cases c; auto)+

lemma wake_ok_write:
  assumes h: "holds (q_pipe s) xs" and ok: "wake_ok s" and pc: "q_pcs s t = PWrite get n i"
    and run: "pipewrite (\<lambda>_. False) get n i (q_pipe s) = (r, j, p)"
  shows "wake_ok (s\<lparr>q_pipe := p, q_sent := x,
    q_pcs := (if r = Returns (- 1) then q_pcs s else wake_readers \<circ> q_pcs s)(t := if r = Sleeps then PWSleep get n j else PIdle)\<rparr>)"
proof -
  have i: "0 \<le> i" using ok pc unfolding wake_ok_def by blast
  note w = pipewrite_run [OF h run]
  show ?thesis
  proof (cases "r = Returns (- 1)")
    case True
    then have "p = q_pipe s" using w(5,7) i by blast
    then show ?thesis using ok True unfolding wake_ok_def by auto
  next
    case False
    have full: "nwrite p = nread p + of_nat PIPESIZE \<and> readopen p" if "r = Sleeps"
      using w(2) [OF that] pipe_full [OF w(1)] by blast
    have keep: "p = q_pipe s" if "q_pcs s t' = PWSleep get' n' i'" for t' get' n' i'
    proof -
      from ok that have "nwrite (q_pipe s) = nread (q_pipe s) + of_nat PIPESIZE" unfolding wake_ok_def by blast
      then show ?thesis using run by (subst (asm) pipewrite.simps) (auto split: if_splits)
    qed
    have "nwrite p = nread p + of_nat PIPESIZE \<and> readopen p" if "q_pcs s t' = PWSleep get' n' i'" for t' get' n' i'
      using keep [OF that] ok that unfolding wake_ok_def by blast
    then show ?thesis using False full w(6) [OF i] ok by (auto simp: wake_ok_def wake_cases split: if_splits)
  qed
qed

lemma wake_ok_read:
  assumes h: "holds (q_pipe s) xs" and ok: "wake_ok s" and run: "piperead False put n (q_pipe s) = (r, got, p)"
  shows "wake_ok (s\<lparr>q_pipe := p, q_taken := x,
    q_pcs := (if r = Returns (- 1) \<or> r = Sleeps then q_pcs s else wake_writers \<circ> q_pcs s)(t := if r = Sleeps then PRSleep put n else PIdle)\<rparr>)"
proof -
  note w = piperead_run [OF h run]
  have r: "r \<noteq> Returns (- 1)" using w(5) by blast
  show ?thesis
  proof (cases "r = Sleeps")
    case True
    then have "p = q_pipe s" "writeopen p" "nread p = nwrite p" using w(4) pipe_empty [OF h] by auto
    then show ?thesis using ok True unfolding wake_ok_def by auto
  next
    case False
    have "nread p = nwrite p \<and> writeopen p" if "q_pcs s t' = PRSleep put' n'" for t' put' n'
    proof -
      from ok that have e: "nread (q_pipe s) = nwrite (q_pipe s)" "writeopen (q_pipe s)" unfolding wake_ok_def by blast+
      then show ?thesis using run False by (simp add: piperead_def)
    qed
    then show ?thesis using False r ok by (auto simp: wake_ok_def wake_cases split: if_splits)
  qed
qed

lemma wake_ok_step: "qstep K s s' \<Longrightarrow> \<not> K \<Longrightarrow> fifo s \<Longrightarrow> wake_ok s \<Longrightarrow> wake_ok s'"
proof (induction rule: qstep.induct)
  case (write_run s t get n i kl r j p)
  then obtain xs where "holds (q_pipe s) xs" unfolding fifo_def by blast
  from wake_ok_write [OF this write_run.prems(3) write_run.hyps(1)] write_run.hyps(2,3) write_run.prems(1) show ?case by simp
next
  case (read_run s t put n kl r got p)
  then obtain xs where "holds (q_pipe s) xs" unfolding fifo_def by blast
  from wake_ok_read [OF this read_run.prems(3)] read_run.hyps(2,3) read_run.prems(1) show ?case by simp
next
  case (close_write s x p)
  then have "nread p = nread (q_pipe s)" "nwrite p = nwrite (q_pipe s)" "readopen p = readopen (q_pipe s)" by (auto simp: pipeclose_def)
  then show ?case using close_write.prems(3) by (simp add: wake_ok_def wake_cases)
next
  case (close_read s x p)
  then have "nread p = nread (q_pipe s)" "nwrite p = nwrite (q_pipe s)" "writeopen p = writeopen (q_pipe s)" by (auto simp: pipeclose_def)
  then show ?case using close_read.prems(3) by (auto simp: wake_ok_def wake_cases)
qed (auto simp: wake_ok_def)

text \<open>C22. No wakeup is lost on a pipe while no process is killed: a reader is asleep only when the pipe is empty and
  its write end is open, and a writer only when the pipe is full and its read end is open.\<close>

theorem pipe_no_lost_wakeup:
  assumes "(qstep False)\<^sup>*\<^sup>* (qinit page) s"
  shows "(q_pcs s t = PRSleep put n \<longrightarrow> nread (q_pipe s) = nwrite (q_pipe s) \<and> writeopen (q_pipe s)) \<and>
    (q_pcs s t = PWSleep get n i \<longrightarrow> nwrite (q_pipe s) = nread (q_pipe s) + 512 \<and> readopen (q_pipe s))"
proof -
  from assms have "fifo s \<and> wake_ok s"
  proof (induction rule: rtranclp_induct)
    case base
    show ?case by (simp add: fifo_def wake_ok_def qinit_def new_pipe_def)
  next
    case (step y z)
    then show ?case using fifo_step [OF step(2)] wake_ok_step [OF step(2)] by blast
  qed
  then show ?thesis unfolding wake_ok_def PIPESIZE_def by auto
qed

text \<open>A reader of a new pipe sleeps, and rightly so: nobody has written.\<close>

definition asleep :: pipesys where
  "asleep = (qinit (\<lambda>_. 0))\<lparr>q_pcs := (\<lambda>_. PIdle)(0 := PRSleep (\<lambda>_. True) 1)\<rparr>"

lemma asleep_run: "(qstep K)\<^sup>*\<^sup>* (qinit (\<lambda>_. 0)) asleep"
proof -
  let ?put = "\<lambda>_ :: int. True" and ?s = "qinit (\<lambda>_. 0)"
  let ?u = "?s\<lparr>q_pcs := (q_pcs ?s)(0 := PRead ?put 1)\<rparr>"
  have a: "qstep K ?s ?u" by (rule qstep.read_call) (simp_all add: qinit_def new_pipe_def)
  have r: "piperead False ?put 1 (q_pipe ?u) = (Sleeps, [], q_pipe ?u)"
    by (simp add: piperead_def qinit_def new_pipe_def)
  have "qstep K ?u asleep" using qstep.read_run [OF _ _ r, of 0 K] by (simp add: asleep_def qinit_def removed_def new_pipe_def)
  with a show ?thesis by (meson r_into_rtranclp rtranclp.rtrancl_into_rtrancl)
qed

theorem pipe_no_lost_wakeup_witness:
  "(qstep False)\<^sup>*\<^sup>* (qinit (\<lambda>_. 0)) asleep \<and> q_pcs asleep 0 = PRSleep (\<lambda>_. True) 1 \<and>
   nread (q_pipe asleep) = nwrite (q_pipe asleep) \<and> writeopen (q_pipe asleep)"
  using asleep_run [of False] pipe_no_lost_wakeup [OF asleep_run [of False], of 0 "\<lambda>_. True" 1]
  by (simp add: asleep_def)

text \<open>C38. A kill can lose a wakeup. A writer that has put bytes into the pipe and is then found killed returns -1
  without \<open>wakeup(&pi->nread)\<close>, so a reader can stay asleep with bytes in the pipe while nobody else is at work on it.\<close>

theorem pipe_kill_lost_wakeup:
  "\<exists>s. (qstep True)\<^sup>*\<^sup>* (qinit (\<lambda>_. 0)) s \<and> q_pcs s = (\<lambda>_. PIdle)(0 := PRSleep (\<lambda>_. True) 1) \<and>
     nread (q_pipe s) = 0 \<and> nwrite (q_pipe s) = 1 \<and> pdata (q_pipe s) 0 = 7"
proof -
  let ?get = "\<lambda>_ :: int. Some 7 :: 8 word option" and ?kl = "\<lambda>i :: int. i = 1"
  let ?u = "asleep\<lparr>q_pcs := (q_pcs asleep)(1 := PWrite ?get 2 0)\<rparr>"
  let ?p = "\<lparr>pdata = (\<lambda>_. 0)(0 := 7), nread = 0, nwrite = 1, readopen = True, writeopen = True\<rparr>"
  let ?v = "?u\<lparr>q_pipe := ?p, q_sent := q_sent ?u @ map (the \<circ> ?get) [0..1 - 1], q_pcs := (q_pcs ?u)(1 := PIdle)\<rparr>"
  have a: "qstep True asleep ?u" by (rule qstep.write_call) (simp_all add: asleep_def qinit_def new_pipe_def)
  have w: "pipewrite ?kl ?get 2 0 (q_pipe ?u) = (Returns (- 1), 1, ?p)"
    by (simp add: pipewrite.simps asleep_def qinit_def new_pipe_def PIPESIZE_def)
  have b: "qstep True ?u ?v" using qstep.write_run [OF _ _ w, of 1 True] by simp
  have r: "(qstep True)\<^sup>*\<^sup>* (qinit (\<lambda>_. 0)) ?v"
    using rtranclp.rtrancl_into_rtrancl [OF asleep_run [of True] a] b by (rule rtranclp.rtrancl_into_rtrancl)
  have f: "q_pcs ?v = (\<lambda>_. PIdle)(0 := PRSleep (\<lambda>_. True) 1)" by (simp add: asleep_def fun_eq_iff)
  show ?thesis by (intro exI [of _ ?v] conjI r f) simp_all
qed

text \<open>A byte is lost when \<open>copyout\<close> fails: \<open>piperead\<close> advances \<open>nread\<close> before it copies, so a call that returns 0 bytes
  has removed one from the pipe, and the next reader gets the byte after it.\<close>

theorem pipe_copyout_loses_byte:
  "piperead False (\<lambda>_. False) 1 (q_pipe two_bytes) = (Returns 0, [], (q_pipe two_bytes)\<lparr>nread := 1\<rparr>) \<and>
   piperead False (\<lambda>_. True) 1 ((q_pipe two_bytes)\<lparr>nread := 1\<rparr>) = (Returns 1, [7], (q_pipe two_bytes)\<lparr>nread := 2\<rparr>)"
proof -
  have a: "piperead_copy (\<lambda>_. False) 1 0 [] (q_pipe two_bytes) = (0, [], (q_pipe two_bytes)\<lparr>nread := 1\<rparr>)"
    by (subst piperead_copy.simps) (simp add: two_bytes_def qinit_def)
  have e: "piperead_copy put 1 1 got p = (1, got, p)" for put got p by (subst piperead_copy.simps) simp
  have b: "piperead_copy (\<lambda>_. True) 1 0 [] ((q_pipe two_bytes)\<lparr>nread := 1\<rparr>) = (1, [7], (q_pipe two_bytes)\<lparr>nread := 2\<rparr>)"
    by (subst piperead_copy.simps) (simp add: two_bytes_def qinit_def PIPESIZE_def e)
  have "nread (q_pipe two_bytes) = 0" "nwrite (q_pipe two_bytes) = 2" by (simp_all add: two_bytes_def)
  then show ?thesis using a b by (simp add: piperead_def)
qed

end
