(* ===== verification/Bio.thy ===== *)
theory Bio
  imports Locks
begin

text \<open>
  The buffer cache (kernel/bio.c) over the file system disk: \<open>binit\<close>, \<open>bget\<close>, \<open>bread\<close>, \<open>bwrite\<close>,
  \<open>brelse\<close>, \<open>bpin\<close>, \<open>bunpin\<close>. Buffers are numbered; \<open>NBUF\<close> stands for the list head. The least recently
  used order is kept in the \<open>prev\<close> and \<open>next\<close> fields, as in the code.
\<close>

type_synonym u32 = "32 word"

definition NBUF :: nat where "NBUF = 30"

section \<open>State\<close>

record buf =
  bvalid :: bool
  bdev :: u32
  blockno :: u32
  buflock :: sleeplock
  refcnt :: u32
  bprev :: nat
  bnext :: nat
  bdata :: block

text \<open>
  \<open>dsk\<close> is the disk of the file system. \<open>dwrites\<close> records the blocks written to it, in order: what a power
  failure leaves on the disk is the effect of some first part of them.
\<close>

record fsys =
  fhart :: cpu
  fpid :: int
  bclock :: spinlock
  bufs :: "nat \<Rightarrow> buf"
  dsk :: "u32 \<Rightarrow> block"
  dwrites :: "(u32 \<times> block) list"

definition upd_buf :: "nat \<Rightarrow> (buf \<Rightarrow> buf) \<Rightarrow> fsys \<Rightarrow> fsys" where
  "upd_buf b f s = s\<lparr>bufs := (bufs s)(b := f (bufs s b))\<rparr>"

definition acquire_bcache :: "fsys \<Rightarrow> fsys result" where
  "acquire_bcache s = bindR (acquire (bclock s) (fhart s)) (\<lambda>(l, c). Ok (s\<lparr>bclock := l, fhart := c\<rparr>))"

definition release_bcache :: "fsys \<Rightarrow> fsys result" where
  "release_bcache s = bindR (release (bclock s) (fhart s)) (\<lambda>(l, c). Ok (s\<lparr>bclock := l, fhart := c\<rparr>))"

definition acquire_buf :: "nat \<Rightarrow> fsys \<Rightarrow> fsys result" where
  "acquire_buf b s = bindR (acquiresleep (buflock (bufs s b)) (fpid s) (fhart s)) (\<lambda>(l, c).
     Ok (upd_buf b (\<lambda>u. u\<lparr>buflock := l\<rparr>) (s\<lparr>fhart := c\<rparr>)))"

definition release_buf :: "nat \<Rightarrow> fsys \<Rightarrow> fsys result" where
  "release_buf b s = bindR (releasesleep (buflock (bufs s b)) (fhart s)) (\<lambda>(l, c).
     Ok (upd_buf b (\<lambda>u. u\<lparr>buflock := l\<rparr>) (s\<lparr>fhart := c\<rparr>)))"

definition holding_buf :: "nat \<Rightarrow> fsys \<Rightarrow> (bool \<times> fsys) result" where
  "holding_buf b s = bindR (holdingsleep (buflock (bufs s b)) (fpid s) (fhart s)) (\<lambda>(r, l, c).
     Ok (r, upd_buf b (\<lambda>u. u\<lparr>buflock := l\<rparr>) (s\<lparr>fhart := c\<rparr>)))"

section \<open>Operations\<close>

definition link_front :: "nat \<Rightarrow> (nat \<Rightarrow> buf) \<Rightarrow> nat \<Rightarrow> buf" where
  "link_front b B =
     (let B = B(b := (B b)\<lparr>bnext := bnext (B NBUF)\<rparr>);
          B = B(b := (B b)\<lparr>bprev := NBUF\<rparr>);
          B = B(bnext (B NBUF) := (B (bnext (B NBUF)))\<lparr>bprev := b\<rparr>)
      in B(NBUF := (B NBUF)\<lparr>bnext := b\<rparr>))"

definition binit :: "fsys \<Rightarrow> fsys" where
  "binit s =
     (let s = s\<lparr>bclock := initlock\<rparr>;
          s = upd_buf NBUF (\<lambda>u. u\<lparr>bprev := NBUF, bnext := NBUF\<rparr>) s
      in fold (\<lambda>b s. s\<lparr>bufs := link_front b ((bufs s)(b := (bufs s b)\<lparr>buflock := initsleeplock\<rparr>))\<rparr>) [0..<NBUF] s)"

text \<open>The loops \<open>for (b = start; b != &bcache.head; b = b->next) if (P b) return b\<close>; the head stands for
  not found. A chain that never reaches the head makes the loop run forever.\<close>

partial_function (option) scan :: "(nat \<Rightarrow> nat) \<Rightarrow> (nat \<Rightarrow> bool) \<Rightarrow> nat \<Rightarrow> nat option" where
  "scan nxt P b = (if b = NBUF then Some NBUF else if P b then Some b else scan nxt P (nxt b))"

definition bget :: "u32 \<Rightarrow> u32 \<Rightarrow> fsys \<Rightarrow> (nat \<times> fsys) result" where
  "bget dev bno s =
     bindR (acquire_bcache s) (\<lambda>s.
       case scan (\<lambda>b. bnext (bufs s b)) (\<lambda>b. bdev (bufs s b) = dev \<and> blockno (bufs s b) = bno) (bnext (bufs s NBUF)) of
         None \<Rightarrow> Blocked
       | Some b \<Rightarrow>
           if b \<noteq> NBUF
           then bindR (release_bcache (upd_buf b (\<lambda>u. u\<lparr>refcnt := refcnt u + 1\<rparr>) s)) (\<lambda>s.
                bindR (acquire_buf b s) (\<lambda>s. Ok (b, s)))
           else case scan (\<lambda>b. bprev (bufs s b)) (\<lambda>b. refcnt (bufs s b) = 0) (bprev (bufs s NBUF)) of
                  None \<Rightarrow> Blocked
                | Some b \<Rightarrow>
                    if b \<noteq> NBUF
                    then bindR (release_bcache (upd_buf b (\<lambda>u. u\<lparr>bdev := dev, blockno := bno, bvalid := False, refcnt := 1\<rparr>) s)) (\<lambda>s.
                         bindR (acquire_buf b s) (\<lambda>s. Ok (b, s)))
                    else Panic ''bget: no buffers'')"

text \<open>One block transfer with disk 0, as \<open>virtio_disk_rw(VIRTIO0_ID, b, write)\<close> performs it.\<close>

definition disk_rw :: "nat \<Rightarrow> bool \<Rightarrow> fsys \<Rightarrow> fsys" where
  "disk_rw b write s =
     (let a = blockno (bufs s b)
      in if write then s\<lparr>dsk := (dsk s)(a := bdata (bufs s b)), dwrites := dwrites s @ [(a, bdata (bufs s b))]\<rparr>
         else upd_buf b (\<lambda>u. u\<lparr>bdata := dsk s a\<rparr>) s)"

definition bread :: "u32 \<Rightarrow> u32 \<Rightarrow> fsys \<Rightarrow> (nat \<times> fsys) result" where
  "bread dev bno s =
     bindR (bget dev bno s) (\<lambda>(b, s).
       if \<not> bvalid (bufs s b) then Ok (b, upd_buf b (\<lambda>u. u\<lparr>bvalid := True\<rparr>) (disk_rw b False s))
       else Ok (b, s))"

definition bwrite :: "nat \<Rightarrow> fsys \<Rightarrow> fsys result" where
  "bwrite b s =
     bindR (holding_buf b s) (\<lambda>(r, s). if \<not> r then Panic ''bwrite'' else Ok (disk_rw b True s))"

definition unlink :: "nat \<Rightarrow> (nat \<Rightarrow> buf) \<Rightarrow> nat \<Rightarrow> buf" where
  "unlink b B =
     (let B = B(bnext (B b) := (B (bnext (B b)))\<lparr>bprev := bprev (B b)\<rparr>)
      in B(bprev (B b) := (B (bprev (B b)))\<lparr>bnext := bnext (B b)\<rparr>))"

definition brelse :: "nat \<Rightarrow> fsys \<Rightarrow> fsys result" where
  "brelse b s =
     bindR (holding_buf b s) (\<lambda>(r, s).
       if \<not> r then Panic ''brelse''
       else bindR (release_buf b s) (\<lambda>s.
            bindR (acquire_bcache s) (\<lambda>s.
            let s = upd_buf b (\<lambda>u. u\<lparr>refcnt := refcnt u - 1\<rparr>) s
            in release_bcache (if refcnt (bufs s b) = 0 then s\<lparr>bufs := link_front b (unlink b (bufs s))\<rparr> else s))))"

definition bpin :: "nat \<Rightarrow> fsys \<Rightarrow> fsys result" where
  "bpin b s = bindR (acquire_bcache s) (\<lambda>s. release_bcache (upd_buf b (\<lambda>u. u\<lparr>refcnt := refcnt u + 1\<rparr>) s))"

definition bunpin :: "nat \<Rightarrow> fsys \<Rightarrow> fsys result" where
  "bunpin b s = bindR (acquire_bcache s) (\<lambda>s. release_bcache (upd_buf b (\<lambda>u. u\<lparr>refcnt := refcnt u - 1\<rparr>) s))"

text \<open>The caller changes the data of a buffer it holds.\<close>

definition set_data :: "nat \<Rightarrow> block \<Rightarrow> fsys \<Rightarrow> fsys" where
  "set_data b x s = upd_buf b (\<lambda>u. u\<lparr>bdata := x\<rparr>) s"

section \<open>The least recently used list\<close>

text \<open>The list of buffers that the pointers represent: from \<open>a\<close> through \<open>xs\<close> to \<open>b\<close>.\<close>

primrec path :: "(nat \<Rightarrow> nat) \<Rightarrow> nat \<Rightarrow> nat list \<Rightarrow> nat \<Rightarrow> bool" where
  "path f a [] b \<longleftrightarrow> f a = b"
| "path f a (x # xs) b \<longleftrightarrow> f a = x \<and> path f x xs b"

definition ring :: "(nat \<Rightarrow> buf) \<Rightarrow> nat list \<Rightarrow> bool" where
  "ring B xs \<longleftrightarrow> path (\<lambda>b. bnext (B b)) NBUF xs NBUF \<and> path (\<lambda>b. bprev (B b)) NBUF (rev xs) NBUF \<and> distinct (NBUF # xs)"

lemma path_append: "path f a (xs @ y # ys) b \<longleftrightarrow> path f a xs y \<and> path f y ys b"
  by (induction xs arbitrary: a) auto

lemma path_upd_out: "c \<notin> set (a # xs) \<Longrightarrow> path (f(c := d)) a xs b = path f a xs b"
  by (induction xs arbitrary: a) auto

lemma path_redirect: "path f a xs b \<Longrightarrow> distinct (a # xs) \<Longrightarrow> path (f(last (a # xs) := c)) a xs c"
proof (induction xs arbitrary: a)
  case (Cons x xs)
  have "path (f(last (x # xs) := c)) x xs c" by (rule Cons.IH) (use Cons.prems in auto)
  moreover have "last (a # x # xs) = last (x # xs)" "a \<noteq> last (x # xs)" "f a = x"
    using Cons.prems last_in_set [of "x # xs"] by auto
  ultimately show ?case by (simp only: path.simps fun_upd_other simp_thms)
qed simp

lemma path_last: "path f a xs b \<Longrightarrow> f (last (a # xs)) = b"
  by (induction xs arbitrary: a) auto

lemma path_first: "path f a xs b \<Longrightarrow> f a = hd (xs @ [b])"
  by (cases xs) auto

lemma scan_path:
  assumes "path f a xs NBUF" "NBUF \<notin> set xs"
  shows "scan f P (f a) = Some (case find P xs of None \<Rightarrow> NBUF | Some b \<Rightarrow> b)"
  using assms
proof (induction xs arbitrary: a)
  case Nil
  then show ?case by (subst scan.simps) simp
next
  case (Cons x xs)
  then show ?case by (subst scan.simps) auto
qed

lemma path_unlink:
  assumes p: "path f h (ys @ b # zs) h" and d: "distinct (h # ys @ b # zs)"
  shows "path (f(last (h # ys) := f b)) h (ys @ zs) h"
proof -
  have ys: "path f h ys b" and zs: "path f b zs h" using p by (auto simp: path_append)
  have r: "path (f(last (h # ys) := f b)) h ys (f b)" using ys d by (intro path_redirect) auto
  show ?thesis
  proof (cases zs)
    case Nil
    then show ?thesis using r zs by simp
  next
    case (Cons z zs')
    have "last (h # ys) \<notin> set zs" using d last_in_set [of "h # ys"] by auto
    then have "path (f(last (h # ys) := f b)) z zs' h" using zs Cons by (subst path_upd_out) auto
    then show ?thesis using r zs Cons by (simp add: path_append)
  qed
qed

lemma link_front_fields:
  assumes "b \<noteq> NBUF"
  shows "(\<lambda>i. bnext (link_front b B i)) = (\<lambda>i. bnext (B i))(b := bnext (B NBUF), NBUF := b)"
    "bnext (B NBUF) \<noteq> b \<Longrightarrow> (\<lambda>i. bprev (link_front b B i)) = (\<lambda>i. bprev (B i))(b := NBUF, bnext (B NBUF) := b)"
  using assms by (auto simp: link_front_def Let_def fun_eq_iff)

lemma ring_link_front:
  assumes r: "ring B xs" and b: "b \<noteq> NBUF" "b \<notin> set xs"
  shows "ring (link_front b B) (b # xs)"
proof -
  let ?n = "\<lambda>i. bnext (B i)" and ?p = "\<lambda>i. bprev (B i)"
  have d: "path ?n NBUF xs NBUF" "path ?p NBUF (rev xs) NBUF" "distinct (NBUF # xs)" using r by (auto simp: ring_def)
  have first: "?n NBUF = last (NBUF # rev xs)" using path_first [OF d(1)] by (cases xs) auto
  then have nb: "?n NBUF \<noteq> b" using b by (cases xs) auto
  have "path (?n(b := ?n NBUF, NBUF := b)) NBUF (b # xs) NBUF"
  proof (cases xs)
    case Nil
    then show ?thesis using d(1) b by simp
  next
    case (Cons x xs')
    have "path (?n(b := ?n NBUF, NBUF := b)) x xs' NBUF" using d b Cons by (simp add: path_upd_out)
    then show ?thesis using d(1) b Cons by simp
  qed
  moreover have "path (?p(b := NBUF, ?n NBUF := b)) NBUF (rev xs @ [b]) NBUF"
  proof -
    have "path (?p(b := NBUF)) NBUF (rev xs) NBUF" using d(2) b by (subst path_upd_out) auto
    then have "path (?p(b := NBUF, ?n NBUF := b)) NBUF (rev xs) b" unfolding first using d(3) by (intro path_redirect) auto
    then show ?thesis using nb by (simp add: path_append)
  qed
  ultimately show ?thesis using d(3) b nb by (simp add: ring_def link_front_fields)
qed

lemma unlink_fields:
  assumes "bnext (B b) \<noteq> b" "bprev (B b) \<noteq> b"
  shows "(\<lambda>i. bnext (unlink b B i)) = (\<lambda>i. bnext (B i))(bprev (B b) := bnext (B b))"
    "(\<lambda>i. bprev (unlink b B i)) = (\<lambda>i. bprev (B i))(bnext (B b) := bprev (B b))"
  using assms by (auto simp: unlink_def Let_def fun_eq_iff)

lemma ring_unlink:
  assumes r: "ring B (ys @ b # zs)"
  shows "ring (unlink b B) (ys @ zs)"
proof -
  let ?n = "\<lambda>i. bnext (B i)" and ?p = "\<lambda>i. bprev (B i)"
  have d: "path ?n NBUF (ys @ b # zs) NBUF" "path ?p NBUF (rev zs @ b # rev ys) NBUF" "distinct (NBUF # ys @ b # zs)"
    using r by (auto simp: ring_def)
  have pb: "?p b = last (NBUF # ys)"
    using d(2) path_first [of ?p b "rev ys" NBUF] by (cases ys rule: rev_cases) (auto simp: path_append)
  have nb: "?n b = last (NBUF # rev zs)"
    using d(1) path_first [of ?n b zs NBUF] by (cases zs) (auto simp: path_append)
  have ne: "?n b \<noteq> b" "?p b \<noteq> b"
    unfolding pb nb using d(3) last_in_set [of "NBUF # ys"] last_in_set [of "NBUF # rev zs"] by auto
  have "path (?n(?p b := ?n b)) NBUF (ys @ zs) NBUF" unfolding pb by (rule path_unlink [OF d(1,3)])
  moreover have "path (?p(?n b := ?p b)) NBUF (rev zs @ rev ys) NBUF"
    unfolding nb by (rule path_unlink [OF d(2)]) (use d(3) in auto)
  ultimately show ?thesis using d(3) ne by (simp add: ring_def unlink_fields)
qed

text \<open>\<open>brelse\<close> moves a buffer to the front of the list.\<close>

lemma ring_move_front:
  assumes "ring B xs" "b \<in> set xs"
  shows "ring (link_front b (unlink b B)) (b # remove1 b xs)"
proof -
  obtain ys zs where xs: "xs = ys @ b # zs" "b \<notin> set ys" using split_list_first [OF assms(2)] by blast
  have d: "distinct (NBUF # xs)" using assms(1) by (simp add: ring_def)
  have "ring (unlink b B) (ys @ zs)" using assms(1) xs by (simp add: ring_unlink)
  then have "ring (link_front b (unlink b B)) (b # ys @ zs)" using d xs by (intro ring_link_front) auto
  then show ?thesis using xs by (simp add: remove1_append)
qed

lemma link_front_other [simp]:
  "bvalid (link_front b B i) = bvalid (B i)" "bdev (link_front b B i) = bdev (B i)" "blockno (link_front b B i) = blockno (B i)"
  "buflock (link_front b B i) = buflock (B i)" "refcnt (link_front b B i) = refcnt (B i)" "bdata (link_front b B i) = bdata (B i)"
  by (auto simp: link_front_def Let_def)

lemma unlink_other [simp]:
  "bvalid (unlink b B i) = bvalid (B i)" "bdev (unlink b B i) = bdev (B i)" "blockno (unlink b B i) = blockno (B i)"
  "buflock (unlink b B i) = buflock (B i)" "refcnt (unlink b B i) = refcnt (B i)" "bdata (unlink b B i) = bdata (B i)"
  by (auto simp: unlink_def Let_def)

end
