(* ===== verification/Log.thy ===== *)
theory Log
  imports Bio Kernel_Words
begin

text \<open>
  The redo log of the file system (kernel/log.c). The log header is kept in a disk block as an array of
  32-bit words: the number of logged blocks, then their block numbers. Loops over the header that would
  leave its array of \<open>LOGSIZE\<close> entries are a \<open>Fault\<close>.
\<close>

definition MAXOPBLOCKS :: nat where "MAXOPBLOCKS = 10"

definition LOGSIZE :: nat where "LOGSIZE = MAXOPBLOCKS * 3"

section \<open>32-bit words in a block\<close>

definition get32 :: "block \<Rightarrow> nat \<Rightarrow> u32" where
  "get32 x i = of_nat (bytes_val (take 4 (drop (4 * i) x)))"

definition put32 :: "nat \<Rightarrow> u32 \<Rightarrow> block \<Rightarrow> block" where
  "put32 i v x = take (4 * i) x @ map (\<lambda>k. of_nat (unat v div 256 ^ k)) [0..<4] @ drop (4 * i + 4) x"

section \<open>State and operations\<close>

record log =
  llock :: spinlock
  lstart :: u32
  lsize :: int
  outstanding :: int
  committing :: bool
  ldev :: u32
  lhn :: int
  lhblock :: "u32 list"

definition install_step :: "log \<Rightarrow> bool \<Rightarrow> nat \<Rightarrow> fsys \<Rightarrow> fsys result" where
  "install_step lg recovering tail s =
     (if tail \<ge> LOGSIZE then Fault
      else bindR (bread (ldev lg) (lstart lg + of_nat tail + 1) s) (\<lambda>(lbuf, s).
           bindR (bread (ldev lg) (lhblock lg ! tail) s) (\<lambda>(dbuf, s).
           bindR (bwrite dbuf (set_data dbuf (bdata (bufs s lbuf)) s)) (\<lambda>s.
           bindR (if \<not> recovering then bunpin dbuf s else Ok s) (\<lambda>s.
           bindR (brelse lbuf s) (brelse dbuf))))))"

definition install_trans :: "log \<Rightarrow> bool \<Rightarrow> fsys \<Rightarrow> fsys result" where
  "install_trans lg recovering s = for_each (install_step lg recovering) [0..<nat (lhn lg)] s"

definition read_head :: "log \<Rightarrow> fsys \<Rightarrow> (log \<times> fsys) result" where
  "read_head lg s =
     bindR (bread (ldev lg) (lstart lg) s) (\<lambda>(b, s).
       let lh = bdata (bufs s b);
           n = sint (get32 lh 0)
       in if n > int LOGSIZE then Fault
          else bindR (brelse b s) (\<lambda>s.
               Ok (lg\<lparr>lhn := n, lhblock := fold (\<lambda>i bs. bs[i := get32 lh (i + 1)]) [0..<nat n] (lhblock lg)\<rparr>, s)))"

definition write_head :: "log \<Rightarrow> fsys \<Rightarrow> fsys result" where
  "write_head lg s =
     (if lhn lg > int LOGSIZE then Fault
      else bindR (bread (ldev lg) (lstart lg) s) (\<lambda>(b, s).
           let hb = put32 0 (word_of_int (lhn lg)) (bdata (bufs s b));
               hb = fold (\<lambda>i x. put32 (i + 1) (lhblock lg ! i) x) [0..<nat (lhn lg)] hb
           in bindR (bwrite b (set_data b hb s)) (brelse b)))"

definition recover_from_log :: "log \<Rightarrow> fsys \<Rightarrow> (log \<times> fsys) result" where
  "recover_from_log lg s =
     bindR (read_head lg s) (\<lambda>(lg, s).
     bindR (install_trans lg True s) (\<lambda>s.
     let lg = lg\<lparr>lhn := 0\<rparr>
     in bindR (write_head lg s) (\<lambda>s. Ok (lg, s))))"

definition initlog :: "u32 \<Rightarrow> u32 \<Rightarrow> u32 \<Rightarrow> log \<Rightarrow> fsys \<Rightarrow> (log \<times> fsys) result" where
  "initlog dev logstart nlog lg s =
     (if 4 * (LOGSIZE + 1) \<ge> BSIZE then Panic ''initlog: too big logheader''
      else recover_from_log (lg\<lparr>llock := initlock, lstart := logstart, lsize := sint nlog, ldev := dev\<rparr>) s)"

definition acquire_log :: "log \<Rightarrow> fsys \<Rightarrow> (log \<times> fsys) result" where
  "acquire_log lg s = bindR (acquire (llock lg) (fhart s)) (\<lambda>(l, c). Ok (lg\<lparr>llock := l\<rparr>, s\<lparr>fhart := c\<rparr>))"

definition release_log :: "log \<Rightarrow> fsys \<Rightarrow> (log \<times> fsys) result" where
  "release_log lg s = bindR (release (llock lg) (fhart s)) (\<lambda>(l, c). Ok (lg\<lparr>llock := l\<rparr>, s\<lparr>fhart := c\<rparr>))"

text \<open>A call that has to wait sleeps until another thread ends its operation.\<close>

definition begin_op :: "log \<Rightarrow> fsys \<Rightarrow> (log \<times> fsys) result" where
  "begin_op lg s =
     bindR (acquire_log lg s) (\<lambda>(lg, s).
       if committing lg then Blocked
       else if lhn lg + (outstanding lg + 1) * int MAXOPBLOCKS > int LOGSIZE then Blocked
       else release_log (lg\<lparr>outstanding := outstanding lg + 1\<rparr>) s)"

definition write_log_step :: "log \<Rightarrow> nat \<Rightarrow> fsys \<Rightarrow> fsys result" where
  "write_log_step lg tail s =
     (if tail \<ge> LOGSIZE then Fault
      else bindR (bread (ldev lg) (lstart lg + of_nat tail + 1) s) (\<lambda>(to, s).
           bindR (bread (ldev lg) (lhblock lg ! tail) s) (\<lambda>(from, s).
           bindR (bwrite to (set_data to (bdata (bufs s from)) s)) (\<lambda>s.
           bindR (brelse from s) (brelse to)))))"

definition write_log :: "log \<Rightarrow> fsys \<Rightarrow> fsys result" where
  "write_log lg s = for_each (write_log_step lg) [0..<nat (lhn lg)] s"

definition commit :: "log \<Rightarrow> fsys \<Rightarrow> (log \<times> fsys) result" where
  "commit lg s =
     (if lhn lg > 0
      then bindR (write_log lg s) (\<lambda>s.
           bindR (write_head lg s) (\<lambda>s.
           bindR (install_trans lg False s) (\<lambda>s.
           let lg = lg\<lparr>lhn := 0\<rparr>
           in bindR (write_head lg s) (\<lambda>s. Ok (lg, s)))))
      else Ok (lg, s))"

definition end_op :: "log \<Rightarrow> fsys \<Rightarrow> (log \<times> fsys) result" where
  "end_op lg s =
     bindR (acquire_log lg s) (\<lambda>(lg, s).
       let lg = lg\<lparr>outstanding := outstanding lg - 1\<rparr>
       in if committing lg then Panic ''log.committing''
          else let do_commit = (outstanding lg = 0);
                   lg = (if do_commit then lg\<lparr>committing := True\<rparr> else lg)
               in bindR (release_log lg s) (\<lambda>(lg, s).
                  if do_commit
                  then bindR (commit lg s) (\<lambda>(lg, s).
                       bindR (acquire_log lg s) (\<lambda>(lg, s).
                       release_log (lg\<lparr>committing := False\<rparr>) s))
                  else Ok (lg, s)))"

text \<open>The index of a block in the header, or the number of blocks there.\<close>

fun log_index :: "u32 \<Rightarrow> u32 list \<Rightarrow> nat \<Rightarrow> nat \<Rightarrow> nat" where
  "log_index bno bs i 0 = i"
| "log_index bno bs i (Suc k) = (if bs ! i = bno then i else log_index bno bs (i + 1) k)"

definition log_write :: "nat \<Rightarrow> log \<Rightarrow> fsys \<Rightarrow> (log \<times> fsys) result" where
  "log_write b lg s =
     bindR (acquire_log lg s) (\<lambda>(lg, s).
       if lhn lg \<ge> int LOGSIZE \<or> lhn lg \<ge> lsize lg - 1 then Panic ''too big a transaction''
       else if outstanding lg < 1 then Panic ''log_write outside of trans''
       else let i = log_index (blockno (bufs s b)) (lhblock lg) 0 (nat (lhn lg));
                fresh = (int i = lhn lg);
                lg = lg\<lparr>lhblock := (lhblock lg)[i := blockno (bufs s b)]\<rparr>
            in if fresh then bindR (bpin b s) (release_log (lg\<lparr>lhn := lhn lg + 1\<rparr>)) else release_log lg s)"

section \<open>Facts about the header block\<close>

lemma length_put32: "4 * i + 4 \<le> length x \<Longrightarrow> length (put32 i v x) = length x"
  by (simp add: put32_def)

lemma is_block_put32: "is_block x \<Longrightarrow> i < 256 \<Longrightarrow> is_block (put32 i v x)"
  by (simp add: is_block_def BSIZE_def length_put32)

lemma get32_put32:
  assumes "is_block x" "i < 256" "j < 256"
  shows "get32 (put32 i v x) j = (if i = j then v else get32 x j)"
proof (cases i j rule: linorder_cases)
  case equal
  have "length (take (4 * i) x) = 4 * i" using assms by (simp add: is_block_def BSIZE_def)
  then have "take 4 (drop (4 * i) (put32 i v x)) = map (\<lambda>k. of_nat (unat v div 256 ^ k)) [0..<0 + 4]" by (simp add: put32_def)
  then have "bytes_val (take 4 (drop (4 * i) (put32 i v x))) = unat v mod 256 ^ 4"
    by (simp only: bytes_val_digits power_0 div_by_1)
  moreover have "unat v < 256 ^ 4" using unsigned_less [of v] by simp
  ultimately show ?thesis using equal by (simp add: get32_def)
next
  case less
  then have "drop (4 * j) (put32 i v x) = drop (4 * j) x" using assms by (simp add: put32_def is_block_def BSIZE_def)
  then show ?thesis using less by (simp add: get32_def)
next
  case greater
  have "take 4 (drop (4 * j) (take (4 * i) x)) = take 4 (drop (4 * j) x)" using greater by (simp add: drop_take)
  then have "take 4 (drop (4 * j) (put32 i v x)) = take 4 (drop (4 * j) x)"
    using assms greater by (simp add: put32_def is_block_def BSIZE_def)
  then show ?thesis using greater by (simp add: get32_def)
qed

end
