(* ===== verification/Bio_Cache.thy ===== *)
theory Bio_Cache
  imports Bio
begin

text \<open>
  What the buffer cache promises to one thread: \<open>bread\<close> returns the current contents of a block, whether
  cached or not, each block is cached at most once, and a buffer that is pinned or in use keeps its contents.
\<close>

section \<open>The invariant\<close>

text \<open>One buffer, where \<open>h\<close> tells whether the thread holds its lock and \<open>p\<close> is the number of pins. A buffer that
  nobody uses agrees with the disk, so that it may be reused for another block.\<close>

definition buf_ok :: "u32 \<Rightarrow> int \<Rightarrow> (u32 \<Rightarrow> block) \<Rightarrow> bool \<Rightarrow> nat \<Rightarrow> buf \<Rightarrow> bool" where
  "buf_ok D pid d h p u \<longleftrightarrow>
     buflock u = (if h then held_sleep pid else initsleeplock) \<and> refcnt u = of_nat (p + (if h then 1 else 0)) \<and> p < 2 ^ 31 \<and>
     (bvalid u \<longleftrightarrow> bdev u = D) \<and> (bvalid u \<longrightarrow> is_block (bdata u)) \<and> (h \<or> 0 < p \<longrightarrow> bvalid u) \<and>
     (\<not> h \<and> p = 0 \<and> bvalid u \<longrightarrow> bdata u = d (blockno u))"

definition bio_ok :: "u32 \<Rightarrow> fsys \<Rightarrow> nat set \<Rightarrow> (nat \<Rightarrow> nat) \<Rightarrow> bool" where
  "bio_ok D s H pins \<longleftrightarrow>
     cpu_idle (fhart s) \<and> bclock s = initlock \<and> (\<exists>xs. ring (bufs s) xs \<and> set xs = {..<NBUF}) \<and>
     (\<forall>b < NBUF. buf_ok D (fpid s) (dsk s) (b \<in> H) (pins b) (bufs s b)) \<and>
     (\<forall>b < NBUF. \<forall>c < NBUF. bvalid (bufs s b) \<and> bvalid (bufs s c) \<and> blockno (bufs s b) = blockno (bufs s c) \<longrightarrow> b = c) \<and>
     (\<forall>a. is_block (dsk s a)) \<and> H \<subseteq> {..<NBUF}"

definition cached :: "fsys \<Rightarrow> u32 \<Rightarrow> nat \<Rightarrow> bool" where
  "cached s a b \<longleftrightarrow> b < NBUF \<and> bvalid (bufs s b) \<and> blockno (bufs s b) = a"

text \<open>The current contents of a block.\<close>

definition view :: "fsys \<Rightarrow> u32 \<Rightarrow> block" where
  "view s a = (case find (cached s a) [0..<NBUF] of Some b \<Rightarrow> bdata (bufs s b) | None \<Rightarrow> dsk s a)"

lemma bio_okD:
  assumes "bio_ok D s H pins"
  shows "cpu_idle (fhart s)" "bclock s = initlock" "b < NBUF \<Longrightarrow> buf_ok D (fpid s) (dsk s) (b \<in> H) (pins b) (bufs s b)"
    "cached s a b \<Longrightarrow> cached s a c \<Longrightarrow> b = c" "is_block (dsk s a)" "b \<in> H \<Longrightarrow> b < NBUF"
    "b < NBUF \<Longrightarrow> bvalid (bufs s b) \<longleftrightarrow> bdev (bufs s b) = D"
  using assms by (auto simp: bio_ok_def buf_ok_def cached_def)

lemma view_cached:
  assumes "bio_ok D s H pins" "cached s a b"
  shows "view s a = bdata (bufs s b)"
proof (cases "find (cached s a) [0..<NBUF]")
  case None
  then have "b \<notin> set [0..<NBUF]" using assms(2) by (auto simp: find_None_iff)
  then show ?thesis using assms(2) by (simp add: cached_def)
next
  case (Some c)
  then have "cached s a c" by (auto simp: find_Some_iff)
  then show ?thesis using Some bio_okD(4) [OF assms(1) assms(2)] by (auto simp: view_def)
qed

lemma view_uncached: "(\<And>b. \<not> cached s a b) \<Longrightarrow> view s a = dsk s a"
  by (simp add: view_def find_None_iff split: option.split) (auto simp: find_Some_iff)

lemma is_block_view: "bio_ok D s H pins \<Longrightarrow> is_block (view s a)"
proof (cases "\<exists>b. cached s a b")
  case True
  assume i: "bio_ok D s H pins"
  from True obtain b where b: "cached s a b" by blast
  then show ?thesis using bio_okD(3) [OF i, of b] view_cached [OF i b] by (auto simp: buf_ok_def cached_def)
next
  case False
  assume "bio_ok D s H pins"
  then show ?thesis using False view_uncached [of s a] bio_okD(5) by auto
qed

lemma ring_upd: "bnext u = bnext (B b) \<Longrightarrow> bprev u = bprev (B b) \<Longrightarrow> ring (B(b := u)) xs = ring B xs"
proof -
  assume "bnext u = bnext (B b)" "bprev u = bprev (B b)"
  then have "(\<lambda>i. bnext ((B(b := u)) i)) = (\<lambda>i. bnext (B i))" "(\<lambda>i. bprev ((B(b := u)) i)) = (\<lambda>i. bprev (B i))" by auto
  then show ?thesis by (simp only: ring_def)
qed

text \<open>Changing one buffer, and the disk.\<close>

lemma bio_ok_upd:
  assumes i: "bio_ok D s H pins" and b: "b < NBUF" and u: "bnext u = bnext (bufs s b)" "bprev u = bprev (bufs s b)"
    and ok: "buf_ok D (fpid s) d (b \<in> H') (pins' b) u"
    and other: "\<And>c. c < NBUF \<Longrightarrow> c \<noteq> b \<Longrightarrow> buf_ok D (fpid s) d (c \<in> H') (pins' c) (bufs s c)"
    and uniq: "\<And>c. c < NBUF \<Longrightarrow> c \<noteq> b \<Longrightarrow> bvalid u \<Longrightarrow> bvalid (bufs s c) \<Longrightarrow> blockno (bufs s c) \<noteq> blockno u"
    and d: "\<And>a. is_block (d a)" and H: "H' \<subseteq> {..<NBUF}"
  shows "bio_ok D (s\<lparr>bufs := (bufs s)(b := u), dsk := d, dwrites := w\<rparr>) H' pins'"
proof -
  obtain xs where xs: "ring (bufs s) xs" "set xs = {..<NBUF}" using i by (auto simp: bio_ok_def)
  have "ring ((bufs s)(b := u)) xs" using xs(1) u by (simp add: ring_upd)
  moreover have "c = e" if "c < NBUF" "e < NBUF" "bvalid (((bufs s)(b := u)) c)" "bvalid (((bufs s)(b := u)) e)"
      "blockno (((bufs s)(b := u)) c) = blockno (((bufs s)(b := u)) e)" for c e
  proof (cases "c = b \<or> e = b")
    case True
    then show ?thesis using uniq [of c] uniq [of e] that by (auto split: if_splits)
  next
    case False
    then show ?thesis using bio_okD(4) [OF i, of "blockno (bufs s c)" c e] that by (simp add: cached_def)
  qed
  ultimately show ?thesis
    using bio_okD(1,2) [OF i] xs(2) ok other d H unfolding bio_ok_def by auto
qed

text \<open>Changing one buffer only; \<open>h\<close> and \<open>p\<close> are its lock and its pins afterwards.\<close>

lemma bio_ok_buf:
  assumes i: "bio_ok D s H pins" and b: "b < NBUF" and u: "bnext u = bnext (bufs s b)" "bprev u = bprev (bufs s b)"
    and ok: "buf_ok D (fpid s) (dsk s) h p u" and uniq: "\<And>c. bvalid u \<Longrightarrow> cached s (blockno u) c \<Longrightarrow> c = b"
  shows "bio_ok D (s\<lparr>bufs := (bufs s)(b := u)\<rparr>) (if h then insert b H else H - {b}) (pins(b := p))"
proof -
  let ?H = "if h then insert b H else H - {b}"
  have "bio_ok D (s\<lparr>bufs := (bufs s)(b := u), dsk := dsk s, dwrites := dwrites s\<rparr>) ?H (pins(b := p))"
  proof (rule bio_ok_upd [OF i b u])
    have "(b \<in> ?H) = h" by simp
    then show "buf_ok D (fpid s) (dsk s) (b \<in> ?H) ((pins(b := p)) b) u" using ok by (simp only: fun_upd_same)
    fix c
    assume c: "c < NBUF" "c \<noteq> b"
    have "(c \<in> ?H) = (c \<in> H)" using c(2) by simp
    then show "buf_ok D (fpid s) (dsk s) (c \<in> ?H) ((pins(b := p)) c) (bufs s c)"
      using bio_okD(3) [OF i c(1)] c(2) by (simp only: fun_upd_apply if_False)
    assume "bvalid u" "bvalid (bufs s c)"
    then show "blockno (bufs s c) \<noteq> blockno u" using uniq [of c] c by (auto simp: cached_def)
  next
    show "is_block (dsk s a)" for a by (rule bio_okD(5) [OF i])
    show "?H \<subseteq> {..<NBUF}" using bio_okD(6) [OF i] b by auto
  qed
  then show ?thesis by simp
qed

section \<open>Locking\<close>

lemma acquire_bcache_free:
  "bclock s = initlock \<Longrightarrow> acquire_bcache s = Ok (s\<lparr>bclock := spin_held (fhart s), fhart := push_off (fhart s)\<rparr>)"
  by (simp add: acquire_bcache_def)

lemma release_bcache_held:
  "bclock s = spin_held c \<Longrightarrow> fhart s = push_off c \<Longrightarrow> cpu_idle c \<Longrightarrow> release_bcache s = Ok (s\<lparr>bclock := initlock, fhart := c\<rparr>)"
  by (simp add: release_bcache_def)

lemma acquire_buf_free:
  "cpu_idle (fhart s) \<Longrightarrow> buflock (bufs s b) = initsleeplock \<Longrightarrow>
     acquire_buf b s = Ok (upd_buf b (\<lambda>u. u\<lparr>buflock := held_sleep (fpid s)\<rparr>) s)"
  by (simp add: acquire_buf_def upd_buf_def)

lemma upd_buf_simps [simp]:
  "fhart (upd_buf b f s) = fhart s" "fpid (upd_buf b f s) = fpid s" "bclock (upd_buf b f s) = bclock s"
  "dsk (upd_buf b f s) = dsk s" "dwrites (upd_buf b f s) = dwrites s" "bufs (upd_buf b f s) = (bufs s)(b := f (bufs s b))"
  "upd_buf b f (upd_buf b g s) = upd_buf b (\<lambda>u. f (g u)) s"
  by (simp_all add: upd_buf_def)

section \<open>bread\<close>

text \<open>The search finds the buffer of a cached block.\<close>

lemma find_cached:
  assumes i: "bio_ok D s H pins" and xs: "set xs = {..<NBUF}" and b: "cached s a b"
  shows "find (\<lambda>b. bdev (bufs s b) = D \<and> blockno (bufs s b) = a) xs = Some b"
proof -
  have P: "bdev (bufs s c) = D \<and> blockno (bufs s c) = a \<longleftrightarrow> c = b" if "c < NBUF" for c
    using that b bio_okD(4) [OF i b, of c] bio_okD(7) [OF i that] by (auto simp: cached_def bio_okD(7) [OF i])
  have "b \<in> set xs" using b xs by (simp add: cached_def)
  then obtain c where c: "find (\<lambda>b. bdev (bufs s b) = D \<and> blockno (bufs s b) = a) xs = Some c"
    using P [of b] b by (cases "find (\<lambda>b. bdev (bufs s b) = D \<and> blockno (bufs s b) = a) xs") (auto simp: find_None_iff cached_def)
  then have "c \<in> set xs" "bdev (bufs s c) = D \<and> blockno (bufs s c) = a" by (auto simp: find_Some_iff)
  then show ?thesis using P [of c] xs c by auto
qed

lemma find_uncached:
  assumes i: "bio_ok D s H pins" and xs: "set xs = {..<NBUF}" and b: "\<And>b. \<not> cached s a b"
  shows "find (\<lambda>b. bdev (bufs s b) = D \<and> blockno (bufs s b) = a) xs = None"
  using b bio_okD(7) [OF i] xs by (auto simp: find_None_iff cached_def)

lemma bread_hit:
  assumes i: "bio_ok D s H pins" and b: "cached s a b" "b \<notin> H"
  shows "bread D a s = Ok (b, upd_buf b (\<lambda>u. u\<lparr>refcnt := refcnt u + 1, buflock := held_sleep (fpid s)\<rparr>) s)"
proof -
  obtain xs where xs: "path (\<lambda>b. bnext (bufs s b)) NBUF xs NBUF" "NBUF \<notin> set xs" "set xs = {..<NBUF}"
    using i by (auto simp: bio_ok_def ring_def)
  have bN: "b < NBUF" "bvalid (bufs s b)" using b(1) by (auto simp: cached_def)
  have "scan (\<lambda>b. bnext (bufs s b)) (\<lambda>b. bdev (bufs s b) = D \<and> blockno (bufs s b) = a) (bnext (bufs s NBUF)) = Some b"
    using scan_path [OF xs(1,2)] find_cached [OF i xs(3) b(1)] by simp
  then show ?thesis
    using bN b(2) bio_okD(1,2,3) [OF i] unfolding bread_def bget_def
    by (simp add: acquire_bcache_free release_bcache_held acquire_buf_free buf_ok_def upd_buf_def)
qed

lemma of_nat32_0: "n < 2 ^ 32 \<Longrightarrow> (of_nat n :: u32) = 0 \<longleftrightarrow> n = 0"
  by (auto simp: word_of_nat_eq_0_iff dest: nat_dvd_not_less)

lemma bread_miss:
  assumes i: "bio_ok D s H pins" and n: "\<And>b. \<not> cached s a b" and f: "f < NBUF" "f \<notin> H" "pins f = 0"
  obtains b where "b < NBUF" "b \<notin> H" "pins b = 0"
    "bread D a s = Ok (b, upd_buf b (\<lambda>u. u\<lparr>bdev := D, blockno := a, refcnt := 1, buflock := held_sleep (fpid s), bdata := dsk s a, bvalid := True\<rparr>) s)"
proof -
  obtain xs where xs: "path (\<lambda>b. bnext (bufs s b)) NBUF xs NBUF" "path (\<lambda>b. bprev (bufs s b)) NBUF (rev xs) NBUF"
    "NBUF \<notin> set xs" "set xs = {..<NBUF}"
    using i by (auto simp: bio_ok_def ring_def)
  have s1: "scan (\<lambda>b. bnext (bufs s b)) (\<lambda>b. bdev (bufs s b) = D \<and> blockno (bufs s b) = a) (bnext (bufs s NBUF)) = Some NBUF"
    using scan_path [OF xs(1,3)] find_uncached [OF i xs(4) n] by simp
  have fr: "refcnt (bufs s b) = 0 \<longleftrightarrow> b \<notin> H \<and> pins b = 0" if "b < NBUF" for b
  proof -
    let ?r = "pins b + (if b \<in> H then 1 else 0)"
    have r: "refcnt (bufs s b) = of_nat ?r" "?r < 2 ^ 32" using bio_okD(3) [OF i that] by (auto simp: buf_ok_def)
    show ?thesis unfolding r(1) of_nat32_0 [OF r(2)] by simp
  qed
  obtain b where b: "find (\<lambda>b. refcnt (bufs s b) = 0) (rev xs) = Some b"
    using f fr [of f] xs(4) by (cases "find (\<lambda>b. refcnt (bufs s b) = 0) (rev xs)") (auto simp: find_None_iff)
  then have "b \<in> set xs" "refcnt (bufs s b) = 0" by (auto simp: find_Some_iff rev_nth)
  then have bN: "b < NBUF" "b \<notin> H" "pins b = 0" using fr xs(4) by auto
  have s2: "scan (\<lambda>b. bprev (bufs s b)) (\<lambda>b. refcnt (bufs s b) = 0) (bprev (bufs s NBUF)) = Some b"
    using scan_path [OF xs(2)] xs(3) b by simp
  have "bread D a s = Ok (b, upd_buf b (\<lambda>u. u\<lparr>bdev := D, blockno := a, refcnt := 1, buflock := held_sleep (fpid s), bdata := dsk s a, bvalid := True\<rparr>) s)"
    using bN s1 s2 bio_okD(1,2,3) [OF i] unfolding bread_def bget_def
    by (simp add: acquire_bcache_free release_bcache_held acquire_buf_free buf_ok_def disk_rw_def Let_def upd_buf_def)
  with bN that show thesis by blast
qed

text \<open>The contents of the blocks after a change of one buffer.\<close>

lemma view_upd:
  assumes i: "bio_ok D s H pins" "bio_ok D s' H' pins'" and s': "bufs s' = (bufs s)(b := u)" and b: "b < NBUF"
  shows "view s' x = (if bvalid u \<and> blockno u = x then bdata u
    else if cached s x b then dsk s' x else if \<exists>c. cached s x c then view s x else dsk s' x)"
proof (cases "bvalid u \<and> blockno u = x")
  case True
  then have "cached s' x b" using s' b by (simp add: cached_def)
  then show ?thesis using view_cached [OF i(2)] True s' by simp
next
  case False
  have c: "cached s' x c \<longleftrightarrow> cached s x c \<and> c \<noteq> b" for c using False s' by (auto simp: cached_def)
  show ?thesis
  proof (cases "\<exists>c. cached s x c \<and> c \<noteq> b")
    case True
    then obtain c where cc: "cached s x c" "c \<noteq> b" by blast
    then have "\<not> cached s x b" using bio_okD(4) [OF i(1)] by blast
    moreover have "view s' x = view s x"
      using view_cached [OF i(1) cc(1)] view_cached [OF i(2)] c cc s' by simp
    ultimately show ?thesis using False cc by auto
  next
    case none: False
    then have "view s' x = dsk s' x" using c by (intro view_uncached) blast
    then show ?thesis using False none by (auto split: if_splits)
  qed
qed

definition dev_same :: "fsys \<Rightarrow> fsys \<Rightarrow> bool" where
  "dev_same s s' \<longleftrightarrow> dsk s' = dsk s \<and> dwrites s' = dwrites s \<and> fpid s' = fpid s"

lemma bread_spec:
  assumes i: "bio_ok D s H pins" and a: "\<And>b. b \<in> H \<Longrightarrow> blockno (bufs s b) \<noteq> a"
    and free: "(\<exists>b. cached s a b) \<or> (\<exists>f < NBUF. f \<notin> H \<and> pins f = 0)"
  obtains b s' where "bread D a s = Ok (b, s')" "b \<notin> H" "b < NBUF" "bio_ok D s' (insert b H) pins" "cached s' a b"
    "bdata (bufs s' b) = view s a" "view s' = view s" "dev_same s s'" "\<And>c. c \<noteq> b \<Longrightarrow> bufs s' c = bufs s c"
    "pins b = 0 \<or> cached s a b"
proof (cases "\<exists>b. cached s a b")
  case True
  then obtain b where b: "cached s a b" by blast
  have bN: "b < NBUF" "b \<notin> H" using b a by (auto simp: cached_def)
  let ?u = "(bufs s b)\<lparr>refcnt := refcnt (bufs s b) + 1, buflock := held_sleep (fpid s)\<rparr>"
  let ?s = "upd_buf b (\<lambda>u. u\<lparr>refcnt := refcnt u + 1, buflock := held_sleep (fpid s)\<rparr>) s"
  note ok = bio_okD(3) [OF i]
  have "buf_ok D (fpid s) (dsk s) True (pins b) ?u" using ok [OF bN(1)] bN b by (simp add: buf_ok_def cached_def)
  moreover have "c = b" if "cached s (blockno ?u) c" for c using that b bio_okD(4) [OF i _ b, of c] by (simp add: cached_def)
  ultimately have "bio_ok D (s\<lparr>bufs := (bufs s)(b := ?u)\<rparr>) (if True then insert b H else H - {b}) (pins(b := pins b))"
    by (intro bio_ok_buf [OF i bN(1)]) auto
  then have ok': "bio_ok D ?s (insert b H) pins" by (simp add: upd_buf_def)
  have v: "view ?s = view s"
  proof (rule ext)
    fix x
    show "view ?s x = view s x"
      using view_upd [OF i ok', of b ?u x] view_uncached [of s x] view_cached [OF i b] b by (auto simp: cached_def)
  qed
  have c: "cached ?s a b" using b by (simp add: cached_def)
  have "bdata (bufs ?s b) = view s a" using view_cached [OF i b] by simp
  from that [OF bread_hit [OF i b bN(2)] bN(2,1) ok' c this v _ _ disjI2 [OF b]] show thesis by (simp add: dev_same_def)
next
  case False
  then have n: "\<not> cached s a b" for b by blast
  obtain f where f: "f < NBUF" "f \<notin> H" "pins f = 0" using free False by blast
  obtain b where b: "b < NBUF" "b \<notin> H" "pins b = 0"
    "bread D a s = Ok (b, upd_buf b (\<lambda>u. u\<lparr>bdev := D, blockno := a, refcnt := 1, buflock := held_sleep (fpid s), bdata := dsk s a, bvalid := True\<rparr>) s)"
    using bread_miss [OF i n f] .
  let ?u = "(bufs s b)\<lparr>bdev := D, blockno := a, refcnt := 1, buflock := held_sleep (fpid s), bdata := dsk s a, bvalid := True\<rparr>"
  let ?s = "upd_buf b (\<lambda>u. u\<lparr>bdev := D, blockno := a, refcnt := 1, buflock := held_sleep (fpid s), bdata := dsk s a, bvalid := True\<rparr>) s"
  note ok = bio_okD(3) [OF i]
  have "buf_ok D (fpid s) (dsk s) True (pins b) ?u" using ok [OF b(1)] b bio_okD(5) [OF i] by (simp add: buf_ok_def)
  then have "bio_ok D (s\<lparr>bufs := (bufs s)(b := ?u)\<rparr>) (if True then insert b H else H - {b}) (pins(b := pins b))"
    by (intro bio_ok_buf [OF i b(1)]) (use n in auto)
  then have ok': "bio_ok D ?s (insert b H) pins" by (simp add: upd_buf_def)
  have v: "view ?s = view s"
  proof (rule ext)
    fix x
    have "view s x = dsk s x" if "cached s x b"
      using view_cached [OF i that] ok [OF b(1)] b that by (simp add: buf_ok_def cached_def)
    then show "view ?s x = view s x"
      using view_upd [OF i ok', of b ?u x] view_uncached [of s x] n b(1) by auto
  qed
  have c: "cached ?s a b" using b(1) by (simp add: cached_def)
  have "bdata (bufs ?s b) = view s a" using view_uncached [of s a] n by simp
  from that [OF b(4,2,1) ok' c this v _ _ disjI1 [OF b(3)]] show thesis by (simp add: dev_same_def)
qed

section \<open>bwrite, brelse, bpin, bunpin\<close>

lemma held_cached: "bio_ok D s H pins \<Longrightarrow> b \<in> H \<Longrightarrow> cached s (blockno (bufs s b)) b"
  using bio_okD(3,6) by (fastforce simp: buf_ok_def cached_def)

lemma set_data_spec:
  assumes i: "bio_ok D s H pins" and b: "b \<in> H" and x: "is_block x"
  shows "bio_ok D (set_data b x s) H pins" "view (set_data b x s) = (view s)(blockno (bufs s b) := x)" "dev_same s (set_data b x s)"
proof -
  let ?u = "(bufs s b)\<lparr>bdata := x\<rparr>"
  note c = held_cached [OF i b] and bN = bio_okD(6) [OF i b]
  have "buf_ok D (fpid s) (dsk s) True (pins b) ?u" using bio_okD(3) [OF i bN] b x by (auto simp: buf_ok_def)
  moreover have "e = b" if "cached s (blockno ?u) e" for e using that bio_okD(4) [OF i _ c, of e] by simp
  ultimately have "bio_ok D (s\<lparr>bufs := (bufs s)(b := ?u)\<rparr>) (if True then insert b H else H - {b}) (pins(b := pins b))"
    by (intro bio_ok_buf [OF i bN]) auto
  then show ok: "bio_ok D (set_data b x s) H pins" using b by (simp add: set_data_def upd_buf_def insert_absorb)
  show "view (set_data b x s) = (view s)(blockno (bufs s b) := x)"
  proof (rule ext)
    fix a
    show "view (set_data b x s) a = ((view s)(blockno (bufs s b) := x)) a"
      using view_upd [OF i ok, of b ?u a] bN c view_uncached [of s a] by (auto simp: set_data_def cached_def)
  qed
  show "dev_same s (set_data b x s)" by (simp add: dev_same_def set_data_def)
qed

lemma holding_buf_held:
  assumes i: "bio_ok D s H pins" and b: "b \<in> H"
  shows "holding_buf b s = Ok (True, s)"
proof -
  have l: "buflock (bufs s b) = held_sleep (fpid s)" using bio_okD(3) [OF i bio_okD(6) [OF i b]] b by (simp add: buf_ok_def)
  then have "(bufs s b)\<lparr>buflock := held_sleep (fpid s)\<rparr> = bufs s b" by (intro buf.equality) simp_all
  then have "s\<lparr>bufs := (bufs s)(b := (bufs s b)\<lparr>buflock := held_sleep (fpid s)\<rparr>)\<rparr> = s" by (simp only: fun_upd_triv) simp
  then show ?thesis using bio_okD(1) [OF i] l by (simp add: holding_buf_def upd_buf_def)
qed

text \<open>The buffer that is written is the only one of its block, so that the others still agree with the disk.\<close>

lemma bwrite_spec:
  assumes i: "bio_ok D s H pins" and b: "b \<in> H"
  defines "s' \<equiv> s\<lparr>dsk := (dsk s)(blockno (bufs s b) := bdata (bufs s b)), dwrites := dwrites s @ [(blockno (bufs s b), bdata (bufs s b))]\<rparr>"
  shows "bwrite b s = Ok s'" "bio_ok D s' H pins" "view s' = view s"
proof -
  let ?a = "blockno (bufs s b)" and ?d = "(dsk s)(blockno (bufs s b) := bdata (bufs s b))"
  note c = held_cached [OF i b] and bN = bio_okD(6) [OF i b]
  show "bwrite b s = Ok s'" by (simp add: bwrite_def holding_buf_held [OF i b] disk_rw_def Let_def s'_def)
  have other: "blockno (bufs s e) \<noteq> ?a" if "e < NBUF" "e \<noteq> b" "bvalid (bufs s e)" for e
    using that bio_okD(4) [OF i c, of e] by (auto simp: cached_def)
  have "bio_ok D (s\<lparr>bufs := (bufs s)(b := bufs s b), dsk := ?d, dwrites := dwrites s'\<rparr>) H pins"
  proof (rule bio_ok_upd [OF i bN])
    show "buf_ok D (fpid s) ?d (b \<in> H) (pins b) (bufs s b)" using bio_okD(3) [OF i bN] b by (auto simp: buf_ok_def)
    show "is_block (?d x)" for x using bio_okD(5) [OF i] bio_okD(3) [OF i bN] c by (simp add: buf_ok_def cached_def)
    fix e
    assume e: "e < NBUF" "e \<noteq> b"
    show "buf_ok D (fpid s) ?d (e \<in> H) (pins e) (bufs s e)"
      using bio_okD(3) [OF i e(1)] other [OF e] unfolding buf_ok_def by (auto simp: fun_upd_apply)
    assume "bvalid (bufs s e)"
    then show "blockno (bufs s e) \<noteq> ?a" by (rule other [OF e])
  qed (use bio_okD(6) [OF i] in auto)
  then show ok: "bio_ok D s' H pins" by (simp add: s'_def)
  have ch: "cached s' x e = cached s x e" for x e by (simp add: cached_def s'_def)
  show "view s' = view s"
  proof (rule ext)
    fix x
    show "view s' x = view s x"
    proof (cases "\<exists>e. cached s x e")
      case True
      then obtain e where "cached s x e" by blast
      then show ?thesis using view_cached [OF i] view_cached [OF ok] ch by (simp add: s'_def)
    next
      case False
      then have "x \<noteq> ?a" using c by blast
      then show ?thesis using view_uncached [of s x] view_uncached [of s' x] False ch by (simp add: s'_def)
    qed
  qed
qed

definition data_same :: "fsys \<Rightarrow> fsys \<Rightarrow> bool" where
  "data_same s s' \<longleftrightarrow> (\<forall>c. bvalid (bufs s' c) = bvalid (bufs s c) \<and> blockno (bufs s' c) = blockno (bufs s c) \<and> bdata (bufs s' c) = bdata (bufs s c))"

lemma data_sameD:
  assumes "data_same s s'"
  shows "cached s' a b = cached s a b" "bdata (bufs s' b) = bdata (bufs s b)" "blockno (bufs s' b) = blockno (bufs s b)"
  using assms by (auto simp: data_same_def cached_def)

lemma view_same:
  assumes "data_same s s'" "dsk s' = dsk s"
  shows "view s' = view s"
proof -
  have "cached s' = cached s" using data_sameD(1) [OF assms(1)] by (intro ext) simp
  then show ?thesis by (intro ext) (simp add: view_def data_sameD(2) [OF assms(1)] assms(2) split: option.split)
qed

lemma bio_ok_ring:
  assumes i: "bio_ok D s H pins" and r: "ring B xs" "set xs = {..<NBUF}"
    and same: "\<And>c. bvalid (B c) = bvalid (bufs s c) \<and> bdev (B c) = bdev (bufs s c) \<and> blockno (B c) = blockno (bufs s c) \<and>
      buflock (B c) = buflock (bufs s c) \<and> refcnt (B c) = refcnt (bufs s c) \<and> bdata (B c) = bdata (bufs s c)"
  shows "bio_ok D (s\<lparr>bufs := B\<rparr>) H pins"
  using i r unfolding bio_ok_def buf_ok_def by (simp add: same) blast

lemma brelse_spec:
  assumes i: "bio_ok D s H pins" and b: "b \<in> H" and clean: "0 < pins b \<or> bdata (bufs s b) = dsk s (blockno (bufs s b))"
  obtains s' where "brelse b s = Ok s'" "bio_ok D s' (H - {b}) pins" "view s' = view s" "dev_same s s'" "data_same s s'"
proof -
  let ?u = "(bufs s b)\<lparr>buflock := initsleeplock, refcnt := refcnt (bufs s b) - 1\<rparr>"
  let ?s1 = "s\<lparr>bufs := (bufs s)(b := ?u)\<rparr>"
  note c = held_cached [OF i b] and bN = bio_okD(6) [OF i b] and ok = bio_okD(3) [OF i bio_okD(6) [OF i b]]
  have l: "buflock (bufs s b) = held_sleep (fpid s)" using ok b by (simp add: buf_ok_def)
  have "buf_ok D (fpid s) (dsk s) False (pins b) ?u" using ok b clean by (auto simp: buf_ok_def)
  moreover have "e = b" if "cached s (blockno ?u) e" for e using that bio_okD(4) [OF i _ c, of e] by simp
  ultimately have "bio_ok D ?s1 (if False then insert b H else H - {b}) (pins(b := pins b))"
    by (intro bio_ok_buf [OF i bN]) auto
  then have ok1: "bio_ok D ?s1 (H - {b}) pins" by simp
  define s' where "s' = (if refcnt ?u = 0 then ?s1\<lparr>bufs := link_front b (unlink b (bufs ?s1))\<rparr> else ?s1)"
  have "brelse b s = Ok s'"
    using bio_okD(1,2) [OF i] l
    by (simp add: brelse_def holding_buf_held [OF i b] release_buf_def acquire_bcache_free release_bcache_held Let_def upd_buf_def s'_def)
  moreover have "bio_ok D s' (H - {b}) pins"
  proof (cases "refcnt ?u = 0")
    case True
    obtain xs where xs: "ring (bufs ?s1) xs" "set xs = {..<NBUF}" using ok1 by (auto simp: bio_ok_def)
    have "distinct xs" using xs(1) by (simp add: ring_def)
    then have "set (b # remove1 b xs) = {..<NBUF}" using xs(2) bN by auto
    from bio_ok_ring [OF ok1 ring_move_front [OF xs(1), of b] this] show ?thesis using True xs(2) bN by (simp add: s'_def)
  next
    case False
    then show ?thesis using ok1 by (simp add: s'_def)
  qed
  moreover have d: "data_same s s'" "dev_same s s'" by (auto simp: s'_def data_same_def dev_same_def)
  moreover have "view s' = view s" by (rule view_same [OF d(1)]) (use d(2) in \<open>simp add: dev_same_def\<close>)
  ultimately show thesis using that by blast
qed

lemma pins_spec:
  assumes i: "bio_ok D s H pins" and b: "b \<in> H" and p: "refcnt u = of_nat (p + 1)" "p < 2 ^ 31"
    and u: "u = (bufs s b)\<lparr>refcnt := refcnt u\<rparr>"
  defines "s' \<equiv> s\<lparr>bufs := (bufs s)(b := u)\<rparr>"
  shows "bio_ok D s' H (pins(b := p))" "view s' = view s" "dev_same s s'" "data_same s s'"
proof -
  note c = held_cached [OF i b] and bN = bio_okD(6) [OF i b] and ok = bio_okD(3) [OF i bio_okD(6) [OF i b]]
  have f: "bvalid u = bvalid (bufs s b)" "bdev u = bdev (bufs s b)" "blockno u = blockno (bufs s b)" "buflock u = buflock (bufs s b)"
    "bdata u = bdata (bufs s b)" "bnext u = bnext (bufs s b)" "bprev u = bprev (bufs s b)"
    by (subst u, simp)+
  have "buf_ok D (fpid s) (dsk s) True p u" using ok b p f by (auto simp: buf_ok_def)
  moreover have "e = b" if "cached s (blockno u) e" for e using that bio_okD(4) [OF i _ c, of e] f by simp
  ultimately have "bio_ok D s' (if True then insert b H else H - {b}) (pins(b := p))"
    unfolding s'_def using f by (intro bio_ok_buf [OF i bN]) auto
  then show "bio_ok D s' H (pins(b := p))" using b by (simp add: insert_absorb)
  show d: "data_same s s'" "dev_same s s'" using f by (auto simp: data_same_def dev_same_def s'_def)
  show "view s' = view s" by (rule view_same [OF d(1)]) (simp add: s'_def)
qed

lemma bpin_spec:
  assumes i: "bio_ok D s H pins" and b: "b \<in> H" "pins b + 1 < 2 ^ 31"
  obtains s' where "bpin b s = Ok s'" "bio_ok D s' H (pins(b := pins b + 1))" "view s' = view s" "dev_same s s'" "data_same s s'"
proof -
  let ?u = "(bufs s b)\<lparr>refcnt := refcnt (bufs s b) + 1\<rparr>"
  have r: "refcnt ?u = of_nat (pins b + 1 + 1)" using bio_okD(3) [OF i bio_okD(6) [OF i b(1)]] b(1) by (simp add: buf_ok_def)
  have "bpin b s = Ok (s\<lparr>bufs := (bufs s)(b := ?u)\<rparr>)"
    using bio_okD(1,2) [OF i] by (simp add: bpin_def acquire_bcache_free release_bcache_held upd_buf_def)
  then show thesis using that pins_spec [OF i b(1) r b(2)] by simp
qed

lemma bunpin_spec:
  assumes i: "bio_ok D s H pins" and b: "b \<in> H" "0 < pins b"
  obtains s' where "bunpin b s = Ok s'" "bio_ok D s' H (pins(b := pins b - 1))" "view s' = view s" "dev_same s s'" "data_same s s'"
proof -
  let ?u = "(bufs s b)\<lparr>refcnt := refcnt (bufs s b) - 1\<rparr>"
  have ok: "refcnt (bufs s b) = of_nat (pins b + 1)" "pins b < 2 ^ 31"
    using bio_okD(3) [OF i bio_okD(6) [OF i b(1)]] b(1) by (simp_all add: buf_ok_def)
  obtain k where k: "pins b = Suc k" using b(2) by (cases "pins b") auto
  have r: "refcnt ?u = of_nat (pins b - 1 + 1)" using ok(1) k by simp
  have "bunpin b s = Ok (s\<lparr>bufs := (bufs s)(b := ?u)\<rparr>)"
    using bio_okD(1,2) [OF i] by (simp add: bunpin_def acquire_bcache_free release_bcache_held upd_buf_def)
  then show thesis using that pins_spec [OF i b(1) r] ok(2) by simp
qed

section \<open>binit\<close>

text \<open>A booted system: no buffer is in use.\<close>

definition boot_buf :: buf where
  "boot_buf = \<lparr>bvalid = False, bdev = 0, blockno = 0, buflock = initsleeplock, refcnt = 0, bprev = 0, bnext = 0, bdata = replicate BSIZE 0\<rparr>"

definition boot :: "cpu \<Rightarrow> int \<Rightarrow> (u32 \<Rightarrow> block) \<Rightarrow> fsys" where
  "boot c pid d = \<lparr>fhart = c, fpid = pid, bclock = initlock, bufs = (\<lambda>_. boot_buf), dsk = d, dwrites = []\<rparr>"

lemma binit_loop:
  fixes c pid d
  defines "f \<equiv> \<lambda>b s. s\<lparr>bufs := link_front b ((bufs s)(b := (bufs s b)\<lparr>buflock := initsleeplock\<rparr>))\<rparr>"
  defines "s0 \<equiv> upd_buf NBUF (\<lambda>u. u\<lparr>bprev := NBUF, bnext := NBUF\<rparr>) (boot c pid d)"
  assumes "n \<le> NBUF"
  shows "ring (bufs (fold f [0..<n] s0)) (rev [0..<n]) \<and> fold f [0..<n] s0 = s0\<lparr>bufs := bufs (fold f [0..<n] s0)\<rparr> \<and>
    (\<forall>b. bvalid (bufs (fold f [0..<n] s0) b) = False \<and> bdev (bufs (fold f [0..<n] s0) b) = 0 \<and>
       buflock (bufs (fold f [0..<n] s0) b) = initsleeplock \<and> refcnt (bufs (fold f [0..<n] s0) b) = 0)"
  using assms(3)
proof (induction n)
  case 0
  then show ?case by (simp add: ring_def s0_def boot_def boot_buf_def upd_buf_def fun_upd_def)
next
  case (Suc n)
  let ?t = "fold f [0..<n] s0"
  note IH = Suc.IH [OF Suc_leD [OF Suc.prems]]
  let ?B = "(bufs ?t)(n := (bufs ?t n)\<lparr>buflock := initsleeplock\<rparr>)"
  have "ring ?B (rev [0..<n])" using IH by (simp add: ring_upd)
  then have "ring (link_front n ?B) (n # rev [0..<n])" using Suc.prems by (intro ring_link_front) auto
  moreover have "fold f [0..<Suc n] s0 = ?t\<lparr>bufs := link_front n ?B\<rparr>" by (simp add: upt_Suc f_def)
  moreover have "?t\<lparr>bufs := link_front n ?B\<rparr> = s0\<lparr>bufs := link_front n ?B\<rparr>" by (subst conjunct1 [OF conjunct2 [OF IH]]) simp
  ultimately show ?case using IH by (simp add: upt_Suc)
qed

lemma binit_ok:
  assumes "cpu_idle c" "D \<noteq> 0" "\<And>a. is_block (d a)"
  shows "bio_ok D (binit (boot c pid d)) {} (\<lambda>_. 0)" "view (binit (boot c pid d)) = d" "dsk (binit (boot c pid d)) = d"
    "dwrites (binit (boot c pid d)) = []"
proof -
  let ?s = "binit (boot c pid d)"
  have b: "(boot c pid d)\<lparr>bclock := initlock\<rparr> = boot c pid d" by (simp add: boot_def)
  from binit_loop [of NBUF c pid d] have r: "ring (bufs ?s) (rev [0..<NBUF])"
    "?s = (upd_buf NBUF (\<lambda>u. u\<lparr>bprev := NBUF, bnext := NBUF\<rparr>) (boot c pid d))\<lparr>bufs := bufs ?s\<rparr>"
    "\<And>b. \<not> bvalid (bufs ?s b)" "\<And>b. bdev (bufs ?s b) = 0" "\<And>b. buflock (bufs ?s b) = initsleeplock" "\<And>b. refcnt (bufs ?s b) = 0"
    unfolding binit_def Let_def b by auto
  have f: "fhart ?s = c" "fpid ?s = pid" "bclock ?s = initlock" "dsk ?s = d" "dwrites ?s = []"
    by (subst r(2), simp add: boot_def)+
  show "bio_ok D ?s {} (\<lambda>_. 0)"
    unfolding bio_ok_def buf_ok_def using assms r(1,3-6) f by (auto intro!: exI [of _ "rev [0..<NBUF]"])
  show "dsk ?s = d" "dwrites ?s = []" using f by auto
  show "view ?s = d" by (rule ext, subst view_uncached) (use r(3) f in \<open>auto simp: cached_def\<close>)
qed

section \<open>Reading\<close>

text \<open>C13. Reading a block through the cache: as long as the caller does not hold the block and there is an
  unused buffer, \<open>bread\<close> returns a locked buffer with the current contents of the block (what was last stored in the
  cache, or else what is on the disk), changes no block and writes nothing, and keeps the cache consistent; in
  particular no block is ever in two buffers.\<close>

theorem bread_current:
  assumes "bio_ok D s H pins" "\<forall>b \<in> H. blockno (bufs s b) \<noteq> a" "\<exists>f < NBUF. f \<notin> H \<and> pins f = 0"
  shows "\<exists>b s'. bread D a s = Ok (b, s') \<and> b \<notin> H \<and> bio_ok D s' (insert b H) pins \<and> bdata (bufs s' b) = view s a \<and> cached s' a b \<and>
    (\<forall>c. cached s' a c \<longrightarrow> c = b) \<and> view s' = view s \<and> dsk s' = dsk s \<and> dwrites s' = dwrites s"
proof -
  have a: "\<And>b. b \<in> H \<Longrightarrow> blockno (bufs s b) \<noteq> a" using assms(2) by blast
  obtain b s' where b: "bread D a s = Ok (b, s')" "b \<notin> H" "bio_ok D s' (insert b H) pins" "cached s' a b"
    "bdata (bufs s' b) = view s a" "view s' = view s" "dev_same s s'"
    by (rule bread_spec [OF assms(1) a disjI2 [OF assms(3)]])
  have u: "\<forall>c. cached s' a c \<longrightarrow> c = b" using bio_okD(4) [OF b(3) _ b(4)] by blast
  have d: "dsk s' = dsk s" "dwrites s' = dwrites s" using b(7) by (simp_all add: dev_same_def)
  show ?thesis by (intro exI [of _ b] exI [of _ s'] conjI) (fact b u d)+
qed

theorem bread_current_witness:
  "\<exists>b s'. bread 1 7 (binit (boot \<lparr>cid = 0, noff = 0, intena = True, intr = True\<rparr> 1 (\<lambda>_. replicate BSIZE 5))) = Ok (b, s') \<and>
     bdata (bufs s' b) = replicate BSIZE 5"
proof -
  let ?c = "\<lparr>cid = 0, noff = 0, intena = True, intr = True\<rparr>" and ?d = "\<lambda>_. replicate BSIZE 5"
  have "cpu_idle ?c" by (simp add: cpu_idle_def)
  then have b: "bio_ok 1 (binit (boot ?c 1 ?d)) {} (\<lambda>_. 0)" "view (binit (boot ?c 1 ?d)) = ?d"
    using binit_ok [of ?c 1 ?d 1] by (simp_all add: is_block_def)
  have "0 < NBUF" by (simp add: NBUF_def)
  then have "\<exists>f < NBUF. f \<notin> {} \<and> (\<lambda>_. 0 :: nat) f = (0 :: nat)" by auto
  with bread_current [OF b(1), of 7] obtain b s' where "bread 1 7 (binit (boot ?c 1 ?d)) = Ok (b, s')" "bdata (bufs s' b) = view (binit (boot ?c 1 ?d)) 7"
    by blast
  then show ?thesis unfolding b(2) by blast
qed

end
