(* ===== verification/Log_Steps.thy ===== *)
theory Log_Steps
  imports Log Bio_Cache
begin

text \<open>
  The single steps of the log on the buffer cache: copying a block to the log, installing it at its home
  location, reading and writing the header block. Each is described by its effect on the disk and on the
  contents of the blocks as \<open>bread\<close> returns them.
\<close>

section \<open>The cache as the log uses it\<close>

text \<open>\<open>P\<close> is the set of the block numbers that are pinned, each by one reference.\<close>

definition pinned :: "fsys \<Rightarrow> (nat \<Rightarrow> nat) \<Rightarrow> u32 set \<Rightarrow> bool" where
  "pinned s pins P \<longleftrightarrow> (\<forall>c < NBUF. pins c \<le> 1) \<and> (\<forall>y. y \<in> P \<longleftrightarrow> (\<exists>c. cached s y c \<and> pins c = 1))"

definition quiet :: "u32 \<Rightarrow> fsys \<Rightarrow> u32 set \<Rightarrow> bool" where
  "quiet D s P \<longleftrightarrow> (\<exists>pins. bio_ok D s {} pins \<and> pinned s pins P)"

lemma pinned_cong:
  assumes "pinned s pins P" "\<And>z e. pins e = 1 \<Longrightarrow> cached s' z e = cached s z e"
  shows "pinned s' pins P"
  using assms unfolding pinned_def by blast

lemma pinned_card:
  assumes i: "bio_ok D s H pins" and p: "pinned s pins P"
  shows "card {f. f < NBUF \<and> pins f = 0} + card P = NBUF"
proof -
  let ?Q = "{c. c < NBUF \<and> pins c = 1}" and ?F = "{f. f < NBUF \<and> pins f = 0}"
  have c: "cached s (blockno (bufs s e)) e" if "e \<in> ?Q" for e
    using that bio_okD(3) [OF i, of e] by (auto simp: buf_ok_def cached_def)
  have inj: "inj_on (\<lambda>c. blockno (bufs s c)) ?Q"
  proof (rule inj_onI)
    fix x y
    assume "x \<in> ?Q" "y \<in> ?Q" "blockno (bufs s x) = blockno (bufs s y)"
    then show "x = y" using c [of x] c [of y] bio_okD(4) [OF i, of "blockno (bufs s x)" x y] by simp
  qed
  have "(\<lambda>c. blockno (bufs s c)) ` ?Q = P"
    using p c unfolding pinned_def by (auto simp: cached_def image_iff)
  then have "card P = card ?Q" using card_image [OF inj] by simp
  moreover have "?F \<union> ?Q = {..<NBUF}" using p by (auto simp: pinned_def le_Suc_eq)
  moreover have "card (?F \<union> ?Q) = card ?F + card ?Q" by (rule card_Un_disjoint) auto
  ultimately show ?thesis by simp
qed

lemma bread_quiet:
  assumes i: "bio_ok D s H pins" and p: "pinned s pins P" and a: "\<And>b. b \<in> H \<Longrightarrow> blockno (bufs s b) \<noteq> a"
    and room: "a \<in> P \<or> card P + card H < NBUF"
  obtains b s' where "bread D a s = Ok (b, s')" "b \<notin> H" "bio_ok D s' (insert b H) pins" "cached s' a b" "bdata (bufs s' b) = view s a"
    "view s' = view s" "dev_same s s'" "pinned s' pins P" "\<And>c. c \<in> H \<Longrightarrow> bufs s' c = bufs s c" "a \<in> P \<Longrightarrow> pins b = 1"
proof -
  have "(\<exists>b. cached s a b) \<or> (\<exists>f < NBUF. f \<notin> H \<and> pins f = 0)"
  proof (cases "a \<in> P")
    case True
    then show ?thesis using p by (auto simp: pinned_def)
  next
    case False
    let ?F = "{f. f < NBUF \<and> pins f = 0}"
    have "finite H" using bio_okD(6) [OF i] by (meson finite_lessThan finite_subset lessThan_iff subsetI)
    moreover have "card H < card ?F" using False room pinned_card [OF i p] by simp
    ultimately have "\<not> ?F \<subseteq> H" by (meson card_mono not_less)
    then show ?thesis by blast
  qed
  from bread_spec [OF i a this] obtain b s' where b: "bread D a s = Ok (b, s')" "b \<notin> H" "b < NBUF" "bio_ok D s' (insert b H) pins" "cached s' a b"
    "bdata (bufs s' b) = view s a" "view s' = view s" "dev_same s s'" "\<And>c. c \<noteq> b \<Longrightarrow> bufs s' c = bufs s c" "pins b = 0 \<or> cached s a b"
    by blast
  have keep: "cached s' z e = cached s z e" if "pins e = 1" for z e
  proof (cases "e = b")
    case True
    then have "cached s a b" using that b(10) by simp
    then show ?thesis using b(5) True by (auto simp: cached_def)
  next
    case False
    then show ?thesis using b(9) by (simp add: cached_def)
  qed
  have p': "pinned s' pins P" by (rule pinned_cong [OF p keep])
  have "pins b = 1" if "a \<in> P"
  proof -
    obtain c where "cached s' a c" "pins c = 1" using p' \<open>a \<in> P\<close> by (auto simp: pinned_def)
    then show ?thesis using bio_okD(4) [OF b(4) b(5)] by blast
  qed
  moreover have "bufs s' c = bufs s c" if "c \<in> H" for c using b(2) b(9) [of c] that by blast
  ultimately show thesis using that [OF b(1,2,4-8) p'] by blast
qed

lemma bread_one:
  assumes i: "bio_ok D s {} pins" and p: "pinned s pins P" and room: "a \<in> P \<or> card P < NBUF"
  obtains b s' where "bread D a s = Ok (b, s')" "bio_ok D s' {b} pins" "cached s' a b" "bdata (bufs s' b) = view s a"
    "view s' = view s" "dev_same s s'" "pinned s' pins P"
proof -
  have r: "a \<in> P \<or> card P + card {} < NBUF" using room by simp
  show thesis by (rule bread_quiet [OF i p _ r]) (blast intro: that)+
qed

text \<open>A second buffer while the first one is held.\<close>

lemma bread_two:
  assumes i: "bio_ok D s {b} pins" and p: "pinned s pins P" and b: "cached s x b" "x \<noteq> y" and room: "y \<in> P \<or> card P + 1 < NBUF"
  obtains c s' where "bread D y s = Ok (c, s')" "c \<noteq> b" "bio_ok D s' {c, b} pins" "cached s' y c" "bdata (bufs s' c) = view s y"
    "view s' = view s" "dev_same s s'" "pinned s' pins P" "bufs s' b = bufs s b" "y \<in> P \<Longrightarrow> pins c = 1"
proof -
  have r: "y \<in> P \<or> card P + card {b} < NBUF" using room by simp
  have n: "blockno (bufs s b') \<noteq> y" if "b' \<in> {b}" for b' using that b by (simp add: cached_def)
  show thesis by (rule bread_quiet [OF i p n r]) (blast intro: that)+
qed

lemma put_block:
  assumes i: "bio_ok D s H pins" and p: "pinned s pins P" and b: "b \<in> H" "cached s a b" and x: "is_block x"
  obtains s' where "bwrite b (set_data b x s) = Ok s'" "bio_ok D s' H pins" "pinned s' pins P" "view s' = (view s)(a := x)"
    "dsk s' = (dsk s)(a := x)" "dwrites s' = dwrites s @ [(a, x)]" "cached s' = cached s" "bdata (bufs s' b) = x"
    "\<forall>c. c \<noteq> b \<longrightarrow> bufs s' c = bufs s c"
proof -
  let ?s = "set_data b x s"
  note sd = set_data_spec [OF i b(1) x] and f = bwrite_spec [OF set_data_spec(1) [OF i b(1) x] b(1)]
  have bl: "blockno (bufs s b) = a" using b(2) by (simp add: cached_def)
  have e: "bufs ?s = (bufs s)(b := (bufs s b)\<lparr>bdata := x\<rparr>)" "dsk ?s = dsk s" "dwrites ?s = dwrites s" by (simp_all add: set_data_def)
  let ?t = "?s\<lparr>dsk := (dsk s)(a := x), dwrites := dwrites s @ [(a, x)]\<rparr>"
  have c: "cached ?t = cached s" by (intro ext) (auto simp: cached_def e)
  have "bwrite b ?s = Ok ?t" "bio_ok D ?t H pins" "view ?t = view ?s" using f by (simp_all add: e bl)
  moreover have "pinned ?t pins P" by (rule pinned_cong [OF p]) (simp add: c)
  ultimately show thesis using that c sd(2) bl by (simp add: e)
qed

lemma brelse_quiet:
  assumes i: "bio_ok D s H pins" and p: "pinned s pins P" and b: "b \<in> H" and clean: "0 < pins b \<or> bdata (bufs s b) = dsk s (blockno (bufs s b))"
  obtains s' where "brelse b s = Ok s'" "bio_ok D s' (H - {b}) pins" "pinned s' pins P" "view s' = view s" "dsk s' = dsk s"
    "dwrites s' = dwrites s" "data_same s s'"
proof -
  obtain s' where s': "brelse b s = Ok s'" "bio_ok D s' (H - {b}) pins" "view s' = view s" "dev_same s s'" "data_same s s'"
    using brelse_spec [OF i b clean] .
  moreover have "pinned s' pins P" by (rule pinned_cong [OF p]) (simp add: data_sameD(1) [OF s'(5)])
  ultimately show thesis using that by (simp add: dev_same_def)
qed

lemma bunpin_quiet:
  assumes i: "bio_ok D s H pins" and p: "pinned s pins P" and b: "b \<in> H" "cached s a b" "pins b = 1"
  obtains s' where "bunpin b s = Ok s'" "bio_ok D s' H (pins(b := 0))" "pinned s' (pins(b := 0)) (P - {a})" "view s' = view s"
    "dsk s' = dsk s" "dwrites s' = dwrites s" "data_same s s'"
proof -
  have "0 < pins b" using b(3) by simp
  from bunpin_spec [OF i b(1) this] obtain s' where s': "bunpin b s = Ok s'" "bio_ok D s' H (pins(b := pins b - 1))"
    "view s' = view s" "dev_same s s'" "data_same s s'" .
  have c: "cached s' = cached s" using data_sameD(1) [OF s'(5)] by (intro ext) simp
  have "y \<in> P - {a} \<longleftrightarrow> (\<exists>c. cached s y c \<and> (pins(b := 0)) c = 1)" for y
  proof
    assume "y \<in> P - {a}"
    then obtain c where c: "cached s y c" "pins c = 1" "y \<noteq> a" using p by (auto simp: pinned_def)
    then have "c \<noteq> b" using b(2) by (auto simp: cached_def)
    with c show "\<exists>c. cached s y c \<and> (pins(b := 0)) c = 1" by auto
  next
    assume "\<exists>c. cached s y c \<and> (pins(b := 0)) c = 1"
    then obtain c where c: "cached s y c" "pins c = 1" "c \<noteq> b" by (auto split: if_splits)
    then have "y \<noteq> a" using bio_okD(4) [OF i _ b(2)] by blast
    with c show "y \<in> P - {a}" using p by (auto simp: pinned_def)
  qed
  then have "pinned s' (pins(b := 0)) (P - {a})" using p unfolding pinned_def c by simp
  with s' b(3) show thesis using that by (simp add: dev_same_def)
qed

text \<open>One block is copied to the log.\<close>

lemma write_log_step_spec:
  assumes q: "quiet D s P" and lg: "ldev lg = D" "lstart lg + of_nat tail + 1 = x" "lhblock lg ! tail = y" "tail < LOGSIZE"
    and xy: "x \<noteq> y" "y \<in> P" and room: "card P < NBUF"
  shows "\<exists>s'. write_log_step lg tail s = Ok s' \<and> quiet D s' P \<and> dsk s' = (dsk s)(x := view s y) \<and>
    dwrites s' = dwrites s @ [(x, view s y)] \<and> view s' = (view s)(x := view s y)"
proof -
  obtain pins where i: "bio_ok D s {} pins" and p: "pinned s pins P" using q by (auto simp: quiet_def)
  obtain b s1 where b: "bread D x s = Ok (b, s1)" "bio_ok D s1 {b} pins" "cached s1 x b" "view s1 = view s" "dev_same s s1" "pinned s1 pins P"
    using bread_one [OF i p disjI2 [OF room]] by metis
  obtain c s2 where c: "bread D y s1 = Ok (c, s2)" "c \<noteq> b" "bio_ok D s2 {c, b} pins" "cached s2 y c"
    "bdata (bufs s2 c) = view s1 y" "view s2 = view s1" "dev_same s1 s2" "pinned s2 pins P" "bufs s2 b = bufs s1 b" "pins c = 1"
    using bread_two [OF b(2,6,3) xy(1) disjI1 [OF xy(2)]] xy(2) by metis
  note c = c(1-4) c(5,6) [unfolded b(4)] c(7-)
  have cb: "cached s2 x b" using b(3) c(9) by (simp add: cached_def)
  have blk: "is_block (view s y)" by (rule is_block_view [OF i])
  obtain s3 where s3: "bwrite b (set_data b (view s y) s2) = Ok s3" "bio_ok D s3 {c, b} pins" "pinned s3 pins P" "view s3 = (view s2)(x := view s y)"
    "dsk s3 = (dsk s2)(x := view s y)" "dwrites s3 = dwrites s2 @ [(x, view s y)]" "cached s3 = cached s2" "bdata (bufs s3 b) = view s y"
    using put_block [OF c(3,8) _ cb blk] by auto
  obtain s4 where s4: "brelse c s3 = Ok s4" "bio_ok D s4 ({c, b} - {c}) pins" "pinned s4 pins P" "view s4 = view s3" "dsk s4 = dsk s3"
    "dwrites s4 = dwrites s3" "data_same s3 s4"
    using brelse_quiet [OF s3(2,3), of c] c(10) by auto
  have "bdata (bufs s4 b) = dsk s4 (blockno (bufs s4 b))"
    using data_sameD(2,3) [OF s4(7)] s3(5,8) s4(5) cb s3(7) by (metis cached_def fun_upd_same)
  then obtain s5 where s5: "brelse b s4 = Ok s5" "bio_ok D s5 ({c, b} - {c} - {b}) pins" "pinned s5 pins P" "view s5 = view s4" "dsk s5 = dsk s4"
    "dwrites s5 = dwrites s4"
    using brelse_quiet [OF s4(2,3), of b] c(2) by auto
  have e: "{c, b} - {c} - {b} = {}" by auto
  have "quiet D s5 P" using s5(2) [unfolded e] s5(3) by (auto simp: quiet_def)
  moreover have "write_log_step lg tail s = Ok s5" using lg b(1) c(1,5) s3(1) s4(1) s5(1) by (simp add: write_log_step_def)
  ultimately show ?thesis using s5(4-6) s4(4-6) s3(4-6) c(6,7) b(5) by (auto simp: dev_same_def)
qed

text \<open>One block is copied from the log to its home location; after \<open>commit\<close> it is not pinned any more.\<close>

lemma install_step_spec:
  assumes q: "quiet D s P" and lg: "ldev lg = D" "lstart lg + of_nat tail + 1 = x" "lhblock lg ! tail = y" "tail < LOGSIZE"
    and xy: "x \<noteq> y" "view s x = dsk s x" and room: "if recovering then card P + 1 < NBUF else y \<in> P \<and> card P < NBUF"
  shows "\<exists>s'. install_step lg recovering tail s = Ok s' \<and> quiet D s' (if recovering then P else P - {y}) \<and> dsk s' = (dsk s)(y := view s x) \<and>
    dwrites s' = dwrites s @ [(y, view s x)] \<and> view s' = (view s)(y := view s x)"
proof -
  obtain pins where i: "bio_ok D s {} pins" and p: "pinned s pins P" using q by (auto simp: quiet_def)
  have r: "card P < NBUF" "y \<in> P \<or> card P + 1 < NBUF" using room by (auto split: if_splits)
  obtain b s1 where b: "bread D x s = Ok (b, s1)" "bio_ok D s1 {b} pins" "cached s1 x b" "bdata (bufs s1 b) = view s x"
    "view s1 = view s" "dev_same s s1" "pinned s1 pins P"
    using bread_one [OF i p disjI2 [OF r(1)]] by metis
  obtain c s2 where c: "bread D y s1 = Ok (c, s2)" "c \<noteq> b" "bio_ok D s2 {c, b} pins" "cached s2 y c"
    "view s2 = view s1" "dev_same s1 s2" "pinned s2 pins P" "bufs s2 b = bufs s1 b" "y \<in> P \<Longrightarrow> pins c = 1"
    using bread_two [OF b(2,7,3) xy(1) r(2)] by metis
  have cb: "cached s2 x b" using b(3) c(8) by (simp add: cached_def)
  have blk: "is_block (view s x)" by (rule is_block_view [OF i])
  obtain s3 where s3: "bwrite c (set_data c (view s x) s2) = Ok s3" "bio_ok D s3 {c, b} pins" "pinned s3 pins P" "view s3 = (view s2)(y := view s x)"
    "dsk s3 = (dsk s2)(y := view s x)" "dwrites s3 = dwrites s2 @ [(y, view s x)]" "cached s3 = cached s2" "bdata (bufs s3 c) = view s x"
    "\<forall>e. e \<noteq> c \<longrightarrow> bufs s3 e = bufs s2 e"
    using put_block [OF c(3,7) insertI1 c(4) blk] .
  let ?P = "if recovering then P else P - {y}" and ?pins = "if recovering then pins else pins(c := 0)"
  have "\<exists>s4. (if \<not> recovering then bunpin c s3 else Ok s3) = Ok s4 \<and> bio_ok D s4 {c, b} ?pins \<and> pinned s4 ?pins ?P \<and>
    view s4 = view s3 \<and> dsk s4 = dsk s3 \<and> dwrites s4 = dwrites s3 \<and> data_same s3 s4"
  proof (cases recovering)
    case True
    then show ?thesis using s3(2,3) by (simp add: data_same_def)
  next
    case False
    then have p1: "pins c = 1" using room c(9) by simp
    have "cached s3 y c" using c(4) s3(7) by simp
    from bunpin_quiet [OF s3(2,3) insertI1 this p1] obtain s4 where "bunpin c s3 = Ok s4" "bio_ok D s4 {c, b} (pins(c := 0))"
      "pinned s4 (pins(c := 0)) (P - {y})" "view s4 = view s3" "dsk s4 = dsk s3" "dwrites s4 = dwrites s3" "data_same s3 s4" .
    then show ?thesis using False by (intro exI [of _ s4]) simp
  qed
  then obtain s4 where s4: "(if \<not> recovering then bunpin c s3 else Ok s3) = Ok s4" "bio_ok D s4 {c, b} ?pins" "pinned s4 ?pins ?P"
    "view s4 = view s3" "dsk s4 = dsk s3" "dwrites s4 = dwrites s3" "data_same s3 s4" by blast
  have bb: "bdata (bufs s4 b) = view s x" "blockno (bufs s4 b) = x" "bdata (bufs s4 c) = view s x" "blockno (bufs s4 c) = y"
  proof -
    have "cached s3 y c" "bufs s3 b = bufs s1 b" using c(4) c(8) s3(7) s3(9) [THEN spec, of b] c(2) by auto
    then show "bdata (bufs s4 b) = view s x" "blockno (bufs s4 b) = x" "bdata (bufs s4 c) = view s x" "blockno (bufs s4 c) = y"
      unfolding data_sameD(2,3) [OF s4(7)] using s3(8) b(3,4) by (simp_all add: cached_def)
  qed
  have dx: "dsk s4 x = view s x" "dsk s4 y = view s x"
    using s4(5) s3(5) xy c(6) b(6) by (simp_all add: dev_same_def)
  have "bdata (bufs s4 b) = dsk s4 (blockno (bufs s4 b))" using bb(1,2) dx(1) by simp
  then obtain s5 where s5: "brelse b s4 = Ok s5" "bio_ok D s5 ({c, b} - {b}) ?pins" "pinned s5 ?pins ?P" "view s5 = view s4" "dsk s5 = dsk s4"
    "dwrites s5 = dwrites s4" "data_same s4 s5"
    using brelse_quiet [OF s4(2,3), of b] by auto
  have "bdata (bufs s5 c) = dsk s5 (blockno (bufs s5 c))" using data_sameD(2,3) [OF s5(7)] bb(3,4) dx(2) s5(5) by simp
  then obtain s6 where s6: "brelse c s5 = Ok s6" "bio_ok D s6 ({c, b} - {b} - {c}) ?pins" "pinned s6 ?pins ?P" "view s6 = view s5" "dsk s6 = dsk s5"
    "dwrites s6 = dwrites s5"
    using brelse_quiet [OF s5(2,3), of c] c(2) by auto
  have e: "{c, b} - {b} - {c} = {}" by auto
  have "quiet D s6 ?P" using s6(2) [unfolded e] s6(3) unfolding quiet_def by blast
  moreover have "install_step lg recovering tail s = Ok s6"
    using lg b(1,4) c(1,8) s3(1) s4(1) s5(1) s6(1) by (simp add: install_step_def)
  ultimately show ?thesis using s6(4-6) s5(4-6) s4(4-6) s3(4-6) c(5,6) b(5,6) by (auto simp: dev_same_def)
qed

text \<open>The header block.\<close>

definition head_of :: "log \<Rightarrow> block \<Rightarrow> block" where
  "head_of lg x = fold (\<lambda>i x. put32 (i + 1) (lhblock lg ! i) x) [0..<nat (lhn lg)] (put32 0 (word_of_int (lhn lg)) x)"

lemma head_loop:
  assumes "is_block x" "n \<le> 255"
  shows "is_block (fold (\<lambda>i x. put32 (i + 1) (f i) x) [0..<n] x) \<and>
    (\<forall>j < 256. get32 (fold (\<lambda>i x. put32 (i + 1) (f i) x) [0..<n] x) j = (if 0 < j \<and> j \<le> n then f (j - 1) else get32 x j))"
  using assms(2)
proof (induction n)
  case 0
  then show ?case using assms(1) by simp
next
  case (Suc n)
  then have IH: "is_block (fold (\<lambda>i x. put32 (i + 1) (f i) x) [0..<n] x)"
    "\<And>j. j < 256 \<Longrightarrow> get32 (fold (\<lambda>i x. put32 (i + 1) (f i) x) [0..<n] x) j = (if 0 < j \<and> j \<le> n then f (j - 1) else get32 x j)"
    by auto
  have l: "n + 1 < 256" using Suc.prems by simp
  show ?case
    using is_block_put32 [OF IH(1) l] get32_put32 [OF IH(1) l] IH(2) by (auto simp: upt_Suc le_Suc_eq)
qed

lemma head_of_spec:
  assumes "is_block x" "0 \<le> lhn lg" "lhn lg \<le> int LOGSIZE"
  shows "is_block (head_of lg x)" "sint (get32 (head_of lg x) 0) = lhn lg" "i < nat (lhn lg) \<Longrightarrow> get32 (head_of lg x) (i + 1) = lhblock lg ! i"
proof -
  let ?x = "put32 0 (word_of_int (lhn lg)) x"
  have x: "is_block ?x" "get32 ?x 0 = word_of_int (lhn lg)" using assms(1) by (simp_all add: is_block_put32 get32_put32)
  have n: "nat (lhn lg) \<le> 30" using assms(3) by (simp add: LOGSIZE_def MAXOPBLOCKS_def)
  then have l: "nat (lhn lg) \<le> 255" by simp
  note h = head_loop [OF x(1) l, of "\<lambda>i. lhblock lg ! i"]
  show "is_block (head_of lg x)" using h by (simp add: head_of_def)
  have "sint (word_of_int (lhn lg) :: u32) = lhn lg" using n assms(2) by (simp add: signed_of_int signed_take_bit_int_eq_self)
  then show "sint (get32 (head_of lg x) 0) = lhn lg" using h x(2) by (simp add: head_of_def)
  show "get32 (head_of lg x) (i + 1) = lhblock lg ! i" if "i < nat (lhn lg)" using h that n by (simp add: head_of_def)
qed

lemma write_head_spec:
  assumes q: "quiet D s P" and lg: "ldev lg = D" "0 \<le> lhn lg" "lhn lg \<le> int LOGSIZE" and room: "card P < NBUF"
  shows "\<exists>s'. write_head lg s = Ok s' \<and> quiet D s' P \<and> dsk s' = (dsk s)(lstart lg := head_of lg (view s (lstart lg))) \<and>
    dwrites s' = dwrites s @ [(lstart lg, head_of lg (view s (lstart lg)))] \<and>
    view s' = (view s)(lstart lg := head_of lg (view s (lstart lg)))"
proof -
  let ?x = "lstart lg"
  obtain pins where i: "bio_ok D s {} pins" and p: "pinned s pins P" using q by (auto simp: quiet_def)
  obtain b s1 where b: "bread D ?x s = Ok (b, s1)" "bio_ok D s1 {b} pins" "cached s1 ?x b" "bdata (bufs s1 b) = view s ?x"
    "view s1 = view s" "dev_same s s1" "pinned s1 pins P"
    using bread_one [OF i p disjI2 [OF room]] by metis
  let ?h = "head_of lg (view s ?x)"
  have blk: "is_block ?h" by (rule head_of_spec(1) [OF is_block_view [OF i] lg(2,3)])
  obtain s2 where s2: "bwrite b (set_data b ?h s1) = Ok s2" "bio_ok D s2 {b} pins" "pinned s2 pins P" "view s2 = (view s1)(?x := ?h)"
    "dsk s2 = (dsk s1)(?x := ?h)" "dwrites s2 = dwrites s1 @ [(?x, ?h)]" "cached s2 = cached s1" "bdata (bufs s2 b) = ?h"
    using put_block [OF b(2,7) _ b(3) blk] by auto
  have "blockno (bufs s2 b) = ?x" using b(3) fun_cong [OF fun_cong [OF s2(7)], of ?x b] by (auto simp: cached_def)
  then have "bdata (bufs s2 b) = dsk s2 (blockno (bufs s2 b))" using s2(5,8) by simp
  then obtain s3 where s3: "brelse b s2 = Ok s3" "bio_ok D s3 ({b} - {b}) pins" "pinned s3 pins P" "view s3 = view s2" "dsk s3 = dsk s2"
    "dwrites s3 = dwrites s2"
    using brelse_quiet [OF s2(2,3), of b] by auto
  have "quiet D s3 P" using s3(2,3) by (auto simp: quiet_def)
  moreover have "write_head lg s = Ok s3" using lg b(1,4) s2(1) s3(1) by (simp add: write_head_def head_of_def Let_def)
  ultimately show ?thesis using s3(4-6) s2(4-6) b(5,6) by (auto simp: dev_same_def)
qed

end
