(* ===== verification/Log_Crash.thy ===== *)
theory Log_Crash
  imports Log_Steps
begin

text \<open>
  The log makes a transaction atomic: after a power failure at any point of \<open>commit\<close> recovery leaves either
  all or none of its blocks on the disk, also when recovery itself is interrupted any number of times. A disk
  write is taken to be atomic and durable for one block.
\<close>

section \<open>Sequences of disk writes\<close>

definition apply_writes :: "(u32 \<times> block) list \<Rightarrow> (u32 \<Rightarrow> block) \<Rightarrow> u32 \<Rightarrow> block" where
  "apply_writes ws d = fold (\<lambda>(a, x) d. d(a := x)) ws d"

lemma apply_Nil [simp]: "apply_writes [] d = d"
  by (simp add: apply_writes_def)

lemma apply_Cons [simp]: "apply_writes ((a, x) # ws) d = apply_writes ws (d(a := x))"
  by (simp add: apply_writes_def)

lemma apply_append: "apply_writes (ws @ ws') d = apply_writes ws' (apply_writes ws d)"
  by (simp add: apply_writes_def)

lemma apply_out: "a \<notin> fst ` set ws \<Longrightarrow> apply_writes ws d a = d a"
  by (induction ws arbitrary: d) auto

lemma apply_value:
  assumes "\<And>b x. (b, x) \<in> set ws \<Longrightarrow> b = a \<Longrightarrow> x = v" "a \<in> fst ` set ws \<or> d a = v"
  shows "apply_writes ws d a = v"
  using assms
proof (induction ws arbitrary: d)
  case (Cons w ws)
  obtain b x where w: "w = (b, x)" by (cases w)
  have "apply_writes ws (d(b := x)) a = v"
  proof (rule Cons.IH)
    show "y = v" if "(c, y) \<in> set ws" "c = a" for c y using Cons.prems(1) [of c y] that by simp
    show "a \<in> fst ` set ws \<or> (d(b := x)) a = v" using Cons.prems(1) [of b x] Cons.prems(2) w by auto
  qed
  then show ?case using w by simp
qed simp

text \<open>From \<open>s\<close> to \<open>s'\<close> the blocks \<open>ws\<close> have been written, to the disk and to the contents that are seen.\<close>

definition wrote :: "fsys \<Rightarrow> (u32 \<times> block) list \<Rightarrow> fsys \<Rightarrow> bool" where
  "wrote s ws s' \<longleftrightarrow> dsk s' = apply_writes ws (dsk s) \<and> dwrites s' = dwrites s @ ws \<and> view s' = apply_writes ws (view s)"

lemma wrote_Nil [simp]: "wrote s [] s"
  by (simp add: wrote_def)

lemma wrote_trans: "wrote s ws s1 \<Longrightarrow> wrote s1 ws' s2 \<Longrightarrow> wrote s (ws @ ws') s2"
  by (simp add: wrote_def apply_append)

section \<open>commit\<close>

definition lblk :: "u32 \<Rightarrow> nat \<Rightarrow> u32" where
  "lblk start i = start + of_nat i + 1"

text \<open>The blocks of the log: the header and \<open>k\<close> data blocks.\<close>

definition logarea :: "u32 \<Rightarrow> nat \<Rightarrow> u32 set" where
  "logarea start k = insert start (lblk start ` {..<k})"

lemma lblk_inj: "i < 2 ^ 31 \<Longrightarrow> j < 2 ^ 31 \<Longrightarrow> lblk start i = lblk start j \<longleftrightarrow> i = j"
proof -
  assume "i < 2 ^ 31" "j < 2 ^ 31"
  then have "unat (of_nat i :: u32) = i" "unat (of_nat j :: u32) = j" by (simp_all add: unat_of_nat take_bit_nat_eq_self)
  then show ?thesis unfolding lblk_def by (metis add.commute add_left_cancel)
qed

lemma lblk_start: "i < 2 ^ 31 \<Longrightarrow> lblk start i \<noteq> start"
proof
  assume i: "i < 2 ^ 31" and "lblk start i = start"
  then have "(of_nat (Suc i) :: u32) = 0" by (simp add: lblk_def add.commute add.left_commute)
  then show False using of_nat32_0 [of "Suc i"] i by simp
qed

lemma lblk_area: "i < k \<Longrightarrow> lblk start i \<in> logarea start k"
  by (simp add: logarea_def)

text \<open>A transaction that is ready to commit. \<open>k\<close> is the number of data blocks of the log.\<close>

abbreviation logged :: "log \<Rightarrow> u32 list" where
  "logged lg \<equiv> take (nat (lhn lg)) (lhblock lg)"

definition txn_ok :: "u32 \<Rightarrow> nat \<Rightarrow> log \<Rightarrow> fsys \<Rightarrow> bool" where
  "txn_ok D k lg s \<longleftrightarrow>
     quiet D s (set (logged lg)) \<and> ldev lg = D \<and> D \<noteq> 0 \<and> 0 \<le> lhn lg \<and> lhn lg \<le> int k \<and> k < NBUF \<and> length (lhblock lg) = LOGSIZE \<and>
     distinct (logged lg) \<and> set (logged lg) \<inter> logarea (lstart lg) k = {} \<and>
     (\<forall>a. a \<notin> set (logged lg) \<longrightarrow> view s a = dsk s a) \<and> sint (get32 (dsk s (lstart lg)) 0) = 0"

lemma txnD:
  assumes "txn_ok D k lg s"
  shows "quiet D s (set (logged lg))" "ldev lg = D" "D \<noteq> 0" "0 \<le> lhn lg" "lhn lg \<le> int k" "k < NBUF" "length (lhblock lg) = LOGSIZE"
    "distinct (logged lg)" "set (logged lg) \<inter> logarea (lstart lg) k = {}" "a \<notin> set (logged lg) \<Longrightarrow> view s a = dsk s a"
    "sint (get32 (dsk s (lstart lg)) 0) = 0" "nat (lhn lg) \<le> k" "nat (lhn lg) < NBUF" "nat (lhn lg) \<le> LOGSIZE"
    "card (set (logged lg)) = nat (lhn lg)" "length (logged lg) = nat (lhn lg)"
proof -
  have l: "length (lhblock lg) = LOGSIZE" "distinct (logged lg)" "0 \<le> lhn lg" "lhn lg \<le> int k" "k < NBUF"
    using assms by (simp_all add: txn_ok_def)
  show "nat (lhn lg) \<le> k" "nat (lhn lg) < NBUF" using l(3-5) by simp_all
  have n: "nat (lhn lg) \<le> LOGSIZE" using l(3-5) by (simp add: NBUF_def LOGSIZE_def MAXOPBLOCKS_def)
  show "nat (lhn lg) \<le> LOGSIZE" by (rule n)
  show m: "length (logged lg) = nat (lhn lg)" using l(1) n by simp
  show "card (set (logged lg)) = nat (lhn lg)" using distinct_card [OF l(2)] m by simp
qed (use assms in \<open>simp_all add: txn_ok_def\<close>)

text \<open>The writes of the three phases.\<close>

definition log_writes :: "log \<Rightarrow> (u32 \<Rightarrow> block) \<Rightarrow> nat \<Rightarrow> (u32 \<times> block) list" where
  "log_writes lg V n = map (\<lambda>i. (lblk (lstart lg) i, V (lhblock lg ! i))) [0..<n]"

definition home_writes :: "log \<Rightarrow> (u32 \<Rightarrow> block) \<Rightarrow> nat \<Rightarrow> (u32 \<times> block) list" where
  "home_writes lg V n = map (\<lambda>i. (lhblock lg ! i, V (lhblock lg ! i))) [0..<n]"

lemma log_writes_Suc: "log_writes lg V (Suc n) = log_writes lg V n @ [(lblk (lstart lg) n, V (lhblock lg ! n))]"
  by (simp add: log_writes_def upt_Suc)

lemma home_writes_Suc: "home_writes lg V (Suc n) = home_writes lg V n @ [(lhblock lg ! n, V (lhblock lg ! n))]"
  by (simp add: home_writes_def upt_Suc)

lemma home_writes_keys: "n \<le> length (lhblock lg) \<Longrightarrow> fst ` set (home_writes lg V n) = set (take n (lhblock lg))"
proof -
  assume "n \<le> length (lhblock lg)"
  then have "map fst (home_writes lg V n) = take n (lhblock lg)" by (intro nth_equalityI) (simp_all add: home_writes_def)
  then show ?thesis by (metis list.set_map)
qed

lemma write_log_spec:
  assumes t: "txn_ok D k lg s"
  shows "\<exists>s'. write_log lg s = Ok s' \<and> quiet D s' (set (logged lg)) \<and> wrote s (log_writes lg (view s) (nat (lhn lg))) s'"
proof -
  note d = txnD [OF t]
  let ?V = "view s" and ?I = "\<lambda>i s1. quiet D s1 (set (logged lg)) \<and> wrote s (log_writes lg (view s) i) s1"
  have "\<exists>s'. for_each (write_log_step lg) [0..<nat (lhn lg)] s = Ok s' \<and> ?I (nat (lhn lg)) s'"
  proof (rule for_each_upt_rule [where I = ?I])
    show "?I 0 s" using d(1) by (simp add: log_writes_def)
    fix i s1
    assume i: "i < nat (lhn lg)" and I: "?I i s1"
    let ?y = "lhblock lg ! i" and ?x = "lblk (lstart lg) i"
    have y: "?y \<in> set (logged lg)" using i d(14,16) by (metis nth_mem nth_take)
    have xy: "?x \<noteq> ?y" using y d(9) lblk_area [of i k "lstart lg"] i d(12) by (metis disjoint_iff less_le_trans)
    have "fst ` set (log_writes lg ?V i) \<subseteq> logarea (lstart lg) k" using i d(12) by (auto simp: log_writes_def intro!: lblk_area)
    then have "view s1 ?y = ?V ?y" using I y d(9) by (auto simp: wrote_def intro!: apply_out)
    moreover have "i < LOGSIZE" "card (set (logged lg)) < NBUF" using i d(13-15) by simp_all
    from write_log_step_spec [OF conjunct1 [OF I] d(2) lblk_def [symmetric] refl this(1) xy y this(2)]
    obtain s2 where "write_log_step lg i s1 = Ok s2" "quiet D s2 (set (logged lg))" "dsk s2 = (dsk s1)(?x := view s1 ?y)"
      "dwrites s2 = dwrites s1 @ [(?x, view s1 ?y)]" "view s2 = (view s1)(?x := view s1 ?y)" by blast
    ultimately have s2: "write_log_step lg i s1 = Ok s2" "quiet D s2 (set (logged lg))" "dsk s2 = (dsk s1)(?x := ?V ?y)"
      "dwrites s2 = dwrites s1 @ [(?x, ?V ?y)]" "view s2 = (view s1)(?x := ?V ?y)" by simp_all
    then have "wrote s1 [(?x, ?V ?y)] s2" by (simp add: wrote_def)
    with I have "wrote s (log_writes lg ?V (Suc i)) s2" unfolding log_writes_Suc by (blast intro: wrote_trans)
    with s2(1,2) show "\<exists>s'. write_log_step lg i s1 = Ok s' \<and> ?I (Suc i) s'" by blast
  qed simp
  then show ?thesis by (simp add: write_log_def)
qed

lemma install_spec:
  assumes q: "quiet D s P" and lg: "ldev lg = D" "nat (lhn lg) \<le> LOGSIZE" "length (lhblock lg) = LOGSIZE"
    and clean: "\<And>i. i < nat (lhn lg) \<Longrightarrow> view s (lblk (lstart lg) i) = dsk s (lblk (lstart lg) i)"
    and home: "set (logged lg) \<inter> logarea (lstart lg) (nat (lhn lg)) = {}"
    and room: "if recovering then card P + 1 < NBUF else P = set (logged lg) \<and> distinct (logged lg) \<and> card P < NBUF"
  shows "\<exists>s'. install_trans lg recovering s = Ok s' \<and> quiet D s' (if recovering then P else {}) \<and>
    wrote s (map (\<lambda>i. (lhblock lg ! i, view s (lblk (lstart lg) i))) [0..<nat (lhn lg)]) s'"
proof -
  let ?n = "nat (lhn lg)" and ?w = "\<lambda>i. (lhblock lg ! i, view s (lblk (lstart lg) i))"
  let ?P = "\<lambda>i. if recovering then P else P - set (take i (lhblock lg))"
  let ?I = "\<lambda>i s1. quiet D s1 (?P i) \<and> wrote s (map ?w [0..<i]) s1"
  have len: "length (logged lg) = ?n" using lg(2,3) by simp
  have mem: "lhblock lg ! i \<in> set (logged lg)" if "i < ?n" for i using that len by (metis nth_mem nth_take)
  have "\<exists>s'. for_each (install_step lg recovering) [0..<?n] s = Ok s' \<and> ?I ?n s'"
  proof (rule for_each_upt_rule [where I = ?I])
    show "?I 0 s" using q by simp
    fix i s1
    assume i: "i < ?n" and I: "?I i s1"
    let ?y = "lhblock lg ! i" and ?x = "lblk (lstart lg) i"
    have ar: "?x \<in> logarea (lstart lg) ?n" using i by (rule lblk_area)
    have xy: "?x \<noteq> ?y" using mem [OF i] ar home by (metis disjoint_iff)
    have "?x \<notin> fst ` set (map ?w [0..<i])" using ar home mem i by (auto simp: disjoint_iff)
    then have v: "view s1 ?x = view s ?x" "dsk s1 ?x = dsk s ?x" using I apply_out by (simp_all add: wrote_def)
    have r: "if recovering then card (?P i) + 1 < NBUF else ?y \<in> ?P i \<and> card (?P i) < NBUF"
    proof (cases recovering)
      case True
      then show ?thesis using room by simp
    next
      case False
      then have p: "P = set (logged lg)" "distinct (logged lg)" "card P < NBUF" using room by auto
      have "?y \<notin> set (take i (lhblock lg))"
        using p(2) i len nth_eq_iff_index_eq [OF p(2)] by (auto simp: in_set_conv_nth)
      moreover have "card (P - set (take i (lhblock lg))) \<le> card P" using p(1) by (intro card_mono) auto
      ultimately show ?thesis using False p mem [OF i] by auto
    qed
    have "i < LOGSIZE" "view s1 ?x = dsk s1 ?x" using i lg(2) v clean [OF i] by simp_all
    from install_step_spec [OF conjunct1 [OF I] lg(1) lblk_def [symmetric] refl this(1) xy this(2) r]
    obtain s2 where s2: "install_step lg recovering i s1 = Ok s2" "quiet D s2 (if recovering then ?P i else ?P i - {?y})"
      "dsk s2 = (dsk s1)(?y := view s ?x)" "dwrites s2 = dwrites s1 @ [(?y, view s ?x)]" "view s2 = (view s1)(?y := view s ?x)"
      unfolding v(1) by blast
    have "(if recovering then ?P i else ?P i - {?y}) = ?P (Suc i)"
      using i lg(2,3) by (auto simp: take_Suc_conv_app_nth)
    moreover have "wrote s1 [?w i] s2" using s2(3-5) by (simp add: wrote_def)
    then have "wrote s (map ?w [0..<Suc i]) s2" using I wrote_trans [of s "map ?w [0..<i]" s1 "[?w i]" s2] by (simp add: upt_Suc)
    ultimately show "\<exists>s'. install_step lg recovering i s1 = Ok s' \<and> ?I (Suc i) s'" using s2(1,2) by auto
  qed simp
  moreover have "(if recovering then P else P - set (take ?n (lhblock lg))) = (if recovering then P else {})" using room by auto
  ultimately show ?thesis by (simp add: install_trans_def)
qed

text \<open>The disk writes of a commit, in order.\<close>

definition commit_writes :: "log \<Rightarrow> (u32 \<Rightarrow> block) \<Rightarrow> (u32 \<times> block) list" where
  "commit_writes lg V =
     (let n = nat (lhn lg); h = head_of lg (V (lstart lg))
      in log_writes lg V n @ [(lstart lg, h)] @ home_writes lg V n @ [(lstart lg, head_of (lg\<lparr>lhn := 0\<rparr>) h)])"

lemma commit_spec:
  assumes t: "txn_ok D k lg s" and n: "0 < lhn lg"
  shows "\<exists>s'. commit lg s = Ok (lg\<lparr>lhn := 0\<rparr>, s') \<and> quiet D s' {} \<and> wrote s (commit_writes lg (view s)) s'"
proof -
  note d = txnD [OF t]
  let ?V = "view s" and ?n = "nat (lhn lg)" and ?st = "lstart lg" and ?h = "head_of lg (view s (lstart lg))"
  have n31: "?n < 2 ^ 31" using d(13) by (simp add: NBUF_def)
  obtain s1 where s1: "write_log lg s = Ok s1" "quiet D s1 (set (logged lg))" "wrote s (log_writes lg ?V ?n) s1"
    using write_log_spec [OF t] by blast
  have "?st \<notin> fst ` set (log_writes lg ?V ?n)" using lblk_start [of _ ?st] n31 by (auto simp: log_writes_def) (metis less_trans)
  then have v1: "view s1 ?st = ?V ?st" using s1(3) by (simp add: wrote_def apply_out)
  have le: "lhn lg \<le> int LOGSIZE" "card (set (logged lg)) < NBUF" using d(4,13-15) by simp_all
  obtain s2 where s2: "write_head lg s1 = Ok s2" "quiet D s2 (set (logged lg))" "wrote s1 [(?st, ?h)] s2"
    using write_head_spec [OF s1(2) d(2,4) le] unfolding v1 wrote_def by auto
  have w2: "wrote s (log_writes lg ?V ?n @ [(?st, ?h)]) s2" using wrote_trans [OF s1(3) s2(3)] .
  have v2: "view s2 (lblk ?st i) = ?V (lhblock lg ! i)" "dsk s2 (lblk ?st i) = ?V (lhblock lg ! i)" if i: "i < ?n" for i
  proof -
    have "lblk ?st i \<noteq> ?st" using lblk_start i n31 by simp
    moreover have "apply_writes (log_writes lg ?V ?n) f (lblk ?st i) = ?V (lhblock lg ! i)" for f
      by (rule apply_value) (use i n31 lblk_inj in \<open>auto simp: log_writes_def image_iff\<close>)
    ultimately show "view s2 (lblk ?st i) = ?V (lhblock lg ! i)" "dsk s2 (lblk ?st i) = ?V (lhblock lg ! i)"
      using w2 by (simp_all add: wrote_def apply_append)
  qed
  have "logarea ?st ?n \<subseteq> logarea ?st k" using d(12) by (auto simp: logarea_def)
  then have home: "set (logged lg) \<inter> logarea ?st ?n = {}" using d(9) by blast
  have "\<exists>s'. install_trans lg False s2 = Ok s' \<and> quiet D s' (if False then set (logged lg) else {}) \<and>
    wrote s2 (map (\<lambda>i. (lhblock lg ! i, view s2 (lblk ?st i))) [0..<?n]) s'"
    by (rule install_spec [OF s2(2) d(2,14,7) _ home]) (use v2 d(8) le in auto)
  moreover have "map (\<lambda>i. (lhblock lg ! i, view s2 (lblk ?st i))) [0..<?n] = home_writes lg ?V ?n"
    using v2(1) by (auto simp: home_writes_def)
  ultimately obtain s3 where s3: "install_trans lg False s2 = Ok s3" "quiet D s3 {}" "wrote s2 (home_writes lg ?V ?n) s3" by auto
  have w3: "wrote s (log_writes lg ?V ?n @ [(?st, ?h)] @ home_writes lg ?V ?n) s3" using wrote_trans [OF w2 s3(3)] by simp
  have "?st \<in> logarea ?st k" by (simp add: logarea_def)
  then have "?st \<notin> set (logged lg)" using d(9) by blast
  then have "?st \<notin> fst ` set (home_writes lg ?V ?n)" using home_writes_keys [of ?n lg ?V] d(7,14) by simp
  then have v3: "view s3 ?st = ?h" using w3 apply_out by (simp add: wrote_def apply_append)
  have "card ({} :: u32 set) < NBUF" by (simp add: NBUF_def)
  then obtain s4 where s4: "write_head (lg\<lparr>lhn := 0\<rparr>) s3 = Ok s4" "quiet D s4 {}" "wrote s3 [(?st, head_of (lg\<lparr>lhn := 0\<rparr>) ?h)] s4"
    using write_head_spec [OF s3(2), of "lg\<lparr>lhn := 0\<rparr>"] d(2) unfolding wrote_def by (auto simp: v3)
  have "wrote s (commit_writes lg ?V) s4" using wrote_trans [OF w3 s4(3)] by (simp add: commit_writes_def Let_def)
  moreover have "commit lg s = Ok (lg\<lparr>lhn := 0\<rparr>, s4)" using n s1(1) s2(1) s3(1) s4(1) by (simp add: commit_def Let_def)
  ultimately show ?thesis using s4(2) by blast
qed

end
