(* ===== verification/Log_Recovery.thy ===== *)
theory Log_Recovery
  imports Log_Crash
begin

text \<open>
  Recovery of the log after a power failure, and the atomicity of a commit.
\<close>

section \<open>What recovery makes of a disk\<close>

definition hn :: "block \<Rightarrow> nat" where
  "hn h = nat (sint (get32 h 0))"

definition hblk :: "block \<Rightarrow> nat \<Rightarrow> u32" where
  "hblk h i = get32 h (i + 1)"

definition redo :: "u32 \<Rightarrow> (u32 \<Rightarrow> block) \<Rightarrow> (u32 \<times> block) list" where
  "redo start d = map (\<lambda>i. (hblk (d start) i, d (lblk start i))) [0..<hn (d start)]"

definition logical :: "u32 \<Rightarrow> (u32 \<Rightarrow> block) \<Rightarrow> u32 \<Rightarrow> block" where
  "logical start d = apply_writes (redo start d) d"

text \<open>The header on the disk describes blocks outside the log.\<close>

definition head_ok :: "u32 \<Rightarrow> nat \<Rightarrow> (u32 \<Rightarrow> block) \<Rightarrow> bool" where
  "head_ok start k d \<longleftrightarrow> (\<forall>a. is_block (d a)) \<and> sint (get32 (d start) 0) \<le> int k \<and>
     (\<forall>i < hn (d start). hblk (d start) i \<notin> logarea start k)"

lemma apply_in: "a \<in> fst ` set ws \<Longrightarrow> apply_writes ws d a = apply_writes ws d' a"
proof (induction ws arbitrary: d d')
  case (Cons w ws)
  obtain b x where w: "w = (b, x)" by (cases w)
  show ?case
  proof (cases "a \<in> fst ` set ws")
    case True
    then show ?thesis using Cons.IH [OF True] w by simp
  next
    case False
    then show ?thesis using Cons.prems w by (simp add: apply_out)
  qed
qed simp

lemma apply_blocks: "(\<And>a. is_block (d a)) \<Longrightarrow> (\<And>a x. (a, x) \<in> set ws \<Longrightarrow> is_block x) \<Longrightarrow> is_block (apply_writes ws d a)"
proof (induction ws arbitrary: d)
  case (Cons w ws)
  obtain b x where w: "w = (b, x)" by (cases w)
  have "is_block (apply_writes ws (d(b := x)) a)" by (rule Cons.IH) (use Cons.prems w in auto)
  then show ?case using w by simp
qed simp

lemma redo_keys: "head_ok start k d \<Longrightarrow> fst ` set (redo start d) \<inter> logarea start k = {}"
  by (auto simp: redo_def head_ok_def)

lemma hn_le: "head_ok start k d \<Longrightarrow> hn (d start) \<le> k"
  by (auto simp: head_ok_def hn_def nat_le_iff)

lemma logical_empty: "hn (d start) = 0 \<Longrightarrow> logical start d = d"
  by (simp add: logical_def redo_def)

lemma redo_same:
  assumes "d' start = d start" "\<And>i. i < hn (d start) \<Longrightarrow> d' (lblk start i) = d (lblk start i)"
  shows "redo start d' = redo start d"
  using assms by (simp add: redo_def)

text \<open>Any first part of the writes of a recovery keeps what the next recovery will find.\<close>

lemma redo_prefix:
  fixes j :: nat
  assumes ok: "head_ok start k d" and h0: "is_block h0" "sint (get32 h0 0) = 0"
  defines "d' \<equiv> apply_writes (take j (redo start d @ [(start, h0)])) d"
  shows "head_ok start k d' \<and> (\<forall>a. a \<notin> logarea start k \<longrightarrow> logical start d' a = logical start d a)"
proof -
  let ?r = "redo start d" and ?n = "hn (d start)"
  have blk: "is_block (d' a)" for a
    unfolding d'_def by (rule apply_blocks) (use ok h0 in \<open>auto simp: head_ok_def redo_def dest!: in_set_takeD\<close>)
  note keys = redo_keys [OF ok]
  show ?thesis
  proof (cases "j \<le> length ?r")
    case True
    then have d': "d' = apply_writes (take j ?r) d" by (simp add: d'_def)
    have out: "d' a = d a" if "a \<notin> fst ` set ?r" for a
      unfolding d' by (rule apply_out) (use that in \<open>auto dest: in_set_takeD\<close>)
    have area: "d' a = d a" if "a \<in> logarea start k" for a using out that keys by blast
    have st: "d' start = d start" using area by (simp add: logarea_def)
    have "redo start d' = ?r" 
      by (rule redo_same) (use st area lblk_area hn_le [OF ok] in \<open>auto dest: order_less_le_trans\<close>)
    moreover have "apply_writes ?r d' a = apply_writes ?r d a" for a
      using out apply_in apply_out by (cases "a \<in> fst ` set ?r") (blast, simp)
    ultimately have "logical start d' = logical start d" by (simp add: logical_def fun_eq_iff)
    moreover have "head_ok start k d'" using ok blk by (simp add: head_ok_def st)
    ultimately show ?thesis by simp
  next
    case False
    then have d': "d' = (apply_writes ?r d)(start := h0)" by (simp add: d'_def apply_append)
    have "hn (d' start) = 0" using h0 by (simp add: d' hn_def)
    moreover have "head_ok start k d'" using blk h0 calculation by (simp add: head_ok_def d')
    moreover have "d' a = logical start d a" if "a \<noteq> start" for a using that by (simp add: d' logical_def)
    ultimately show ?thesis by (simp add: logical_empty logarea_def)
  qed
qed

section \<open>Recovery\<close>

lemma read_head_spec:
  assumes q: "quiet D s {}" and lg: "ldev lg = D" "length (lhblock lg) = LOGSIZE" and h: "sint (get32 (view s (lstart lg)) 0) \<le> int LOGSIZE"
    and clean: "view s = dsk s"
  obtains bs s' where "read_head lg s = Ok (lg\<lparr>lhn := sint (get32 (view s (lstart lg)) 0), lhblock := bs\<rparr>, s')" "quiet D s' {}"
    "wrote s [] s'" "length bs = LOGSIZE" "\<forall>i < hn (view s (lstart lg)). bs ! i = hblk (view s (lstart lg)) i"
proof -
  let ?x = "lstart lg"
  obtain pins where i: "bio_ok D s {} pins" and p: "pinned s pins {}" using q by (auto simp: quiet_def)
  have "card ({} :: u32 set) < NBUF" by (simp add: NBUF_def)
  with bread_one [OF i p] obtain b s1 where b: "bread D ?x s = Ok (b, s1)" "bio_ok D s1 {b} pins" "cached s1 ?x b" "bdata (bufs s1 b) = view s ?x"
    "view s1 = view s" "dev_same s s1" "pinned s1 pins {}"
    by metis
  have "blockno (bufs s1 b) = ?x" "dsk s1 = dsk s" using b(3,6) by (simp_all add: cached_def dev_same_def)
  then have "bdata (bufs s1 b) = dsk s1 (blockno (bufs s1 b))" using b(4) clean by simp
  then obtain s2 where s2: "brelse b s1 = Ok s2" "bio_ok D s2 ({b} - {b}) pins" "pinned s2 pins {}" "view s2 = view s1" "dsk s2 = dsk s1"
    "dwrites s2 = dwrites s1"
    using brelse_quiet [OF b(2,7), of b] by auto
  let ?h = "view s ?x"
  let ?bs = "\<lambda>n. fold (\<lambda>i bs. bs[i := get32 ?h (i + 1)]) [0..<n] (lhblock lg)"
  have bs: "length (?bs n) = LOGSIZE \<and> (\<forall>i < n. ?bs n ! i = hblk ?h i)" if "n \<le> LOGSIZE" for n
    using that
  proof (induction n)
    case 0
    then show ?case using lg(2) by simp
  next
    case (Suc n)
    then show ?case by (auto simp: upt_Suc nth_list_update hblk_def)
  qed
  have n: "hn ?h \<le> LOGSIZE" using h by (simp add: hn_def)
  have "quiet D s2 {}" using s2(2,3) by (auto simp: quiet_def)
  moreover have "wrote s [] s2" using s2(4-6) b(5,6) by (simp add: wrote_def dev_same_def)
  moreover have "read_head lg s = Ok (lg\<lparr>lhn := sint (get32 ?h 0), lhblock := ?bs (hn ?h)\<rparr>, s2)"
    using lg(1) b(1,4) s2(1) h by (simp add: read_head_def Let_def hn_def)
  ultimately show thesis using that bs [OF n] by blast
qed

lemma recover_spec:
  assumes q: "quiet D s {}" and lg: "ldev lg = D" "length (lhblock lg) = LOGSIZE" and clean: "view s = dsk s"
    and ok: "head_ok (lstart lg) k (dsk s)" "k \<le> LOGSIZE"
  shows "\<exists>bs s' h0. recover_from_log lg s = Ok (lg\<lparr>lhn := 0, lhblock := bs\<rparr>, s') \<and> length bs = LOGSIZE \<and> quiet D s' {} \<and> is_block h0 \<and> sint (get32 h0 0) = 0 \<and>
    wrote s (redo (lstart lg) (dsk s) @ [(lstart lg, h0)]) s'"
proof -
  let ?st = "lstart lg" and ?h = "dsk s (lstart lg)"
  have h: "sint (get32 (view s ?st) 0) \<le> int LOGSIZE" using ok by (simp add: head_ok_def clean)
  obtain bs s1 where s1: "read_head lg s = Ok (lg\<lparr>lhn := sint (get32 ?h 0), lhblock := bs\<rparr>, s1)" "quiet D s1 {}"
    "wrote s [] s1" "length bs = LOGSIZE" "\<forall>i < hn ?h. bs ! i = hblk ?h i"
    using read_head_spec [OF q lg h clean] unfolding clean .
  let ?lg = "lg\<lparr>lhn := sint (get32 ?h 0), lhblock := bs\<rparr>"
  have e: "view s1 = dsk s" "dsk s1 = dsk s" using s1(3) clean by (simp_all add: wrote_def)
  have n: "nat (lhn ?lg) = hn ?h" by (simp add: hn_def)
  have nk: "hn ?h \<le> k" by (rule hn_le [OF ok(1)])
  have "set (logged ?lg) \<subseteq> hblk ?h ` {..<hn ?h}" unfolding n using s1(4,5) nk ok(2) by (auto simp: in_set_conv_nth)
  moreover have "logarea ?st (hn ?h) \<subseteq> logarea ?st k" using nk by (auto simp: logarea_def)
  moreover have "hblk ?h ` {..<hn ?h} \<inter> logarea ?st k = {}" using ok(1) by (auto simp: head_ok_def)
  ultimately have home: "set (logged ?lg) \<inter> logarea (lstart ?lg) (nat (lhn ?lg)) = {}" unfolding n by auto
  have "\<exists>s'. install_trans ?lg True s1 = Ok s' \<and> quiet D s' (if True then {} else {}) \<and>
    wrote s1 (map (\<lambda>i. (lhblock ?lg ! i, view s1 (lblk (lstart ?lg) i))) [0..<nat (lhn ?lg)]) s'"
    by (rule install_spec [OF s1(2) _ _ _ _ home]) (use lg(1) nk ok(2) n s1(4) e in \<open>auto simp: NBUF_def\<close>)
  moreover have "map (\<lambda>i. (lhblock ?lg ! i, view s1 (lblk (lstart ?lg) i))) [0..<nat (lhn ?lg)] = redo ?st (dsk s)"
    unfolding n using s1(5) by (simp add: redo_def e)
  ultimately obtain s2 where s2: "install_trans ?lg True s1 = Ok s2" "quiet D s2 {}" "wrote s1 (redo ?st (dsk s)) s2" by auto
  let ?lg0 = "?lg\<lparr>lhn := 0\<rparr>" and ?h0 = "head_of (lg\<lparr>lhblock := bs, lhn := 0\<rparr>) (view s2 ?st)"
  have "card ({} :: u32 set) < NBUF" by (simp add: NBUF_def)
  then obtain s3 where s3: "write_head ?lg0 s2 = Ok s3" "quiet D s3 {}" "wrote s2 [(?st, ?h0)] s3"
    using write_head_spec [OF s2(2), of ?lg0] lg(1) unfolding wrote_def by auto
  have "is_block (view s2 ?st)" using s2(2) is_block_view by (auto simp: quiet_def)
  then have "is_block ?h0" "sint (get32 ?h0 0) = 0" using head_of_spec [of "view s2 ?st" "lg\<lparr>lhblock := bs, lhn := 0\<rparr>"] by simp_all
  moreover have "wrote s (redo ?st (dsk s) @ [(?st, ?h0)]) s3" using wrote_trans [OF wrote_trans [OF s1(3) s2(3)] s3(3)] by simp
  moreover have "recover_from_log lg s = Ok (?lg0, s3)" using s1(1) s2(1) s3(1) by (simp add: recover_from_log_def Let_def)
  ultimately show ?thesis using s3(2) s1(4) by (intro exI [of _ bs] exI [of _ s3] exI [of _ ?h0]) simp
qed

section \<open>A power failure during a commit\<close>

lemma log_writes_keys: "fst ` set (log_writes lg V n) = lblk (lstart lg) ` {..<n}"
  by (auto simp: log_writes_def image_image)

lemma log_writes_value:
  assumes "i < n" "n < 2 ^ 31"
  shows "apply_writes (log_writes lg V n) d (lblk (lstart lg) i) = V (lhblock lg ! i)"
  by (rule apply_value) (use assms in \<open>auto simp: log_writes_def lblk_inj image_image\<close>)

lemma home_value: "(b, x) \<in> set (home_writes lg V n) \<Longrightarrow> x = V b"
  by (auto simp: home_writes_def)

text \<open>Before the header is written the old contents are recovered.\<close>

lemma commit_prefix_old:
  assumes t: "txn_ok D k lg s" and j: "j \<le> nat (lhn lg)"
  defines "d \<equiv> apply_writes (take j (commit_writes lg (view s))) (dsk s)"
  shows "head_ok (lstart lg) k d \<and> (\<forall>a. a \<notin> logarea (lstart lg) k \<longrightarrow> logical (lstart lg) d a = dsk s a)"
proof -
  let ?w = "log_writes lg (view s) (nat (lhn lg))" and ?st = "lstart lg"
  obtain pins where i: "bio_ok D s {} pins" using txnD(1) [OF t] by (auto simp: quiet_def)
  have n: "nat (lhn lg) < 2 ^ 31" using txnD(13) [OF t] by (simp add: NBUF_def)
  have "length ?w = nat (lhn lg)" by (simp add: log_writes_def)
  then have d: "d = apply_writes (take j ?w) (dsk s)" using j by (simp add: d_def commit_writes_def Let_def)
  have keys: "a \<notin> fst ` set (take j ?w)" if "a \<notin> lblk ?st ` {..<nat (lhn lg)}" for a
    using that log_writes_keys [of lg "view s" "nat (lhn lg)"] by (metis image_mono set_take_subset subsetD)
  have out: "d a = dsk s a" if "a \<notin> lblk ?st ` {..<nat (lhn lg)}" for a
    unfolding d by (rule apply_out [OF keys [OF that]])
  have st: "d ?st = dsk s ?st" by (rule out) (use lblk_start [of _ ?st] n in \<open>force dest: sym\<close>)
  have blk: "is_block (d a)" for a
    unfolding d by (rule apply_blocks) (use i is_block_view bio_okD(5) in \<open>auto simp: log_writes_def dest!: in_set_takeD\<close>)
  have h: "hn (d ?st) = 0" using txnD(11) [OF t] by (simp add: hn_def st)
  have "head_ok ?st k d" using blk h txnD(11) [OF t] by (simp add: head_ok_def st)
  moreover have "d a = dsk s a" if "a \<notin> logarea ?st k" for a
    by (rule out) (use that txnD(12) [OF t] in \<open>auto simp: logarea_def\<close>)
  ultimately show ?thesis by (simp add: logical_empty h)
qed

text \<open>Once it is written the transaction's contents are recovered.\<close>

lemma commit_prefix_new:
  assumes t: "txn_ok D k lg s" and j: "nat (lhn lg) < j"
  defines "d \<equiv> apply_writes (take j (commit_writes lg (view s))) (dsk s)"
  shows "head_ok (lstart lg) k d \<and> (\<forall>a. a \<notin> logarea (lstart lg) k \<longrightarrow> logical (lstart lg) d a = view s a)"
proof -
  let ?n = "nat (lhn lg)" and ?V = "view s" and ?st = "lstart lg"
  let ?w = "log_writes lg ?V ?n" and ?m = "home_writes lg ?V ?n" and ?h = "head_of lg (view s (lstart lg))"
  let ?z = "head_of (lg\<lparr>lhn := 0\<rparr>) ?h" and ?e = "(apply_writes (log_writes lg (view s) (nat (lhn lg))) (dsk s))(lstart lg := head_of lg (view s (lstart lg)))"
  obtain pins where i: "bio_ok D s {} pins" using txnD(1) [OF t] by (auto simp: quiet_def)
  have n: "?n < 2 ^ 31" "?n \<le> LOGSIZE" using txnD(13,14) [OF t] by (simp_all add: NBUF_def)
  have "is_block (?V ?st)" using is_block_view [OF i] .
  note h = head_of_spec [OF this txnD(4) [OF t]]
  have nl: "lhn lg \<le> int LOGSIZE" using n(2) txnD(4) [OF t] by simp
  have h1: "hblk ?h i = lhblock lg ! i" if "i < ?n" for i unfolding hblk_def by (rule h(3) [OF nl that])
  have hh: "is_block ?h" "sint (get32 ?h 0) = lhn lg" by (rule h(1) [OF nl], rule h(2) [OF nl])
  have h0: "is_block ?z" "sint (get32 ?z 0) = 0" using head_of_spec [OF hh(1), of "lg\<lparr>lhn := 0\<rparr>"] by simp_all
  have lb: "?e (lblk ?st i) = ?V (lhblock lg ! i)" if "i < ?n" for i
    using that n log_writes_value [of i ?n] lblk_start [of i ?st] by simp
  have hn: "hn ?h = ?n" by (simp add: hn_def hh)
  have r: "redo ?st ?e = ?m" using lb h1 by (simp add: redo_def home_writes_def hn)
  have "length ?w = ?n" by (simp add: log_writes_def)
  then have d: "d = apply_writes (take (j - ?n - 1) (redo ?st ?e @ [(?st, ?z)])) ?e"
    unfolding r d_def commit_writes_def Let_def using j by (simp add: apply_append take_Cons' split: if_split)
  have blk: "is_block (?e a)" for a
    using hh(1) apply_blocks [of "dsk s" ?w a] bio_okD(5) [OF i] is_block_view [OF i] by (auto simp: log_writes_def)
  have lo: "lhblock lg ! i \<notin> logarea ?st k" if "i < ?n" for i
  proof -
    have "lhblock lg ! i \<in> set (logged lg)" using that txnD(7,14) [OF t] by (auto simp: in_set_conv_nth)
    then show ?thesis using txnD(9) [OF t] by blast
  qed
  have ok: "head_ok ?st k ?e" unfolding head_ok_def using blk hh hn h1 lo txnD(5) [OF t] by simp
  have "logical ?st ?e a = ?V a" if "a \<notin> logarea ?st k" for a
    unfolding logical_def r
  proof (rule apply_value)
    show "x = ?V a" if "(b, x) \<in> set ?m" "b = a" for b x using home_value [OF that(1)] that(2) by simp
    have "?e a = dsk s a" using that txnD(12) [OF t] by (auto simp: logarea_def log_writes_def intro!: apply_out)
    then show "a \<in> fst ` set ?m \<or> ?e a = ?V a" using txnD(10) [OF t] home_writes_keys [of ?n lg ?V] n(2) txnD(7) [OF t] by metis
  qed
  with redo_prefix [OF ok h0, of "j - ?n - 1"] show ?thesis unfolding d by simp
qed

section \<open>Reboots\<close>

text \<open>The log record is a static variable, all zero at boot; \<open>binit\<close> and \<open>initlog\<close> run at every boot.\<close>

definition boot_log :: log where
  "boot_log = \<lparr>llock = initlock, lstart = 0, lsize = 0, outstanding = 0, committing = False, ldev = 0, lhn = 0, lhblock = replicate LOGSIZE 0\<rparr>"

definition reboot :: "u32 \<Rightarrow> u32 \<Rightarrow> u32 \<Rightarrow> cpu \<Rightarrow> int \<Rightarrow> (u32 \<Rightarrow> block) \<Rightarrow> (log \<times> fsys) result" where
  "reboot D start nlog c pid d = initlog D start nlog boot_log (binit (boot c pid d))"

text \<open>The disks that any number of power failures during recovery can leave.\<close>

inductive crashes :: "u32 \<Rightarrow> u32 \<Rightarrow> u32 \<Rightarrow> (u32 \<Rightarrow> block) \<Rightarrow> (u32 \<Rightarrow> block) \<Rightarrow> bool" for D start nlog d where
  none: "crashes D start nlog d d"
| again: "crashes D start nlog d d' \<Longrightarrow> cpu_idle c \<Longrightarrow> reboot D start nlog c pid d' = Ok (lg, s) \<Longrightarrow>
            crashes D start nlog d (apply_writes (take j (dwrites s)) d')"

text \<open>No operation is running and the log is empty.\<close>

definition idle_log :: "u32 \<Rightarrow> nat \<Rightarrow> log \<Rightarrow> fsys \<Rightarrow> bool" where
  "idle_log D k lg s \<longleftrightarrow> txn_ok D k lg s \<and> lhn lg = 0 \<and> llock lg = initlock \<and> \<not> committing lg \<and> outstanding lg = 0 \<and> lsize lg = int k + 1"

lemma sint_of_nat32: "m < 2 ^ 31 \<Longrightarrow> sint (of_nat m :: u32) = int m"
  by (simp add: signed_of_nat signed_take_bit_int_eq_self)

lemma reboot_spec:
  assumes "cpu_idle c" "D \<noteq> 0" and ok: "head_ok start k d" "k < NBUF"
  shows "\<exists>lg s h. reboot D start (of_nat (k + 1)) c pid d = Ok (lg, s) \<and> idle_log D k lg s \<and> lstart lg = start \<and> is_block h \<and> sint (get32 h 0) = 0 \<and>
    dwrites s = redo start d @ [(start, h)] \<and> dsk s = apply_writes (dwrites s) d"
proof -
  let ?s = "binit (boot c pid d)" and ?lg = "boot_log\<lparr>lstart := start, lsize := sint (of_nat (k + 1) :: u32), ldev := D\<rparr>"
  have blk: "is_block (d a)" for a using ok(1) by (simp add: head_ok_def)
  note b = binit_ok [OF assms(1,2), of d pid, OF blk]
  have "pinned ?s (\<lambda>_. 0) {}" by (simp add: pinned_def)
  then have q: "quiet D ?s {}" using b(1) unfolding quiet_def by blast
  have k: "k \<le> LOGSIZE" using ok(2) by (simp add: NBUF_def LOGSIZE_def MAXOPBLOCKS_def)
  have z: "sint (of_nat (k + 1) :: u32) = int k + 1" 
    using sint_of_nat32 [of "k + 1"] ok(2) by (simp add: NBUF_def)
  obtain bs s h where r: "recover_from_log ?lg ?s = Ok (?lg\<lparr>lhn := 0, lhblock := bs\<rparr>, s)" "length bs = LOGSIZE" "quiet D s {}" "is_block h"
    "sint (get32 h 0) = 0" "wrote ?s (redo start d @ [(start, h)]) s"
    using recover_spec [OF q, of ?lg k] b ok(1) k by (auto simp: boot_log_def)
  let ?l = "?lg\<lparr>lhn := 0, lhblock := bs\<rparr>"
  have w: "dwrites s = redo start d @ [(start, h)]" "dsk s = apply_writes (dwrites s) d" "view s = dsk s"
    using r(6) b by (simp_all add: wrote_def)
  then have "dsk s start = h" by (simp add: apply_append)
  then have "txn_ok D k ?l s" using r w(3) assms(2) ok(2) by (simp add: txn_ok_def)
  then have "idle_log D k ?l s" using z by (simp add: idle_log_def boot_log_def)
  moreover have "initlog D start (of_nat (k + 1)) boot_log ?s = Ok (?l, s)"
    using r(1) by (simp add: initlog_def boot_log_def LOGSIZE_def MAXOPBLOCKS_def BSIZE_def)
  ultimately show ?thesis using r w by (intro exI [of _ ?l] exI [of _ s] exI [of _ h]) (simp add: reboot_def)
qed

text \<open>However often recovery is interrupted, the next one finds the same contents.\<close>

lemma crashes_logical:
  assumes "crashes D start (of_nat (k + 1)) d d'" "D \<noteq> 0" "head_ok start k d" "k < NBUF"
  shows "head_ok start k d' \<and> (\<forall>a. a \<notin> logarea start k \<longrightarrow> logical start d' a = logical start d a)"
  using assms
proof (induction rule: crashes.induct)
  case (again d' c pid lg s j)
  then obtain h where "is_block h" "sint (get32 h 0) = 0" "dwrites s = redo start d' @ [(start, h)]"
    using reboot_spec [of c D start k d' pid] by auto
  then show ?case using redo_prefix [of start k d' h j] again by auto
qed simp

lemma reboot_logical:
  assumes "cpu_idle c" "D \<noteq> 0" "head_ok start k d" "k < NBUF"
  shows "\<exists>lg s. reboot D start (of_nat (k + 1)) c pid d = Ok (lg, s) \<and> idle_log D k lg s \<and> lstart lg = start \<and>
    (\<forall>a. a \<notin> logarea start k \<longrightarrow> dsk s a = logical start d a)"
proof -
  obtain lg s h where r: "reboot D start (of_nat (k + 1)) c pid d = Ok (lg, s)" "idle_log D k lg s" "lstart lg = start" "is_block h"
    "sint (get32 h 0) = 0" "dwrites s = redo start d @ [(start, h)]" "dsk s = apply_writes (dwrites s) d"
    using reboot_spec [OF assms, of pid] by auto
  have "dsk s a = logical start d a" if "a \<notin> logarea start k" for a
    using that by (simp add: r(6,7) apply_append logical_def logarea_def)
  then show ?thesis using r by blast
qed

end
