(* ===== verification/Log_Txn.thy ===== *)
theory Log_Txn
  imports Log_Recovery
begin

text \<open>
  The operations a file system call makes between \<open>begin_op\<close> and \<open>end_op\<close>, and the atomicity of the whole call.
\<close>

section \<open>log\_write\<close>

lemma release_nested:
  "cpu_idle c \<Longrightarrow> release (spin_held (push_off c)) (push_off (push_off c)) = Ok (initlock, push_off c)"
  by (simp add: release_def holding_def initlock_def spin_held_def push_off_def pop_off_def Let_def cpu_idle_def)

lemma bpin_nested:
  assumes "cpu_idle c" "bclock s = initlock" "fhart s = push_off c"
  shows "bpin b s = Ok (s\<lparr>bufs := (bufs s)(b := (bufs s b)\<lparr>refcnt := refcnt (bufs s b) + 1\<rparr>)\<rparr>)"
  using assms by (simp add: bpin_def acquire_bcache_free release_bcache_def release_nested upd_buf_def)

lemma log_index_spec:
  assumes "i + m \<le> length bs"
  shows "log_index x bs i m = i + m \<and> x \<notin> set (take m (drop i bs)) \<or> i \<le> log_index x bs i m \<and> log_index x bs i m < i + m \<and> bs ! log_index x bs i m = x"
  using assms
proof (induction m arbitrary: i)
  case (Suc m)
  have d: "drop i bs = bs ! i # drop (Suc i) bs" using Suc.prems by (intro Cons_nth_drop_Suc [symmetric]) simp
  then show ?case using Suc.IH [of "Suc i"] Suc.prems by auto
qed simp

text \<open>\<open>log_write\<close> adds a block that is not in the log yet and pins its buffer; it changes nothing for one that is.\<close>

lemma log_write_spec:
  assumes "cpu_idle (fhart s)" "bclock s = initlock" "llock lg = initlock" "0 \<le> lhn lg" "lhn lg < int LOGSIZE" "lhn lg < lsize lg - 1"
    "1 \<le> outstanding lg" "length (lhblock lg) = LOGSIZE" and a: "blockno (bufs s b) = a"
  shows "log_write b lg s =
    (if a \<in> set (logged lg) then Ok (lg, s)
     else Ok (lg\<lparr>lhn := lhn lg + 1, lhblock := (lhblock lg)[nat (lhn lg) := a]\<rparr>,
              s\<lparr>bufs := (bufs s)(b := (bufs s b)\<lparr>refcnt := refcnt (bufs s b) + 1\<rparr>)\<rparr>))"
proof -
  let ?n = "nat (lhn lg)" and ?i = "log_index a (lhblock lg) 0 (nat (lhn lg))"
  let ?lg = "lg\<lparr>llock := spin_held (fhart s)\<rparr>" and ?s = "s\<lparr>fhart := push_off (fhart s)\<rparr>"
  have n: "?n \<le> length (lhblock lg)" "int ?n = lhn lg" using assms by simp_all
  have acq: "acquire_log lg s = Ok (?lg, ?s)" using assms(3) by (simp add: acquire_log_def)
  have rel: "release_log (?lg\<lparr>lhblock := bs, lhn := m\<rparr>) (?s\<lparr>bufs := x\<rparr>) = Ok (lg\<lparr>lhblock := bs, lhn := m\<rparr>, s\<lparr>bufs := x\<rparr>)" for bs m x
    using assms(1,3) by (simp add: release_log_def)
  show ?thesis
  proof (cases "a \<in> set (logged lg)")
    case True
    then have i: "?i < ?n" "lhblock lg ! ?i = a" using log_index_spec [of 0 ?n "lhblock lg" a] n by auto
    have "(lhblock lg)[?i := a] = lhblock lg" using i(2) list_update_id by metis
    moreover have "int ?i \<noteq> lhn lg" using i(1) by simp
    moreover have "release_log ?lg ?s = Ok (lg, s)" using rel [where bs = "lhblock lg" and m = "lhn lg" and x = "bufs s"] by simp
    ultimately show ?thesis using assms True by (simp add: log_write_def acq Let_def)
  next
    case False
    then have i: "?i = ?n" using log_index_spec [of 0 ?n "lhblock lg" a] n by (auto simp: in_set_conv_nth)
    have p: "bpin b ?s = Ok (?s\<lparr>bufs := (bufs s)(b := (bufs s b)\<lparr>refcnt := refcnt (bufs s b) + 1\<rparr>)\<rparr>)"
      using bpin_nested [OF assms(1), of ?s b] assms(2) by simp
    show ?thesis using assms False n(2) by (simp add: log_write_def acq Let_def i p rel)
  qed
qed

section \<open>One update\<close>

text \<open>What \<open>log_write\<close>'s callers do with a block: read it, change it, log it, release it.\<close>

fun update_block :: "u32 \<times> block \<Rightarrow> log \<times> fsys \<Rightarrow> (log \<times> fsys) result" where
  "update_block (a, x) (lg, s) =
     bindR (bread (ldev lg) a s) (\<lambda>(b, s).
     bindR (log_write b lg (set_data b x s)) (\<lambda>(lg, s).
     bindR (brelse b s) (\<lambda>s. Ok (lg, s))))"

text \<open>A transaction that is being built.\<close>

definition open_txn :: "u32 \<Rightarrow> nat \<Rightarrow> log \<Rightarrow> fsys \<Rightarrow> bool" where
  "open_txn D k lg s \<longleftrightarrow> txn_ok D k lg s \<and> llock lg = initlock \<and> \<not> committing lg \<and> 1 \<le> outstanding lg \<and> lsize lg = int k + 1"

lemma pinned_buf:
  assumes "bio_ok D s H pins" "pinned s pins P" "cached s a b"
  shows "a \<in> P \<longleftrightarrow> pins b = 1" "a \<notin> P \<longleftrightarrow> pins b = 0"
proof -
  have "pins b \<le> 1" using assms by (simp add: pinned_def cached_def)
  moreover have "a \<in> P \<longleftrightarrow> pins b = 1" using assms bio_okD(4) [OF assms(1)] unfolding pinned_def by metis
  ultimately show "a \<in> P \<longleftrightarrow> pins b = 1" "a \<notin> P \<longleftrightarrow> pins b = 0" by auto
qed

lemma pinned_insert:
  assumes p: "pinned s pins P" and b: "pins b = 0" "cached s a b" and d: "data_same s s'"
  shows "pinned s' (pins(b := 1)) (insert a P)"
proof -
  have c: "cached s' = cached s" by (intro ext) (rule data_sameD(1) [OF d])
  have "cached s y b \<longleftrightarrow> y = a" for y using b(2) by (auto simp: cached_def)
  then have "(\<exists>c. cached s y c \<and> (pins(b := 1)) c = 1) \<longleftrightarrow> y = a \<or> (\<exists>c. cached s y c \<and> pins c = 1)" for y
    using b(1) by (metis fun_upd_apply zero_neq_one)
  then show ?thesis using p unfolding pinned_def c by simp
qed

lemma update_block_spec:
  assumes t: "open_txn D k lg s" and n: "lhn lg < int k" and a: "a \<notin> logarea (lstart lg) k" and x: "is_block x"
  shows "\<exists>lg' s'. update_block (a, x) (lg, s) = Ok (lg', s') \<and> open_txn D k lg' s' \<and> view s' = (view s)(a := x) \<and> dsk s' = dsk s \<and>
    dwrites s' = dwrites s \<and> lhn lg' \<le> lhn lg + 1 \<and> lstart lg' = lstart lg \<and> outstanding lg' = outstanding lg \<and> a \<in> set (logged lg') \<and>
    set (logged lg) \<subseteq> set (logged lg')"
proof -
  let ?P = "set (logged lg)"
  have t': "txn_ok D k lg s" using t by (simp add: open_txn_def)
  note T = txnD [OF t']
  obtain pins where i: "bio_ok D s {} pins" and p: "pinned s pins ?P" using T(1) by (auto simp: quiet_def)
  have "a \<in> ?P \<or> card ?P < NBUF" using T(13,15) by simp
  then obtain b s1 where b: "bread D a s = Ok (b, s1)" "bio_ok D s1 {b} pins" "cached s1 a b" "bdata (bufs s1 b) = view s a"
    "view s1 = view s" "dev_same s s1" "pinned s1 pins ?P"
    using bread_one [OF i p] by metis
  let ?s2 = "set_data b x s1"
  have bno: "blockno (bufs s1 b) = a" using b(3) by (simp add: cached_def)
  note sd = set_data_spec [OF b(2) _ x, of b]
  have s2: "bio_ok D ?s2 {b} pins" "view ?s2 = (view s)(a := x)" "dev_same s ?s2" using sd b(5,6) bno by (auto simp: dev_same_def)
  have c2: "cached ?s2 = cached s1" by (intro ext) (auto simp: cached_def set_data_def)
  have p2: "pinned ?s2 pins ?P" using b(7) by (simp add: pinned_def c2)
  have cb: "cached ?s2 a b" using b(3) by (simp add: c2)
  have bn2: "blockno (bufs ?s2 b) = a" using cb by (simp add: cached_def)
  have ls: "lhn lg < int LOGSIZE" "lhn lg < lsize lg - 1" using n T(6) t by (simp_all add: NBUF_def LOGSIZE_def MAXOPBLOCKS_def open_txn_def)
  have lw: "log_write b lg ?s2 =
    (if a \<in> ?P then Ok (lg, ?s2)
     else Ok (lg\<lparr>lhn := lhn lg + 1, lhblock := (lhblock lg)[nat (lhn lg) := a]\<rparr>,
              ?s2\<lparr>bufs := (bufs ?s2)(b := (bufs ?s2 b)\<lparr>refcnt := refcnt (bufs ?s2 b) + 1\<rparr>)\<rparr>))"
    using t by (intro log_write_spec [OF bio_okD(1,2) [OF s2(1)] _ T(4) ls _ T(7) bn2]) (simp_all add: open_txn_def)
  show ?thesis
  proof (cases "a \<in> ?P")
    case True
    then have "pins b = 1" using pinned_buf [OF s2(1) p2 cb] by simp
    then obtain s3 where s3: "brelse b ?s2 = Ok s3" "bio_ok D s3 ({b} - {b}) pins" "pinned s3 pins ?P" "view s3 = view ?s2" "dsk s3 = dsk ?s2"
      "dwrites s3 = dwrites ?s2"
      using brelse_quiet [OF s2(1) p2, of b] by auto
    have d: "dsk s3 = dsk s" "dwrites s3 = dwrites s" using s3(5,6) s2(3) by (simp_all add: dev_same_def)
    have "quiet D s3 ?P" using s3(2,3) by (auto simp: quiet_def)
    then have "txn_ok D k lg s3" using t' s3(4) s2(2) True d by (simp add: txn_ok_def)
    then have "open_txn D k lg s3" using t by (simp add: open_txn_def)
    then show ?thesis using b(1) lw True s3(1,4) s2(2) d T(2) by (intro exI [of _ lg] exI [of _ s3]) simp
  next
    case False
    let ?u = "(bufs ?s2 b)\<lparr>refcnt := refcnt (bufs ?s2 b) + 1\<rparr>"
    let ?s3 = "?s2\<lparr>bufs := (bufs ?s2)(b := ?u)\<rparr>" and ?pins = "pins(b := 1)" and ?lg = "lg\<lparr>lhn := lhn lg + 1, lhblock := (lhblock lg)[nat (lhn lg) := a]\<rparr>"
    have pb: "pins b = 0" using False pinned_buf [OF s2(1) p2 cb] by simp
    have "refcnt (bufs ?s2 b) = 1" using bio_okD(3) [OF s2(1) bio_okD(6) [OF s2(1)], of b] pb by (simp add: buf_ok_def)
    then have s3: "bio_ok D ?s3 {b} ?pins" "view ?s3 = view ?s2" "dev_same ?s2 ?s3" "data_same ?s2 ?s3"
      using pins_spec [OF s2(1), of b ?u 1] by simp_all
    have p3: "pinned ?s3 ?pins (insert a ?P)"
      by (rule pinned_insert [OF p2 pb cb s3(4)])
    obtain s4 where s4: "brelse b ?s3 = Ok s4" "bio_ok D s4 ({b} - {b}) ?pins" "pinned s4 ?pins (insert a ?P)" "view s4 = view ?s3" "dsk s4 = dsk ?s3"
      "dwrites s4 = dwrites ?s3"
      using brelse_quiet [OF s3(1) p3, of b] by auto
    have d: "dsk s4 = dsk s" "dwrites s4 = dwrites s" "view s4 = (view s)(a := x)" using s4(4-6) s2(2,3) s3(2,3) by (simp_all add: dev_same_def)
    have lo: "logged ?lg = logged lg @ [a]"
      using T(4,7) ls(1) by (simp add: nat_add_distrib take_Suc_conv_app_nth)
    have "quiet D s4 (set (logged ?lg))" unfolding lo using s4(2,3) by (auto simp: quiet_def)
    then have "txn_ok D k ?lg s4" unfolding txn_ok_def lo using t' n d a False by (auto simp: txn_ok_def)
    then have "open_txn D k ?lg s4" using t by (simp add: open_txn_def)
    then show ?thesis using b(1) lw False s4(1) d T(2) lo by (intro exI [of _ ?lg] exI [of _ s4]) (simp add: subset_insertI)
  qed
qed

section \<open>Whole transactions\<close>

definition transaction :: "(u32 \<times> block) list \<Rightarrow> log \<Rightarrow> fsys \<Rightarrow> (log \<times> fsys) result" where
  "transaction ws lg s =
     bindR (begin_op lg s) (\<lambda>p. bindR (for_each update_block ws p) (\<lambda>(lg, s). end_op lg s))"

lemma updates_spec:
  assumes "open_txn D k lg s" "lhn lg + int (length ws) \<le> int k" "\<forall>(a, x) \<in> set ws. a \<notin> logarea (lstart lg) k \<and> is_block x"
  shows "\<exists>lg' s'. for_each update_block ws (lg, s) = Ok (lg', s') \<and> open_txn D k lg' s' \<and> view s' = apply_writes ws (view s) \<and>
    dsk s' = dsk s \<and> dwrites s' = dwrites s \<and> lstart lg' = lstart lg \<and> outstanding lg' = outstanding lg \<and>
    fst ` set ws \<union> set (logged lg) \<subseteq> set (logged lg')"
  using assms
proof (induction ws arbitrary: lg s)
  case (Cons w ws)
  obtain a x where w: "w = (a, x)" by (cases w)
  have "lhn lg < int k" "a \<notin> logarea (lstart lg) k" "is_block x" using Cons.prems w by auto
  from update_block_spec [OF Cons.prems(1) this] obtain lg1 s1 where s1: "update_block (a, x) (lg, s) = Ok (lg1, s1)" "open_txn D k lg1 s1"
    "view s1 = (view s)(a := x)" "dsk s1 = dsk s" "dwrites s1 = dwrites s" "lhn lg1 \<le> lhn lg + 1" "lstart lg1 = lstart lg" "outstanding lg1 = outstanding lg"
    "a \<in> set (logged lg1)" "set (logged lg) \<subseteq> set (logged lg1)"
    by blast
  have "lhn lg1 + int (length ws) \<le> int k" "\<forall>(a, x) \<in> set ws. a \<notin> logarea (lstart lg1) k \<and> is_block x"
    using Cons.prems s1(6,7) by auto
  from Cons.IH [OF s1(2) this] obtain lg' s' where
    r: "for_each update_block ws (lg1, s1) = Ok (lg', s')" "open_txn D k lg' s'" "view s' = apply_writes ws (view s1)" "dsk s' = dsk s1"
      "dwrites s' = dwrites s1" "lstart lg' = lstart lg1" "outstanding lg' = outstanding lg1" "fst ` set ws \<union> set (logged lg1) \<subseteq> set (logged lg')"
    by blast
  have "fst ` set (w # ws) \<union> set (logged lg) \<subseteq> set (logged lg')" using r(8) s1(9,10) w by auto
  then show ?case using s1 r by (simp add: w del: update_block.simps)
qed (auto simp: open_txn_def)

lemma txn_cong:
  assumes "ldev lg = ldev lg'" "lstart lg = lstart lg'" "lhn lg = lhn lg'" "lhblock lg = lhblock lg'"
  shows "txn_ok D k lg s = txn_ok D k lg' s"
  using assms by (simp add: txn_ok_def)

lemma begin_op_idle:
  assumes "idle_log D k lg s"
  shows "begin_op lg s = Ok (lg\<lparr>outstanding := 1\<rparr>, s)" "open_txn D k (lg\<lparr>outstanding := 1\<rparr>) s"
proof -
  have c: "cpu_idle (fhart s)" using assms bio_okD(1) by (auto simp: idle_log_def txn_ok_def quiet_def)
  then show "begin_op lg s = Ok (lg\<lparr>outstanding := 1\<rparr>, s)"
    using assms by (simp add: begin_op_def acquire_log_def release_log_def idle_log_def MAXOPBLOCKS_def LOGSIZE_def)
  show "open_txn D k (lg\<lparr>outstanding := 1\<rparr>) s" using assms txn_cong [of "lg\<lparr>outstanding := 1\<rparr>" lg] by (simp add: open_txn_def idle_log_def)
qed

text \<open>What the last \<open>end_op\<close> writes.\<close>

definition end_writes :: "log \<Rightarrow> fsys \<Rightarrow> (u32 \<times> block) list" where
  "end_writes lg s = (if 0 < lhn lg then commit_writes lg (view s) else [])"

lemma end_writes_prefix:
  assumes t: "txn_ok D k lg s"
  defines "d j \<equiv> apply_writes (take j (end_writes lg s)) (dsk s)"
  shows "head_ok (lstart lg) k (d j) \<and> ((\<forall>a. a \<notin> logarea (lstart lg) k \<longrightarrow> logical (lstart lg) (d j) a = dsk s a) \<or>
     (\<forall>a. a \<notin> logarea (lstart lg) k \<longrightarrow> logical (lstart lg) (d j) a = view s a))"
proof (cases "0 < lhn lg")
  case True
  then show ?thesis using commit_prefix_old [OF t, of j] commit_prefix_new [OF t, of j]
    unfolding d_def end_writes_def by (cases "j \<le> nat (lhn lg)") auto
next
  case False
  then show ?thesis using commit_prefix_old [OF t, of 0] by (simp add: d_def end_writes_def)
qed

text \<open>All of them together bring the disk up to date and empty the log.\<close>

lemma end_writes_full:
  assumes t: "txn_ok D k lg s" and w: "wrote s (end_writes lg s) s'"
  shows "view s' = dsk s'" "sint (get32 (dsk s' (lstart lg)) 0) = 0" "a \<notin> logarea (lstart lg) k \<Longrightarrow> dsk s' a = view s a"
proof -
  let ?w = "end_writes lg s" and ?st = "lstart lg"
  have d: "dsk s' = apply_writes ?w (dsk s)" "view s' = apply_writes ?w (view s)" using w by (simp_all add: wrote_def)
  have keys: "set (logged lg) \<subseteq> fst ` set ?w" if "0 < lhn lg"
    using home_writes_keys [of "nat (lhn lg)" lg "view s"] txnD(7,14) [OF t] that by (auto simp: end_writes_def commit_writes_def Let_def)
  show "view s' = dsk s'"
  proof (rule ext)
    fix a
    show "view s' a = dsk s' a"
    proof (cases "a \<in> fst ` set ?w")
      case True
      then show ?thesis unfolding d by (rule apply_in)
    next
      case False
      then have "a \<notin> set (logged lg)" using keys by (cases "0 < lhn lg") auto
      then show ?thesis unfolding d using txnD(10) [OF t] apply_out [OF False] by simp
    qed
  qed
  obtain pins where "bio_ok D s {} pins" using txnD(1) [OF t] by (auto simp: quiet_def)
  then have b: "is_block (view s ?st)" by (rule is_block_view)
  have nl: "lhn lg \<le> int LOGSIZE" using txnD(4,14) [OF t] by simp
  note z = head_of_spec(2) [OF head_of_spec(1) [OF b txnD(4) [OF t] nl], of "lg\<lparr>lhn := 0\<rparr>"]
  show h: "sint (get32 (dsk s' ?st) 0) = 0"
    using z txnD(11) [OF t] by (simp add: d end_writes_def commit_writes_def Let_def apply_append)
  show "dsk s' a = view s a" if "a \<notin> logarea ?st k"
  proof (cases "0 < lhn lg")
    case True
    then have "logical ?st (dsk s') a = view s a"
      using commit_prefix_new [OF t, of "length ?w"] that by (simp add: d end_writes_def commit_writes_def Let_def home_writes_def log_writes_def)
    then show ?thesis using h logical_empty [of "dsk s'" ?st] by (simp add: hn_def)
  next
    case False
    then show ?thesis using txnD(10) [OF t, of a] by (simp add: d end_writes_def)
  qed
qed

lemma end_op_spec:
  assumes t: "open_txn D k lg s" and o1: "outstanding lg = 1"
  shows "\<exists>lg' s'. end_op lg s = Ok (lg', s') \<and> idle_log D k lg' s' \<and> dwrites s' = dwrites s @ end_writes lg s \<and> view s' = dsk s' \<and>
    lstart lg' = lstart lg \<and> (\<forall>a. a \<notin> logarea (lstart lg) k \<longrightarrow> dsk s' a = view s a)"
proof -
  have t': "txn_ok D k lg s" using t by (simp add: open_txn_def)
  have idle: "cpu_idle (fhart u)" if "quiet D u P" for u P using that bio_okD(1) by (auto simp: quiet_def)
  let ?lg = "lg\<lparr>outstanding := 0, committing := True\<rparr>" and ?l = "lg\<lparr>outstanding := 0, committing := False, lhn := 0\<rparr>"
  have tl: "txn_ok D k ?lg s" using txn_cong [of ?lg lg] t' by simp
  obtain s' where s': "commit ?lg s = Ok (?lg\<lparr>lhn := 0\<rparr>, s')" "quiet D s' {}" "wrote s (end_writes lg s) s'"
  proof (cases "0 < lhn lg")
    case True
    have "commit_writes ?lg = commit_writes lg"
      by (simp add: fun_eq_iff commit_writes_def log_writes_def home_writes_def head_of_def)
    then show thesis using commit_spec [OF tl] True that by (auto simp: end_writes_def)
  next
    case False
    then have n: "lhn lg = 0" using txnD(4) [OF t'] by simp
    then have "?lg\<lparr>lhn := 0\<rparr> = ?lg" by simp
    then show thesis using that [of s] txnD(1) [OF t'] n by (simp add: commit_def end_writes_def)
  qed
  note e = end_writes_full [OF t' s'(3)]
  have ll: "llock lg = initlock" "\<not> committing lg" using t by (simp_all add: open_txn_def)
  have "lg\<lparr>llock := initlock\<rparr> = lg" using ll(1) by (simp add: log.equality)
  then have f: "lg\<lparr>outstanding := 0, committing := True, llock := initlock\<rparr> = ?lg" "lg\<lparr>outstanding := 0, committing := False, lhn := 0, llock := initlock\<rparr> = ?l"
    by (simp_all add: log.equality ll(1))
  have "end_op lg s = Ok (?l, s')"
    using o1 ll idle [OF txnD(1) [OF t']] idle [OF s'(2)] s'(1)
    by (simp add: end_op_def acquire_log_def release_log_def Let_def f)
  moreover have "idle_log D k ?l s'"
    using t s'(2) e(1,2) txnD(2,3,6,7) [OF t'] by (simp add: idle_log_def txn_ok_def open_txn_def)
  ultimately show ?thesis using e(1,3) s'(3) by (intro exI [of _ ?l] exI [of _ s']) (simp add: wrote_def)
qed

lemma transaction_spec:
  assumes l: "idle_log D k lg s" and ws: "length ws \<le> k" "\<forall>(a, x) \<in> set ws. a \<notin> logarea (lstart lg) k \<and> is_block x"
  obtains lg1 s1 lg' s' where "transaction ws lg s = Ok (lg', s')" "idle_log D k lg' s'" "lstart lg' = lstart lg" "view s' = dsk s'"
    "\<forall>a. a \<notin> logarea (lstart lg) k \<longrightarrow> dsk s' a = apply_writes ws (dsk s) a"
    "txn_ok D k lg1 s1" "lstart lg1 = lstart lg" "dsk s1 = dsk s" "view s1 = apply_writes ws (dsk s)" "dwrites s' = dwrites s @ end_writes lg1 s1"
proof -
  note b = begin_op_idle [OF l]
  have v: "view s = dsk s" using l txnD(10) [of D k lg s] by (auto simp: idle_log_def)
  have "\<exists>lg' s'. for_each update_block ws (lg\<lparr>outstanding := 1\<rparr>, s) = Ok (lg', s') \<and> open_txn D k lg' s' \<and> view s' = apply_writes ws (view s) \<and>
    dsk s' = dsk s \<and> dwrites s' = dwrites s \<and> lstart lg' = lstart (lg\<lparr>outstanding := 1\<rparr>) \<and> outstanding lg' = outstanding (lg\<lparr>outstanding := 1\<rparr>) \<and>
    fst ` set ws \<union> set (logged (lg\<lparr>outstanding := 1\<rparr>)) \<subseteq> set (logged lg')"
    by (rule updates_spec [OF b(2)]) (use l ws in \<open>simp_all add: idle_log_def\<close>)
  then obtain lg1 s1 where u: "for_each update_block ws (lg\<lparr>outstanding := 1\<rparr>, s) = Ok (lg1, s1)" "open_txn D k lg1 s1"
    "view s1 = apply_writes ws (dsk s)" "dsk s1 = dsk s" "dwrites s1 = dwrites s" "lstart lg1 = lstart lg" "outstanding lg1 = 1"
    by (auto simp: v)
  obtain lg' s' where e: "end_op lg1 s1 = Ok (lg', s')" "idle_log D k lg' s'" "dwrites s' = dwrites s1 @ end_writes lg1 s1" "view s' = dsk s'"
    "lstart lg' = lstart lg1" "\<forall>a. a \<notin> logarea (lstart lg1) k \<longrightarrow> dsk s' a = view s1 a"
    using end_op_spec [OF u(2,7)] by blast
  have "transaction ws lg s = Ok (lg', s')" using b(1) u(1) e(1) by (simp add: transaction_def)
  then show thesis using that [of lg' s' lg1 s1] u e by (simp add: open_txn_def)
qed

text \<open>C12. A file system call is atomic: \<open>begin_op\<close>, any number of block updates that fit the log (each \<open>bread\<close>, a
  change of the data, \<open>log_write\<close>, \<open>brelse\<close>) and \<open>end_op\<close> return with all updates on the disk and an empty log, and
  if the power fails after any number of the disk writes made meanwhile, and then any number of times
  during the following recoveries, the next boot leaves on the home blocks either all updates or none of them.
\<close>

theorem transaction_atomic:
  assumes "idle_log D k lg s" "length ws \<le> k" "\<forall>(a, x) \<in> set ws. a \<notin> logarea (lstart lg) k \<and> is_block x" "cpu_idle c"
  shows "\<exists>lg' s' ds. transaction ws lg s = Ok (lg', s') \<and> idle_log D k lg' s' \<and> dwrites s' = dwrites s @ ds \<and>
    (\<forall>a. a \<notin> logarea (lstart lg) k \<longrightarrow> dsk s' a = apply_writes ws (dsk s) a) \<and>
    (\<forall>j d. crashes D (lstart lg) (of_nat (k + 1)) (apply_writes (take j ds) (dsk s)) d \<longrightarrow>
       (\<exists>lg2 s2. reboot D (lstart lg) (of_nat (k + 1)) c pid d = Ok (lg2, s2) \<and> idle_log D k lg2 s2 \<and>
          ((\<forall>a. a \<notin> logarea (lstart lg) k \<longrightarrow> dsk s2 a = dsk s a) \<or>
           (\<forall>a. a \<notin> logarea (lstart lg) k \<longrightarrow> dsk s2 a = apply_writes ws (dsk s) a))))"
proof -
  obtain lg1 s1 lg' s' where t: "transaction ws lg s = Ok (lg', s')" "idle_log D k lg' s'" "lstart lg' = lstart lg" "view s' = dsk s'"
    "\<forall>a. a \<notin> logarea (lstart lg) k \<longrightarrow> dsk s' a = apply_writes ws (dsk s) a"
    "txn_ok D k lg1 s1" "lstart lg1 = lstart lg" "dsk s1 = dsk s" "view s1 = apply_writes ws (dsk s)" "dwrites s' = dwrites s @ end_writes lg1 s1"
    using transaction_spec [OF assms(1-3)] .
  have "\<exists>lg2 s2. reboot D (lstart lg) (of_nat (k + 1)) c pid d = Ok (lg2, s2) \<and> idle_log D k lg2 s2 \<and>
          ((\<forall>a. a \<notin> logarea (lstart lg) k \<longrightarrow> dsk s2 a = dsk s a) \<or> (\<forall>a. a \<notin> logarea (lstart lg) k \<longrightarrow> dsk s2 a = apply_writes ws (dsk s) a))"
    if "crashes D (lstart lg) (of_nat (k + 1)) (apply_writes (take j (end_writes lg1 s1)) (dsk s)) d" for j d
  proof -
    note p = end_writes_prefix [OF t(6), of j, unfolded t(7-9)]
    have D: "D \<noteq> 0" "k < NBUF" using txnD(3,6) [OF t(6)] .
    note c = crashes_logical [OF that D(1) p [THEN conjunct1] D(2)]
    from reboot_logical [OF assms(4) D(1) c [THEN conjunct1] D(2), of pid] show ?thesis using p c by (elim exE) (intro exI, auto)
  qed
  then show ?thesis using t by (intro exI [of _ lg'] exI [of _ s'] exI [of _ "end_writes lg1 s1"]) blast
qed

text \<open>The disk that \<open>mkfs\<close> starts from, and the first boot with it.\<close>

definition zero_disk :: "u32 \<Rightarrow> block" where
  "zero_disk a = replicate BSIZE 0"

definition first_hart :: cpu where
  "first_hart = \<lparr>cid = 0, noff = 0, intena = True, intr = True\<rparr>"

lemma first_hart_idle [simp]: "cpu_idle first_hart"
  by (simp add: first_hart_def cpu_idle_def)

lemma zero_head: "get32 (zero_disk a) 0 = 0"
  by (simp add: zero_disk_def get32_def BSIZE_def numeral_eq_Suc)

lemma zero_disk_ok: "head_ok start k zero_disk"
  by (simp add: head_ok_def hn_def zero_head) (simp add: zero_disk_def is_block_def)

lemma first_boot:
  obtains lg s where "idle_log 1 29 lg s" "lstart lg = 2" "\<forall>a. a \<notin> logarea 2 29 \<longrightarrow> dsk s a = zero_disk a"
proof -
  have "hn (zero_disk 2) = 0" by (simp add: hn_def zero_head)
  then have "logical 2 zero_disk = zero_disk" by (rule logical_empty)
  then show thesis using reboot_logical [OF first_hart_idle _ zero_disk_ok, of 1 29 2] that by (auto simp: NBUF_def)
qed

theorem transaction_atomic_witness:
  "\<exists>lg s lg' s' ds. idle_log 1 29 lg s \<and> transaction [(100, replicate BSIZE 7), (101, replicate BSIZE 8)] lg s = Ok (lg', s') \<and>
    dwrites s' = dwrites s @ ds \<and> dsk s' 100 = replicate BSIZE 7 \<and> dsk s' 101 = replicate BSIZE 8 \<and>
    (\<forall>j. \<exists>lg2 s2. reboot 1 2 30 first_hart 1 (apply_writes (take j ds) (dsk s)) = Ok (lg2, s2) \<and>
       (dsk s2 100, dsk s2 101) \<in> {(zero_disk 100, zero_disk 101), (replicate BSIZE 7, replicate BSIZE 8)})"
proof -
  obtain lg s where b: "idle_log 1 29 lg s" "lstart lg = 2" "\<forall>a. a \<notin> logarea 2 29 \<longrightarrow> dsk s a = zero_disk a" by (rule first_boot)
  let ?ws = "[(100, replicate BSIZE 7), (101, replicate BSIZE 8)]"
  have area: "100 \<notin> logarea 2 29" "101 \<notin> logarea 2 29" by (auto simp: logarea_def lblk_def lessThan_nat_numeral lessThan_Suc)
  have "\<forall>(a, x) \<in> set ?ws. a \<notin> logarea (lstart lg) 29 \<and> is_block x" using area by (simp add: b(2) is_block_def)
  from transaction_atomic [OF b(1) _ this first_hart_idle, of 1] obtain lg' s' ds where t: "transaction ?ws lg s = Ok (lg', s')"
    "dwrites s' = dwrites s @ ds" "\<forall>a. a \<notin> logarea 2 29 \<longrightarrow> dsk s' a = apply_writes ?ws (dsk s) a"
    "\<forall>j d. crashes 1 2 30 (apply_writes (take j ds) (dsk s)) d \<longrightarrow>
       (\<exists>lg2 s2. reboot 1 2 30 first_hart 1 d = Ok (lg2, s2) \<and> idle_log 1 29 lg2 s2 \<and>
          ((\<forall>a. a \<notin> logarea 2 29 \<longrightarrow> dsk s2 a = dsk s a) \<or> (\<forall>a. a \<notin> logarea 2 29 \<longrightarrow> dsk s2 a = apply_writes ?ws (dsk s) a)))"
    by (auto simp: b(2))
  have z: "dsk s 100 = zero_disk 100" "dsk s 101 = zero_disk 101" using b(3) area by blast+
  have v: "apply_writes ?ws (dsk s) 100 = replicate BSIZE 7" "apply_writes ?ws (dsk s) 101 = replicate BSIZE 8" by simp_all
  have "\<exists>lg2 s2. reboot 1 2 30 first_hart 1 (apply_writes (take j ds) (dsk s)) = Ok (lg2, s2) \<and>
       (dsk s2 100, dsk s2 101) \<in> {(zero_disk 100, zero_disk 101), (replicate BSIZE 7, replicate BSIZE 8)}" for j
    using t(4) [rule_format, OF crashes.none, of j] area z v by (elim exE conjE disjE) (intro exI conjI, assumption, simp)+
  moreover have "dsk s' 100 = replicate BSIZE 7" "dsk s' 101 = replicate BSIZE 8" using t(3) area v by metis+
  ultimately show ?thesis using b(1) t(1,2) by blast
qed

section \<open>Three operations at once\<close>

text \<open>
  \<open>begin_op\<close> lets three operations run at once, with \<open>MAXOPBLOCKS\<close> blocks each, since the log is
  taken to hold \<open>LOGSIZE\<close> blocks; \<open>mkfs\<close> however gives the log \<open>LOGSIZE\<close> blocks including its header.
\<close>

lemma begin_op_next:
  assumes "open_txn D k lg s" "lhn lg = 0" "outstanding lg < 3"
  shows "begin_op lg s = Ok (lg\<lparr>outstanding := outstanding lg + 1\<rparr>, s)" "open_txn D k (lg\<lparr>outstanding := outstanding lg + 1\<rparr>) s"
proof -
  have c: "cpu_idle (fhart s)" using assms bio_okD(1) by (auto simp: open_txn_def txn_ok_def quiet_def)
  then show "begin_op lg s = Ok (lg\<lparr>outstanding := outstanding lg + 1\<rparr>, s)"
    using assms by (simp add: begin_op_def acquire_log_def release_log_def open_txn_def MAXOPBLOCKS_def LOGSIZE_def)
  show "open_txn D k (lg\<lparr>outstanding := outstanding lg + 1\<rparr>) s"
    using assms txn_cong [of "lg\<lparr>outstanding := outstanding lg + 1\<rparr>" lg] by (simp add: open_txn_def)
qed

text \<open>C15. With the log that \<open>mkfs\<close> makes, three operations are admitted together, but when they change 30 different
  blocks in all, ten each, the last \<open>log_write\<close> panics, although none of them exceeds its reservation.
\<close>

theorem three_operations_panic:
  assumes l: "idle_log D 29 lg s" and ws: "length ws = 29" "distinct (a # map fst ws)"
    "\<forall>(b, y) \<in> set ((a, x) # ws). b \<notin> logarea (lstart lg) 29 \<and> is_block y"
  shows "\<exists>lg1 lg2 s2. bindR (begin_op lg s) (\<lambda>(lg, s). bindR (begin_op lg s) (\<lambda>(lg, s). begin_op lg s)) = Ok (lg1, s) \<and>
    for_each update_block ws (lg1, s) = Ok (lg2, s2) \<and> update_block (a, x) (lg2, s2) = Panic ''too big a transaction''"
proof -
  have n0: "lhn lg = 0" using l by (simp add: idle_log_def)
  note b1 = begin_op_idle [OF l]
  note b2 = begin_op_next [OF b1(2), simplified, OF n0]
  note b3 = begin_op_next [OF b2(2), simplified, OF n0]
  let ?l = "lg\<lparr>outstanding := 3\<rparr>"
  have "lhn ?l + int (length ws) \<le> int 29" "\<forall>(b, y) \<in> set ws. b \<notin> logarea (lstart ?l) 29 \<and> is_block y" using ws n0 by simp_all
  from updates_spec [OF b3(2) this] obtain lg2 s2 where u: "for_each update_block ws (?l, s) = Ok (lg2, s2)" "open_txn D 29 lg2 s2"
    "lstart lg2 = lstart lg" "outstanding lg2 = 3" "fst ` set ws \<subseteq> set (logged lg2)"
    by auto
  have t: "txn_ok D 29 lg2 s2" using u(2) by (simp add: open_txn_def)
  note T = txnD [OF t]
  have "29 = card (fst ` set ws)" using distinct_card [of "map fst ws"] ws(1,2) by simp
  also have "\<dots> \<le> nat (lhn lg2)" using card_mono [OF _ u(5)] T(15) by simp
  finally have n: "lhn lg2 = 29" using T(5) by simp
  obtain pins where i: "bio_ok D s2 {} pins" and p: "pinned s2 pins (set (logged lg2))" using T(1) by (auto simp: quiet_def)
  have "a \<in> set (logged lg2) \<or> card (set (logged lg2)) < NBUF" using T(13,15) by simp
  then obtain b s3 where "bread D a s2 = Ok (b, s3)" using bread_one [OF i p] by metis
  then have "update_block (a, x) (lg2, s2) = Panic ''too big a transaction''"
    using u(2) n T(2) by (simp add: log_write_def acquire_log_def open_txn_def)
  then show ?thesis using b1(1) b2(1) b3(1) u(1) by (intro exI [of _ ?l] exI [of _ lg2] exI [of _ s2]) simp
qed

theorem three_operations_panic_witness:
  "\<exists>lg s lg1 lg2 s2. idle_log 1 29 lg s \<and> bindR (begin_op lg s) (\<lambda>(lg, s). bindR (begin_op lg s) (\<lambda>(lg, s). begin_op lg s)) = Ok (lg1, s) \<and>
    for_each update_block (map (\<lambda>i. (of_nat (100 + i) :: u32, replicate BSIZE 7)) [0..<29]) (lg1, s) = Ok (lg2, s2) \<and>
    update_block (200, replicate BSIZE 7) (lg2, s2) = Panic ''too big a transaction''"
proof -
  obtain lg s where b: "idle_log 1 29 lg s" "lstart lg = 2" by (rule first_boot)
  let ?ws = "map (\<lambda>i. (of_nat (100 + i) :: u32, replicate BSIZE 7)) [0..<29]"
  have e: "?ws = map (\<lambda>a. (a, replicate BSIZE 7)) [100, 101, 102, 103, 104, 105, 106, 107, 108, 109, 110, 111, 112, 113, 114, 115, 116, 117, 118, 119,
    120, 121, 122, 123, 124, 125, 126, 127, 128]" by (simp add: upt_rec)
  have area: "logarea 2 29 = {2, 3, 4, 5, 6, 7, 8, 9, 10, 11, 12, 13, 14, 15, 16, 17, 18, 19, 20, 21, 22, 23, 24, 25, 26, 27, 28, 29, 30, 31}"
    by (auto simp: logarea_def lblk_def lessThan_nat_numeral lessThan_Suc)
  have "length ?ws = 29" by simp
  moreover have "distinct (200 # map fst ?ws)" unfolding e by simp
  moreover have "\<forall>(b, y) \<in> set ((200, replicate BSIZE 7) # ?ws). b \<notin> logarea (lstart lg) 29 \<and> is_block y"
    unfolding e b(2) area by (simp add: is_block_def)
  ultimately show ?thesis using three_operations_panic [OF b(1), of ?ws 200 "replicate BSIZE 7"] b(1) by blast
qed

end
