(* ===== verification/Fs_Block.thy ===== *)
theory Fs_Block
  imports Log_Txn
begin

text \<open>
  The file system's state and its lowest layer (kernel/fs.c): the super block, the bitmap of free blocks, \<open>balloc\<close> and
  \<open>bfree\<close>; and the rules for reading, logging and releasing blocks within a transaction while others are held.
\<close>

section \<open>State\<close>

record superblock =
  sb_magic :: u32
  sb_size :: u32
  sb_nblocks :: u32
  sb_ninodes :: u32
  sb_nlog :: u32
  sb_logstart :: u32
  sb_inodestart :: u32
  sb_bmapstart :: u32

record inode =
  i_dev :: u32
  i_inum :: u32
  i_ref :: int
  i_lock :: sleeplock
  i_valid :: bool
  i_type :: "16 word"
  i_major :: "16 word"
  i_minor :: "16 word"
  i_nlink :: "16 word"
  i_size :: u32
  i_addrs :: "u32 list"

text \<open>The log, the cache with its disk, the super block in memory and the table of inodes.\<close>

record fstate =
  f_log :: log
  f_sys :: fsys
  f_sb :: superblock
  it_lock :: spinlock
  itable :: "nat \<Rightarrow> inode"

text \<open>The calls of bio.c and log.c on this state.\<close>

definition fread :: "u32 \<Rightarrow> u32 \<Rightarrow> fstate \<Rightarrow> (nat \<times> fstate) result" where
  "fread dev bno st = bindR (bread dev bno (f_sys st)) (\<lambda>(b, s). Ok (b, st\<lparr>f_sys := s\<rparr>))"

definition frelse :: "nat \<Rightarrow> fstate \<Rightarrow> fstate result" where
  "frelse b st = bindR (brelse b (f_sys st)) (\<lambda>s. Ok (st\<lparr>f_sys := s\<rparr>))"

definition fdata :: "nat \<Rightarrow> fstate \<Rightarrow> block" where
  "fdata b st = bdata (bufs (f_sys st) b)"

text \<open>The data of a held buffer is replaced and the buffer logged.\<close>

definition flog :: "nat \<Rightarrow> block \<Rightarrow> fstate \<Rightarrow> fstate result" where
  "flog b x st = bindR (log_write b (f_log st) (set_data b x (f_sys st))) (\<lambda>(lg, s). Ok (st\<lparr>f_log := lg, f_sys := s\<rparr>))"

section \<open>The super block\<close>

definition sb_of :: "block \<Rightarrow> superblock" where
  "sb_of x = \<lparr>sb_magic = get32 x 0, sb_size = get32 x 1, sb_nblocks = get32 x 2, sb_ninodes = get32 x 3, sb_nlog = get32 x 4,
     sb_logstart = get32 x 5, sb_inodestart = get32 x 6, sb_bmapstart = get32 x 7\<rparr>"

definition readsb :: "u32 \<Rightarrow> fstate \<Rightarrow> fstate result" where
  "readsb dev st = bindR (fread dev 1 st) (\<lambda>(bp, st). frelse bp (st\<lparr>f_sb := sb_of (fdata bp st)\<rparr>))"

definition FSMAGIC :: u32 where "FSMAGIC = 0x10203040"

definition fsinit :: "u32 \<Rightarrow> fstate \<Rightarrow> fstate result" where
  "fsinit dev st =
     bindR (readsb dev st) (\<lambda>st.
       if sb_magic (f_sb st) \<noteq> FSMAGIC then Panic ''invalid file system''
       else bindR (initlog dev (sb_logstart (f_sb st)) (sb_nlog (f_sb st)) (f_log st) (f_sys st)) (\<lambda>(lg, s).
            Ok (st\<lparr>f_log := lg, f_sys := s\<rparr>)))"

section \<open>Free blocks\<close>

definition BPB :: nat where "BPB = BSIZE * 8"

definition BBLOCK :: "nat \<Rightarrow> superblock \<Rightarrow> u32" where
  "BBLOCK b S = of_nat (b div BPB) + sb_bmapstart S"

text \<open>The bit of a block in a bitmap block: \<open>data[bi/8] & m\<close> with \<open>m = 1 << (bi % 8)\<close>.\<close>

definition bit_set :: "block \<Rightarrow> nat \<Rightarrow> bool" where
  "bit_set x bi \<longleftrightarrow> x ! (bi div 8) AND push_bit (bi mod 8) 1 \<noteq> 0"

definition set_bit_at :: "nat \<Rightarrow> block \<Rightarrow> block" where
  "set_bit_at bi x = x[bi div 8 := x ! (bi div 8) OR push_bit (bi mod 8) 1]"

definition clear_bit_at :: "nat \<Rightarrow> block \<Rightarrow> block" where
  "clear_bit_at bi x = x[bi div 8 := x ! (bi div 8) AND NOT (push_bit (bi mod 8) 1)]"

definition fs_bzero :: "u32 \<Rightarrow> u32 \<Rightarrow> fstate \<Rightarrow> fstate result" where
  "fs_bzero dev bno st =
     bindR (fread dev bno st) (\<lambda>(bp, st). bindR (flog bp (replicate BSIZE 0) st) (frelse bp))"

text \<open>The loops of \<open>balloc\<close>: over the blocks of the bitmap, and over the bits of each.\<close>

fun balloc_loop :: "u32 \<Rightarrow> nat list \<Rightarrow> fstate \<Rightarrow> (u32 \<times> fstate) result" where
  "balloc_loop dev [] st = Ok (0, st)"
| "balloc_loop dev (b # bs) st =
     bindR (fread dev (BBLOCK b (f_sb st)) st) (\<lambda>(bp, st).
       case find (\<lambda>bi. \<not> bit_set (fdata bp st) bi) [0..<min BPB (unat (sb_size (f_sb st)) - b)] of
         Some bi \<Rightarrow> bindR (flog bp (set_bit_at bi (fdata bp st)) st) (\<lambda>st.
                    bindR (frelse bp st) (\<lambda>st.
                    bindR (fs_bzero dev (of_nat (b + bi)) st) (\<lambda>st. Ok (of_nat (b + bi), st))))
       | None \<Rightarrow> bindR (frelse bp st) (balloc_loop dev bs))"

definition balloc :: "u32 \<Rightarrow> fstate \<Rightarrow> (u32 \<times> fstate) result" where
  "balloc dev st = balloc_loop dev (map (\<lambda>i. i * BPB) [0..<(unat (sb_size (f_sb st)) + BPB - 1) div BPB]) st"

definition bfree :: "u32 \<Rightarrow> u32 \<Rightarrow> fstate \<Rightarrow> fstate result" where
  "bfree dev b st =
     bindR (fread dev (BBLOCK (unat b) (f_sb st)) st) (\<lambda>(bp, st).
       let bi = unat b mod BPB
       in if \<not> bit_set (fdata bp st) bi then Panic ''freeing free block''
          else bindR (flog bp (clear_bit_at bi (fdata bp st)) st) (frelse bp))"

section \<open>Blocks within a transaction\<close>

text \<open>The current contents of the blocks.\<close>

definition fview :: "fstate \<Rightarrow> u32 \<Rightarrow> block" where
  "fview st = view (f_sys st)"

text \<open>A transaction is open, and the buffers and blocks in \<open>H\<close> are held.\<close>

definition in_txn :: "u32 \<Rightarrow> nat \<Rightarrow> (nat \<times> u32) set \<Rightarrow> fstate \<Rightarrow> bool" where
  "in_txn D k H st \<longleftrightarrow>
     (\<exists>pins. bio_ok D (f_sys st) (fst ` H) pins \<and> pinned (f_sys st) pins (set (logged (f_log st)))) \<and>
     (\<forall>(b, a) \<in> H. cached (f_sys st) a b) \<and> ldev (f_log st) = D \<and> D \<noteq> 0 \<and> 0 \<le> lhn (f_log st) \<and> lhn (f_log st) \<le> int k \<and>
     k < NBUF \<and> length (lhblock (f_log st)) = LOGSIZE \<and> distinct (logged (f_log st)) \<and>
     set (logged (f_log st)) \<inter> logarea (lstart (f_log st)) k = {} \<and>
     (\<forall>a. a \<notin> set (logged (f_log st)) \<longrightarrow> fview st a = dsk (f_sys st) a) \<and> sint (get32 (dsk (f_sys st) (lstart (f_log st))) 0) = 0 \<and>
     llock (f_log st) = initlock \<and> \<not> committing (f_log st) \<and> 1 \<le> outstanding (f_log st) \<and> lsize (f_log st) = int k + 1"

text \<open>With no block held this is the invariant of an open transaction.\<close>

lemma in_txn_open: "in_txn D k {} st \<longleftrightarrow> open_txn D k (f_log st) (f_sys st)"
  by (auto simp: in_txn_def open_txn_def txn_ok_def quiet_def fview_def)

text \<open>What the steps of a transaction keep; at most \<open>n\<close> blocks are added to the log.\<close>

definition evolves :: "nat \<Rightarrow> fstate \<Rightarrow> fstate \<Rightarrow> bool" where
  "evolves n st st' \<longleftrightarrow>
     lhn (f_log st') \<le> lhn (f_log st) + int n \<and> set (logged (f_log st)) \<subseteq> set (logged (f_log st')) \<and> lstart (f_log st') = lstart (f_log st) \<and>
     outstanding (f_log st') = outstanding (f_log st) \<and>
     f_sb st' = f_sb st \<and> it_lock st' = it_lock st \<and> itable st' = itable st \<and>
     dsk (f_sys st') = dsk (f_sys st) \<and> dwrites (f_sys st') = dwrites (f_sys st) \<and> fpid (f_sys st') = fpid (f_sys st)"

lemma evolves_refl [simp, intro]: "evolves n st st"
  by (simp add: evolves_def)

lemma evolves_trans: "evolves n st st' \<Longrightarrow> evolves m st' st'' \<Longrightarrow> n + m \<le> l \<Longrightarrow> evolves l st st''"
  by (auto simp: evolves_def)

lemma evolvesD:
  assumes "evolves n st st'"
  shows "f_sb st' = f_sb st" "itable st' = itable st" "it_lock st' = it_lock st" "lstart (f_log st') = lstart (f_log st)"
    "lhn (f_log st') \<le> lhn (f_log st) + int n"
  using assms by (simp_all add: evolves_def)

lemma in_txnD:
  assumes "in_txn D k H st"
  shows "(b, a) \<in> H \<Longrightarrow> fdata b st = fview st a" "is_block (fview st a)" "ldev (f_log st) = D" "cpu_idle (fhart (f_sys st))" "k < NBUF"
    "card (set (logged (f_log st))) = nat (lhn (f_log st))" "finite H" "0 \<le> lhn (f_log st)"
proof -
  obtain pins where i: "bio_ok D (f_sys st) (fst ` H) pins" using assms by (auto simp: in_txn_def)
  show "fdata b st = fview st a" if "(b, a) \<in> H"
    using assms that view_cached [OF i, of a b] by (auto simp: in_txn_def fdata_def fview_def)
  show "is_block (fview st a)" unfolding fview_def by (rule is_block_view [OF i])
  show "cpu_idle (fhart (f_sys st))" using bio_okD(1) [OF i] .
  show "ldev (f_log st) = D" "k < NBUF" "0 \<le> lhn (f_log st)" using assms by (simp_all add: in_txn_def)
  have "nat (lhn (f_log st)) \<le> LOGSIZE" using assms by (auto simp: in_txn_def NBUF_def LOGSIZE_def MAXOPBLOCKS_def)
  then have "length (logged (f_log st)) = nat (lhn (f_log st))" using assms by (simp add: in_txn_def)
  then show "card (set (logged (f_log st))) = nat (lhn (f_log st))" using assms distinct_card [of "logged (f_log st)"] by (simp add: in_txn_def)
  have "\<forall>p \<in> H. snd p = blockno (bufs (f_sys st) (fst p))" using assms by (auto simp: in_txn_def cached_def)
  then have "inj_on fst H" by (auto simp: inj_on_def prod_eq_iff)
  moreover have "finite (fst ` H)" using bio_okD(6) [OF i] finite_subset [of "fst ` H" "{..<NBUF}"] by auto
  ultimately show "finite H" using finite_image_iff by blast
qed

lemma in_txn_cached: "in_txn D k H st \<Longrightarrow> (b, a) \<in> H \<Longrightarrow> cached (f_sys st) a b"
  by (auto simp: in_txn_def)

lemma in_txn_cong:
  assumes "in_txn D k H st" "bio_ok D (f_sys st') (fst ` H') pins" "pinned (f_sys st') pins (set (logged (f_log st)))"
    "\<forall>(b, a) \<in> H'. cached (f_sys st') a b" "f_log st' = f_log st" "\<forall>a. a \<notin> set (logged (f_log st)) \<longrightarrow> fview st' a = fview st a"
    "dsk (f_sys st') = dsk (f_sys st)"
  shows "in_txn D k H' st'"
proof -
  have "\<exists>pins. bio_ok D (f_sys st') (fst ` H') pins \<and> pinned (f_sys st') pins (set (logged (f_log st')))" using assms(2,3,5) by auto
  then show ?thesis using assms(1,4-7) unfolding in_txn_def by simp
qed

lemma fread_spec:
  assumes t: "in_txn D k H st" and a: "a \<notin> snd ` H" and room: "a \<in> set (logged (f_log st)) \<or> nat (lhn (f_log st)) + card H < NBUF"
  obtains b st' where "fread D a st = Ok (b, st')" "in_txn D k (insert (b, a) H) st'" "(b, a) \<notin> H" "fview st' = fview st" "evolves 0 st st'"
    "f_log st' = f_log st" "fdata b st' = fview st a"
proof -
  obtain pins where i: "bio_ok D (f_sys st) (fst ` H) pins" and p: "pinned (f_sys st) pins (set (logged (f_log st)))"
    using t by (auto simp: in_txn_def)
  have held: "blockno (bufs (f_sys st) b) \<noteq> a" if b: "b \<in> fst ` H" for b
  proof -
    obtain y where y: "(b, y) \<in> H" using b by auto
    then have "blockno (bufs (f_sys st) b) = y" using in_txn_cached [OF t] by (simp add: cached_def)
    then show ?thesis using y a by force
  qed
  have "card (fst ` H) \<le> card H" by (rule card_image_le [OF in_txnD(7) [OF t]])
  then have r: "a \<in> set (logged (f_log st)) \<or> card (set (logged (f_log st))) + card (fst ` H) < NBUF"
    using room in_txnD(6) [OF t] by linarith
  show thesis
  proof (rule bread_quiet [OF i p held r])
    fix b s'
    assume b: "bread D a (f_sys st) = Ok (b, s')" "b \<notin> fst ` H" "bio_ok D s' (insert b (fst ` H)) pins" "cached s' a b"
      "bdata (bufs s' b) = view (f_sys st) a" "view s' = view (f_sys st)" "dev_same (f_sys st) s'" "pinned s' pins (set (logged (f_log st)))"
      "\<And>c. c \<in> fst ` H \<Longrightarrow> bufs s' c = bufs (f_sys st) c"
    let ?st = "st\<lparr>f_sys := s'\<rparr>"
    have "cached s' y c" if "(c, y) \<in> H" for c y
    proof -
      have "cached (f_sys st) y c" by (rule in_txn_cached [OF t that])
      moreover have "c \<in> fst ` H" using that by (metis fst_conv image_eqI)
      ultimately show ?thesis using b(9) [of c] by (simp add: cached_def)
    qed
    then have h: "\<forall>(c, y) \<in> insert (b, a) H. cached s' y c" using b(4) by auto
    have d: "dsk s' = dsk (f_sys st)" using b(7) by (simp add: dev_same_def)
    have "in_txn D k (insert (b, a) H) ?st"
      by (rule in_txn_cong [OF t]) (use b(3,6,8) d h in \<open>simp_all add: fview_def\<close>)
    moreover have "fread D a st = Ok (b, ?st)" using b(1) by (simp add: fread_def)
    moreover have "(b, a) \<notin> H" using b(2) by force
    ultimately show thesis using that [of b ?st] b(5-7) by (simp add: evolves_def fview_def fdata_def dev_same_def)
  qed
qed

lemma frelse_spec:
  assumes t: "in_txn D k H st" and b: "(b, a) \<in> H"
  obtains st' where "frelse b st = Ok st'" "in_txn D k (H - {(b, a)}) st'" "fview st' = fview st" "evolves 0 st st'" "f_log st' = f_log st"
proof -
  obtain pins where i: "bio_ok D (f_sys st) (fst ` H) pins" and p: "pinned (f_sys st) pins (set (logged (f_log st)))"
    using t by (auto simp: in_txn_def)
  have c: "cached (f_sys st) a b" using t b by (auto simp: in_txn_def)
  have bH: "b \<in> fst ` H" using b by force
  have "0 < pins b \<or> bdata (bufs (f_sys st) b) = dsk (f_sys st) (blockno (bufs (f_sys st) b))"
  proof (cases "a \<in> set (logged (f_log st))")
    case True
    then show ?thesis using pinned_buf(1) [OF i p c] by simp
  next
    case False
    then have "fview st a = dsk (f_sys st) a" using t by (simp add: in_txn_def)
    then show ?thesis using in_txnD(1) [OF t b] c by (simp add: fdata_def cached_def)
  qed
  then obtain s' where s': "brelse b (f_sys st) = Ok s'" "bio_ok D s' (fst ` H - {b}) pins" "pinned s' pins (set (logged (f_log st)))"
    "view s' = view (f_sys st)" "dsk s' = dsk (f_sys st)" "dwrites s' = dwrites (f_sys st)" "data_same (f_sys st) s'"
    using brelse_quiet [OF i p bH] by metis
  have pid: "fpid s' = fpid (f_sys st)" if "brelse b (f_sys st) = Ok s'"
  proof -
    obtain s2 where "brelse b (f_sys st) = Ok s2" "dev_same (f_sys st) s2"
      using brelse_spec [OF i bH] \<open>0 < pins b \<or> _\<close> by metis
    then show ?thesis using that by (simp add: dev_same_def)
  qed
  let ?st = "st\<lparr>f_sys := s'\<rparr>"
  have "fst ` (H - {(b, a)}) = fst ` H - {b}"
  proof
    have "(b, x) \<in> H \<Longrightarrow> x = a" for x using t c by (auto simp: in_txn_def cached_def)
    then show "fst ` (H - {(b, a)}) \<subseteq> fst ` H - {b}" by force
  qed force
  moreover have "\<forall>(b, a) \<in> H - {(b, a)}. cached s' a b" using in_txn_cached [OF t] data_sameD(1) [OF s'(7)] by auto
  ultimately have "in_txn D k (H - {(b, a)}) ?st" by (intro in_txn_cong [OF t]) (use s'(2-5) in \<open>simp_all add: fview_def\<close>)
  then show thesis using that [of ?st] s' pid by (simp add: frelse_def evolves_def fview_def)
qed

lemma flog_spec:
  assumes t: "in_txn D k H st" and b: "(b, a) \<in> H" and x: "is_block x" and n: "lhn (f_log st) < int k" and a: "a \<notin> logarea (lstart (f_log st)) k"
  obtains st' where "flog b x st = Ok st'" "in_txn D k H st'" "fview st' = (fview st)(a := x)" "evolves 1 st st'" "a \<in> set (logged (f_log st'))"
proof -
  let ?lg = "f_log st" and ?s = "set_data b x (f_sys st)"
  let ?P = "set (logged ?lg)"
  obtain pins where i: "bio_ok D (f_sys st) (fst ` H) pins" and p: "pinned (f_sys st) pins ?P" using t by (auto simp: in_txn_def)
  have c: "cached (f_sys st) a b" using t b by (auto simp: in_txn_def)
  have bH: "b \<in> fst ` H" using b by force
  have bno: "blockno (bufs (f_sys st) b) = a" using c by (simp add: cached_def)
  have c2: "cached ?s = cached (f_sys st)" by (intro ext) (auto simp: cached_def set_data_def)
  note s2 = set_data_spec [OF i bH x, unfolded bno]
  have p2: "pinned ?s pins ?P" using p by (simp add: pinned_def c2)
  have cb: "cached ?s a b" using c by (simp add: c2)
  have bn2: "blockno (bufs ?s b) = a" using cb by (simp add: cached_def)
  have T: "llock ?lg = initlock" "0 \<le> lhn ?lg" "1 \<le> outstanding ?lg" "length (lhblock ?lg) = LOGSIZE" "k < NBUF" "lsize ?lg = int k + 1"
    using t by (simp_all add: in_txn_def)
  have ls: "lhn ?lg < int LOGSIZE" "lhn ?lg < lsize ?lg - 1" using n T(5,6) by (simp_all add: NBUF_def LOGSIZE_def MAXOPBLOCKS_def)
  note lw = log_write_spec [OF bio_okD(1,2) [OF s2(1)] T(1,2) ls T(3,4) bn2]
  show thesis
  proof (cases "a \<in> ?P")
    case True
    let ?st = "st\<lparr>f_sys := ?s\<rparr>"
    have "in_txn D k H ?st" using t True s2 p2 by (auto simp: in_txn_def fview_def dev_same_def c2)
    moreover have "flog b x st = Ok ?st" using lw True by (simp add: flog_def)
    ultimately show thesis using that [of ?st] True s2 by (simp add: evolves_def fview_def dev_same_def)
  next
    case False
    let ?u = "(bufs ?s b)\<lparr>refcnt := refcnt (bufs ?s b) + 1\<rparr>" and ?pins = "pins(b := 1)"
    define s' where "s' = ?s\<lparr>bufs := (bufs ?s)(b := ?u)\<rparr>"
    define l where "l = ?lg\<lparr>lhn := lhn ?lg + 1, lhblock := (lhblock ?lg)[nat (lhn ?lg) := a]\<rparr>"
    let ?st = "st\<lparr>f_log := l, f_sys := s'\<rparr>"
    have pb: "pins b = 0" using False pinned_buf [OF s2(1) p2 cb] by simp
    have "refcnt (bufs ?s b) = 1" using bio_okD(3) [OF s2(1) bio_okD(6) [OF s2(1) bH]] bH pb by (simp add: buf_ok_def)
    then have s3: "bio_ok D s' (fst ` H) ?pins" "view s' = view ?s" "dev_same ?s s'" "data_same ?s s'"
      using pins_spec [OF s2(1) bH, of ?u 1] by (simp_all add: s'_def)
    have p3: "pinned s' ?pins (insert a ?P)" by (rule pinned_insert [OF p2 pb cb s3(4)])
    have lo: "logged l = logged ?lg @ [a]" using T(2,4) ls(1) by (simp add: l_def nat_add_distrib take_Suc_conv_app_nth)
    have l: "ldev l = ldev ?lg" "lhn l = lhn ?lg + 1" "length (lhblock l) = length (lhblock ?lg)" "lstart l = lstart ?lg" "llock l = llock ?lg"
      "committing l = committing ?lg" "outstanding l = outstanding ?lg" "lsize l = lsize ?lg" by (simp_all add: l_def)
    note lo = lo [unfolded l(2)]
    have v: "view s' = (view (f_sys st))(a := x)" using s3(2) s2(2) by simp
    have d: "dsk s' = dsk (f_sys st)" "dwrites s' = dwrites (f_sys st)" "fpid s' = fpid (f_sys st)" using s2(3) s3(3) by (simp_all add: dev_same_def)
    have c3: "cached s' = cached (f_sys st)" using data_sameD(1) [OF s3(4)] c2 by (intro ext) simp
    have "in_txn D k H ?st" using t s3(1) p3 n a False by (auto simp: in_txn_def lo l v d c3 fview_def)
    moreover have "flog b x st = Ok ?st" using lw False by (simp add: flog_def s'_def l_def)
    ultimately show thesis using that [of ?st] by (simp add: evolves_def lo l v d fview_def) blast
  qed
qed

text \<open>Reading a block, changing it, logging and releasing it, with at most one other block held.\<close>

lemma fupdate_spec:
  assumes t: "in_txn D k H st" and a: "a \<notin> snd ` H" "a \<notin> logarea (lstart (f_log st)) k" and n: "lhn (f_log st) < int k" "card H \<le> 1"
    and x: "is_block x"
  obtains b st1 st' where "fread D a st = Ok (b, st1)" "fdata b st1 = fview st a" "f_sb st1 = f_sb st"
    "bindR (flog b x st1) (frelse b) = Ok st'" "in_txn D k H st'" "fview st' = (fview st)(a := x)" "evolves 1 st st'"
proof -
  have "nat (lhn (f_log st)) + card H < NBUF" using n in_txnD(5,8) [OF t] by linarith
  from fread_spec [OF t a(1) disjI2 [OF this]] obtain b st1 where b: "fread D a st = Ok (b, st1)" "in_txn D k (insert (b, a) H) st1"
    "(b, a) \<notin> H" "fview st1 = fview st" "evolves 0 st st1" "f_log st1 = f_log st" "fdata b st1 = fview st a" .
  have m: "lhn (f_log st1) < int k" "a \<notin> logarea (lstart (f_log st1)) k" using n(1) a(2) b(6) by simp_all
  from flog_spec [OF b(2) insertI1 x m] obtain st2 where st2: "flog b x st1 = Ok st2" "in_txn D k (insert (b, a) H) st2"
    "fview st2 = (fview st1)(a := x)" "evolves 1 st1 st2" "a \<in> set (logged (f_log st2))" .
  from frelse_spec [OF st2(2) insertI1] obtain st' where st': "frelse b st2 = Ok st'" "in_txn D k (insert (b, a) H - {(b, a)}) st'"
    "fview st' = fview st2" "evolves 0 st2 st'" "f_log st' = f_log st2" .
  have "insert (b, a) H - {(b, a)} = H" using b(3) by auto
  then have i: "in_txn D k H st'" using st'(2) by simp
  have e: "evolves 1 st st'" by (rule evolves_trans [OF evolves_trans [OF b(5) st2(4) order_refl] st'(4)]) simp
  have r: "bindR (flog b x st1) (frelse b) = Ok st'" using st2(1) st'(1) by simp
  have v: "fview st' = (fview st)(a := x)" using st2(3) st'(3) b(4) by simp
  show thesis by (rule that [OF b(1,7) evolvesD(1) [OF b(5)] r i v e])
qed

section \<open>The bitmap\<close>

lemma bit_set_iff: "bit_set x bi \<longleftrightarrow> bit (x ! (bi div 8)) (bi mod 8)"
  by (simp add: bit_set_def push_bit_eq_mult and_exp_eq_0_iff_not_bit)

lemma is_block_bits: "is_block (set_bit_at bi x) = is_block x" "is_block (clear_bit_at bi x) = is_block x"
  by (simp_all add: is_block_def set_bit_at_def clear_bit_at_def)

lemma bit_set_at:
  assumes "is_block x" "bi < BPB"
  shows "bit_set (set_bit_at bi x) bj \<longleftrightarrow> bj = bi \<or> bit_set x bj" "bit_set (clear_bit_at bi x) bj \<longleftrightarrow> bj \<noteq> bi \<and> bit_set x bj"
proof -
  have l: "bi div 8 < length x" using assms by (simp add: is_block_def BPB_def)
  have e: "bj = bi \<longleftrightarrow> bj div 8 = bi div 8 \<and> bj mod 8 = bi mod 8" by (metis div_mult_mod_eq)
  show "bit_set (set_bit_at bi x) bj \<longleftrightarrow> bj = bi \<or> bit_set x bj" "bit_set (clear_bit_at bi x) bj \<longleftrightarrow> bj \<noteq> bi \<and> bit_set x bj"
    using l unfolding e by (auto simp: bit_set_iff set_bit_at_def clear_bit_at_def nth_list_update bit_or_iff bit_and_iff bit_not_iff bit_exp_iff)
qed

definition used :: "superblock \<Rightarrow> (u32 \<Rightarrow> block) \<Rightarrow> nat \<Rightarrow> bool" where
  "used S V b \<longleftrightarrow> bit_set (V (BBLOCK b S)) (b mod BPB)"

text \<open>The effect of the allocation of a block on the contents of the disk.\<close>

definition alloc_view :: "superblock \<Rightarrow> nat \<Rightarrow> (u32 \<Rightarrow> block) \<Rightarrow> u32 \<Rightarrow> block" where
  "alloc_view S b V = V(BBLOCK b S := set_bit_at (b mod BPB) (V (BBLOCK b S)), of_nat b := replicate BSIZE 0)"

lemma fs_bzero_spec:
  assumes t: "in_txn D k H st" and a: "a \<notin> snd ` H" "a \<notin> logarea (lstart (f_log st)) k" and n: "lhn (f_log st) < int k" "card H \<le> 1"
  obtains st' where "fs_bzero D a st = Ok st'" "in_txn D k H st'" "fview st' = (fview st)(a := replicate BSIZE 0)" "evolves 1 st st'"
proof -
  have "is_block (replicate BSIZE 0)" by (simp add: is_block_def)
  from fupdate_spec [OF t a n this] obtain b st1 st' where b: "fread D a st = Ok (b, st1)" "fdata b st1 = fview st a" "f_sb st1 = f_sb st"
    "bindR (flog b (replicate BSIZE 0) st1) (frelse b) = Ok st'" "in_txn D k H st'" "fview st' = (fview st)(a := replicate BSIZE 0)" "evolves 1 st st'" .
  have "fs_bzero D a st = Ok st'" using b(1,4) by (simp add: fs_bzero_def)
  then show thesis by (rule that [OF _ b(5-7)])
qed

lemma balloc_loop_spec:
  assumes t: "in_txn D k H st" and n: "lhn (f_log st) + 2 \<le> int k" "card H \<le> 1"
    and bs: "\<forall>b \<in> set bs. BPB dvd b \<and> BBLOCK b (f_sb st) \<notin> snd ` H \<union> logarea (lstart (f_log st)) k"
    and free: "\<forall>b < unat (sb_size (f_sb st)). \<not> used (f_sb st) (fview st) b \<longrightarrow> of_nat b \<notin> snd ` H \<union> logarea (lstart (f_log st)) k"
  shows "(\<exists>st'. balloc_loop D bs st = Ok (0, st') \<and> in_txn D k H st' \<and> fview st' = fview st \<and> evolves 0 st st' \<and>
      (\<forall>b \<in> set bs. \<forall>i < min BPB (unat (sb_size (f_sb st)) - b). used (f_sb st) (fview st) (b + i))) \<or>
    (\<exists>b st'. b < unat (sb_size (f_sb st)) \<and> \<not> used (f_sb st) (fview st) b \<and> balloc_loop D bs st = Ok (of_nat b, st') \<and> in_txn D k H st' \<and>
      fview st' = alloc_view (f_sb st) b (fview st) \<and> evolves 2 st st')"
  using assms
proof (induction bs arbitrary: st)
  case Nil
  then show ?case by auto
next
  case (Cons c bs)
  let ?S = "f_sb st" and ?V = "fview st"
  let ?a = "BBLOCK c ?S" and ?sz = "unat (sb_size (f_sb st))"
  have a: "?a \<notin> snd ` H" "?a \<notin> logarea (lstart (f_log st)) k" and c: "BPB dvd c" using Cons.prems(4) by auto
  have P: "0 < BPB" by (simp add: BPB_def BSIZE_def)
  have sub: "BBLOCK (c + i) ?S = ?a" "(c + i) mod BPB = i" if "i < BPB" for i
    using that c by (auto simp: BBLOCK_def elim!: dvdE)
  have us: "bit_set (?V ?a) i \<longleftrightarrow> used ?S ?V (c + i)" if "i < BPB" for i using sub [OF that] by (simp add: used_def)
  show ?case
  proof (cases "find (\<lambda>i. \<not> bit_set (?V ?a) i) [0..<min BPB (?sz - c)]")
    case None
    have full: "\<forall>i < min BPB (?sz - c). used ?S ?V (c + i)" using None us by (auto simp: find_None_iff)
    have "nat (lhn (f_log st)) + card H < NBUF" using Cons.prems(2,3) in_txnD(5,8) [OF Cons.prems(1)] by linarith
    from fread_spec [OF Cons.prems(1) a(1) disjI2 [OF this]] obtain b st1 where b: "fread D ?a st = Ok (b, st1)" "in_txn D k (insert (b, ?a) H) st1"
      "(b, ?a) \<notin> H" "fview st1 = ?V" "evolves 0 st st1" "f_log st1 = f_log st" "fdata b st1 = ?V ?a" .
    from frelse_spec [OF b(2) insertI1] obtain st2 where st2: "frelse b st1 = Ok st2" "in_txn D k (insert (b, ?a) H - {(b, ?a)}) st2"
      "fview st2 = fview st1" "evolves 0 st1 st2" "f_log st2 = f_log st1" .
    have i2: "in_txn D k H st2" "fview st2 = ?V" "f_log st2 = f_log st" "f_sb st2 = ?S" "evolves 0 st st2"
      using st2 b evolvesD(1) [OF b(5)] evolvesD(1) [OF st2(4)] evolves_trans [OF b(5) st2(4)] by simp_all
    have run: "balloc_loop D (c # bs) st = balloc_loop D bs st2" using b(1,7) evolvesD(1) [OF b(5)] None st2(1) by simp
    have pre: "lhn (f_log st2) + 2 \<le> int k" "\<forall>b \<in> set bs. BPB dvd b \<and> BBLOCK b (f_sb st2) \<notin> snd ` H \<union> logarea (lstart (f_log st2)) k"
      "\<forall>b < unat (sb_size (f_sb st2)). \<not> used (f_sb st2) (fview st2) b \<longrightarrow> of_nat b \<notin> snd ` H \<union> logarea (lstart (f_log st2)) k"
      using Cons.prems i2(2-4) by simp_all
    note ih = Cons.IH [OF i2(1) pre(1) Cons.prems(3) pre(2,3), unfolded i2(2,4)]
    show ?thesis using ih
    proof (elim disjE exE conjE)
      fix st' assume "balloc_loop D bs st2 = Ok (0, st')" "in_txn D k H st'" "fview st' = ?V" "evolves 0 st2 st'"
        "\<forall>b \<in> set bs. \<forall>i < min BPB (?sz - b). used ?S ?V (b + i)"
      then show ?thesis unfolding run using full evolves_trans [OF i2(5), of 0 st' 0] by (intro disjI1 exI [of _ st']) simp
    next
      fix b st' assume "b < ?sz" "\<not> used ?S ?V b" "balloc_loop D bs st2 = Ok (of_nat b, st')" "in_txn D k H st'" "fview st' = alloc_view ?S b ?V" "evolves 2 st2 st'"
      then show ?thesis unfolding run using evolves_trans [OF i2(5), of 2 st' 2] by (intro disjI2 exI [of _ b] exI [of _ st']) simp
    qed
  next
    case (Some i)
    then have i: "i < min BPB (?sz - c)" "\<not> bit_set (?V ?a) i" by (auto simp: find_Some_iff)
    then have f: "\<not> used ?S ?V (c + i)" "c + i < ?sz" "i < BPB" using us [of i] by auto
    have n1: "lhn (f_log st) < int k" using Cons.prems(2) by simp
    have x: "is_block (set_bit_at i (?V ?a))" using in_txnD(2) [OF Cons.prems(1)] by (simp add: is_block_bits)
    obtain b st1 st2 where b: "fread D ?a st = Ok (b, st1)" "fdata b st1 = ?V ?a" "f_sb st1 = ?S" "bindR (flog b (set_bit_at i (?V ?a)) st1) (frelse b) = Ok st2"
      "in_txn D k H st2" "fview st2 = ?V(?a := set_bit_at i (?V ?a))" "evolves 1 st st2"
      using fupdate_spec [OF Cons.prems(1) a n1 Cons.prems(3) x] .
    have n2: "lhn (f_log st2) < int k" "lstart (f_log st2) = lstart (f_log st)" using evolvesD(4,5) [OF b(7)] Cons.prems(2) by auto
    have fr: "of_nat (c + i) \<notin> snd ` H" "of_nat (c + i) \<notin> logarea (lstart (f_log st2)) k"
      using Cons.prems(5) [rule_format, OF f(2,1)] unfolding n2(2) by blast+
    obtain st' where st': "fs_bzero D (of_nat (c + i)) st2 = Ok st'" "in_txn D k H st'" "fview st' = (fview st2)(of_nat (c + i) := replicate BSIZE 0)" "evolves 1 st2 st'"
      using fs_bzero_spec [OF b(5) fr n2(1) Cons.prems(3)] .
    have "balloc_loop D (c # bs) st = Ok (of_nat (c + i), st')" using b(1-4) Some st'(1) by (auto simp: bindR_Ok_iff)
    moreover have "fview st' = alloc_view ?S (c + i) ?V" using st'(3) b(6) sub [OF f(3)] by (simp add: alloc_view_def)
    moreover have "evolves 2 st st'" by (rule evolves_trans [OF b(7) st'(4)]) simp
    ultimately show ?thesis using f(1,2) st'(2) by (intro disjI2 exI [of _ "c + i"] exI [of _ st']) simp
  qed
qed

text \<open>The bitmap blocks and the free blocks are outside the log and not held, and every block of the file system has its bit.\<close>

definition bitmap_ok :: "nat \<Rightarrow> u32 set \<Rightarrow> fstate \<Rightarrow> bool" where
  "bitmap_ok k A st \<longleftrightarrow>
     (\<forall>b < unat (sb_size (f_sb st)). BBLOCK b (f_sb st) \<notin> A \<union> logarea (lstart (f_log st)) k \<and>
        (\<not> used (f_sb st) (fview st) b \<longrightarrow> of_nat b \<notin> A \<union> logarea (lstart (f_log st)) k))"

lemma balloc_spec:
  assumes t: "in_txn D k H st" and n: "lhn (f_log st) + 2 \<le> int k" "card H \<le> 1" and m: "bitmap_ok k (snd ` H) st"
  shows "(\<exists>st'. balloc D st = Ok (0, st') \<and> in_txn D k H st' \<and> fview st' = fview st \<and> evolves 0 st st' \<and>
      (\<forall>b < unat (sb_size (f_sb st)). used (f_sb st) (fview st) b)) \<or>
    (\<exists>b st'. b < unat (sb_size (f_sb st)) \<and> \<not> used (f_sb st) (fview st) b \<and> balloc D st = Ok (of_nat b, st') \<and> in_txn D k H st' \<and>
      fview st' = alloc_view (f_sb st) b (fview st) \<and> evolves 2 st st')"
proof -
  let ?sz = "unat (sb_size (f_sb st))"
  let ?bs = "map (\<lambda>i. i * BPB) [0..<(?sz + BPB - 1) div BPB]"
  have P: "0 < BPB" by (simp add: BPB_def BSIZE_def)
  have lt: "i * BPB < ?sz" if "i < (?sz + BPB - 1) div BPB" for i
  proof -
    have "Suc i * BPB \<le> (?sz + BPB - 1) div BPB * BPB" using that by (intro mult_le_mono1) simp
    also have "\<dots> \<le> ?sz + BPB - 1" by simp
    finally have "Suc i * BPB \<le> ?sz + BPB - 1" .
    then show ?thesis using P by simp
  qed
  have "\<forall>b \<in> set ?bs. BPB dvd b \<and> BBLOCK b (f_sb st) \<notin> snd ` H \<union> logarea (lstart (f_log st)) k" using m lt by (auto simp: bitmap_ok_def)
  moreover have "\<forall>b < ?sz. \<not> used (f_sb st) (fview st) b \<longrightarrow> of_nat b \<notin> snd ` H \<union> logarea (lstart (f_log st)) k" using m by (simp add: bitmap_ok_def)
  note r = balloc_loop_spec [OF t n calculation this]
  have "used (f_sb st) (fview st) b" if all: "\<forall>b \<in> set ?bs. \<forall>i < min BPB (?sz - b). used (f_sb st) (fview st) (b + i)" and b: "b < ?sz" for b
  proof -
    have "Suc (b div BPB) = (b + BPB) div BPB" using P by (simp add: div_add_self2)
    also have "\<dots> \<le> (?sz + BPB - 1) div BPB" using b by (intro div_le_mono) simp
    finally have "b div BPB < (?sz + BPB - 1) div BPB" by simp
    then have "(b div BPB) * BPB \<in> set ?bs" by auto
    moreover have "b mod BPB < min BPB (?sz - (b div BPB) * BPB)" using b P by (simp add: less_diff_conv)
    ultimately have "used (f_sb st) (fview st) ((b div BPB) * BPB + b mod BPB)" using all by blast
    then show ?thesis by simp
  qed
  then have "(\<forall>b \<in> set ?bs. \<forall>i < min BPB (?sz - b). used (f_sb st) (fview st) (b + i)) \<longrightarrow> (\<forall>b < ?sz. used (f_sb st) (fview st) b)" by simp
  then show ?thesis using r unfolding balloc_def by (elim disjE exE conjE) (intro disjI1 exI, simp, intro disjI2 exI, simp)
qed

text \<open>\<open>bfree\<close> of a block in use clears its bit and nothing else; of a free block it panics.\<close>

lemma bfree_spec:
  assumes t: "in_txn D k H st" and n: "lhn (f_log st) < int k" "card H \<le> 1"
    and a: "BBLOCK (unat b) (f_sb st) \<notin> snd ` H \<union> logarea (lstart (f_log st)) k" and u: "used (f_sb st) (fview st) (unat b)"
  obtains st' where "bfree D b st = Ok st'" "in_txn D k H st'" "evolves 1 st st'"
    "fview st' = (fview st)(BBLOCK (unat b) (f_sb st) := clear_bit_at (unat b mod BPB) (fview st (BBLOCK (unat b) (f_sb st))))"
proof -
  let ?a = "BBLOCK (unat b) (f_sb st)"
  have a': "?a \<notin> snd ` H" "?a \<notin> logarea (lstart (f_log st)) k" using a by auto
  have x: "is_block (clear_bit_at (unat b mod BPB) (fview st ?a))" using in_txnD(2) [OF t] by (simp add: is_block_bits)
  from fupdate_spec [OF t a' n x] obtain bp st1 st' where b: "fread D ?a st = Ok (bp, st1)" "fdata bp st1 = fview st ?a" "f_sb st1 = f_sb st"
    "bindR (flog bp (clear_bit_at (unat b mod BPB) (fview st ?a)) st1) (frelse bp) = Ok st'" "in_txn D k H st'"
    "fview st' = (fview st)(?a := clear_bit_at (unat b mod BPB) (fview st ?a))" "evolves 1 st st'" .
  have "bfree D b st = Ok st'" using b(1-4) u by (simp add: bfree_def used_def Let_def)
  then show thesis by (rule that [OF _ b(5,7,6)])
qed

lemma BBLOCK_eq:
  assumes "b < 2 ^ 32" "c < 2 ^ 32"
  shows "BBLOCK b S = BBLOCK c S \<longleftrightarrow> b div BPB = c div BPB"
proof -
  have "b div BPB < 2 ^ 32" "c div BPB < 2 ^ 32" using assms div_le_dividend le_less_trans by blast+
  then show ?thesis by (simp add: BBLOCK_def word_of_nat_eq_iff take_bit_nat_eq_self)
qed

lemma bitmap_change:
  assumes V: "is_block (V (BBLOCK b S))" and "b < 2 ^ 32" "c < 2 ^ 32"
  shows "used S (V(BBLOCK b S := set_bit_at (b mod BPB) (V (BBLOCK b S)))) c \<longleftrightarrow> c = b \<or> used S V c"
    "used S (V(BBLOCK b S := clear_bit_at (b mod BPB) (V (BBLOCK b S)))) c \<longleftrightarrow> c \<noteq> b \<and> used S V c"
proof -
  have P: "b mod BPB < BPB" by (simp add: BPB_def BSIZE_def)
  show "used S (V(BBLOCK b S := set_bit_at (b mod BPB) (V (BBLOCK b S)))) c \<longleftrightarrow> c = b \<or> used S V c"
    "used S (V(BBLOCK b S := clear_bit_at (b mod BPB) (V (BBLOCK b S)))) c \<longleftrightarrow> c \<noteq> b \<and> used S V c"
  proof (atomize (full), cases "c div BPB = b div BPB")
    case True
    then have e: "c = b \<longleftrightarrow> c mod BPB = b mod BPB" by (metis div_mult_mod_eq)
    have a: "BBLOCK c S = BBLOCK b S" using True by (simp add: BBLOCK_def)
    show "(used S (V(BBLOCK b S := set_bit_at (b mod BPB) (V (BBLOCK b S)))) c \<longleftrightarrow> c = b \<or> used S V c) \<and>
      (used S (V(BBLOCK b S := clear_bit_at (b mod BPB) (V (BBLOCK b S)))) c \<longleftrightarrow> c \<noteq> b \<and> used S V c)"
      unfolding used_def a e fun_upd_same bit_set_at [OF V P] by simp
  next
    case False
    then have "BBLOCK c S \<noteq> BBLOCK b S" "c \<noteq> b" using BBLOCK_eq [OF assms(3,2), of S] by auto
    then show "(used S (V(BBLOCK b S := set_bit_at (b mod BPB) (V (BBLOCK b S)))) c \<longleftrightarrow> c = b \<or> used S V c) \<and>
      (used S (V(BBLOCK b S := clear_bit_at (b mod BPB) (V (BBLOCK b S)))) c \<longleftrightarrow> c \<noteq> b \<and> used S V c)"
      by (simp add: used_def)
  qed
qed

text \<open>A disk whose free blocks are neither bitmap blocks nor in the log.\<close>

definition free_ok :: "nat \<Rightarrow> fstate \<Rightarrow> bool" where
  "free_ok k st \<longleftrightarrow> bitmap_ok k {} st \<and>
     (\<forall>b c. b < unat (sb_size (f_sb st)) \<and> c < unat (sb_size (f_sb st)) \<and> \<not> used (f_sb st) (fview st) b \<longrightarrow> of_nat b \<noteq> BBLOCK c (f_sb st))"

lemma used_alloc:
  assumes "is_block (V (BBLOCK b S))" "of_nat b \<noteq> BBLOCK c S" "b < 2 ^ 32" "c < 2 ^ 32"
  shows "used S (alloc_view S b V) c \<longleftrightarrow> c = b \<or> used S V c"
  unfolding bitmap_change(1) [of V b S, OF assms(1,3,4), symmetric] using assms(2) by (simp add: used_def alloc_view_def)


text \<open>A small file system: 100 blocks, the log from block 2 on, the bitmap in block 45 with the first 48 blocks in use.\<close>

definition demo_sb :: superblock where
  "demo_sb = \<lparr>sb_magic = FSMAGIC, sb_size = 100, sb_nblocks = 54, sb_ninodes = 200, sb_nlog = 30, sb_logstart = 2, sb_inodestart = 32, sb_bmapstart = 45\<rparr>"

definition demo_disk :: "u32 \<Rightarrow> block" where
  "demo_disk a = (if a = 45 then replicate 6 255 @ replicate (BSIZE - 6) 0 else zero_disk a)"

lemma demo_boot:
  obtains lg s where "idle_log 1 29 lg s" "lstart lg = 2" "\<forall>a. a \<notin> logarea 2 29 \<longrightarrow> dsk s a = demo_disk a"
proof -
  have h: "hn (demo_disk 2) = 0" by (simp add: demo_disk_def hn_def zero_head)
  then have e: "logical 2 demo_disk = demo_disk" by (rule logical_empty)
  have "head_ok 2 29 demo_disk" using zero_disk_ok [of 2 29] h by (auto simp: head_ok_def demo_disk_def is_block_def BSIZE_def)
  then show thesis using reboot_logical [OF first_hart_idle _ _, of 1 2 29 demo_disk] that e by (auto simp: NBUF_def)
qed

lemma demo_logarea: "32 \<le> unat a \<Longrightarrow> a \<notin> logarea 2 29"
proof
  assume a: "32 \<le> unat a" and "a \<in> logarea 2 29"
  then consider "a = 2" | i where "i < 29" "a = of_nat (i + 3)" by (auto simp: logarea_def lblk_def)
  then show False
  proof cases
    case (2 i)
    then have "unat a = i + 3" by (simp only: unat_of_nat) (simp add: take_bit_nat_eq_self)
    then show False using a 2(1) by simp
  qed (use a in simp)
qed

lemma demo_used:
  assumes "b < 100" "V 45 = demo_disk 45"
  shows "used demo_sb V b \<longleftrightarrow> b < 48"
proof -
  have "BBLOCK b demo_sb = 45" "b mod BPB = b" using assms(1) by (simp_all add: BBLOCK_def demo_sb_def BPB_def BSIZE_def)
  then have "used demo_sb V b \<longleftrightarrow> bit (demo_disk 45 ! (b div 8)) (b mod 8)" using assms(2) by (simp add: used_def bit_set_iff)
  also have "\<dots> \<longleftrightarrow> b < 48"
  proof (cases "b < 48")
    case True
    then have "demo_disk 45 ! (b div 8) = - 1" by (simp add: demo_disk_def nth_append less_mult_imp_div_less)
    then show ?thesis using True by simp
  next
    case False
    then have "6 \<le> b div 8" using div_le_mono [of 48 b 8] by simp
    moreover have "b div 8 < BSIZE" using assms(1) by (simp add: BSIZE_def)
    ultimately show ?thesis using False by (simp add: demo_disk_def nth_append)
  qed
  finally show ?thesis .
qed

lemma demo_state:
  obtains st where "in_txn 1 29 {} st" "lhn (f_log st) = 0" "free_ok 29 st" "f_sb st = demo_sb" "\<forall>a. 32 \<le> unat a \<longrightarrow> fview st a = demo_disk a"
    "lstart (f_log st) = 2"
proof -
  obtain lg s where b: "idle_log 1 29 lg s" "lstart lg = 2" "\<forall>a. a \<notin> logarea 2 29 \<longrightarrow> dsk s a = demo_disk a" by (rule demo_boot)
  define st where "st = \<lparr>f_log = lg\<lparr>outstanding := 1\<rparr>, f_sys = s, f_sb = demo_sb, it_lock = initlock,
    itable = (\<lambda>_. \<lparr>i_dev = 0, i_inum = 0, i_ref = 0, i_lock = initsleeplock, i_valid = False, i_type = 0, i_major = 0, i_minor = 0, i_nlink = 0,
      i_size = 0, i_addrs = replicate 13 0\<rparr>)\<rparr>"
  have t: "in_txn 1 29 {} st" using begin_op_idle(2) [OF b(1)] by (simp add: in_txn_open st_def)
  have v: "fview st a = demo_disk a" if "32 \<le> unat a" for a
    using txnD(10) [of 1 29 lg s a] b(1) b(3) [rule_format, OF demo_logarea [OF that]] by (simp add: idle_log_def fview_def st_def)
  have sz: "unat (sb_size demo_sb) = 100" and S: "f_sb st = demo_sb" and l: "lstart (f_log st) = 2" using b(2) by (simp_all add: st_def demo_sb_def)
  have u: "used demo_sb (fview st) c \<longleftrightarrow> c < 48" if "c < 100" for c using demo_used [of c "fview st", OF that] v [of 45] by simp
  have B: "BBLOCK c demo_sb = 45" if "c < 100" for c using that by (simp add: BBLOCK_def demo_sb_def BPB_def BSIZE_def)
  have n: "unat (of_nat c :: u32) = c" if "c < 100" for c using that by (simp add: unat_of_nat take_bit_nat_eq_self)
  have "bitmap_ok 29 {} st"
    unfolding bitmap_ok_def sz S l
  proof (intro allI impI conjI)
    fix c :: nat
    assume c: "c < 100"
    show "BBLOCK c demo_sb \<notin> {} \<union> logarea 2 29" using demo_logarea [of 45] by (simp add: B [OF c])
    show "of_nat c \<notin> {} \<union> logarea 2 29" if "\<not> used demo_sb (fview st) c"
      using demo_logarea [of "of_nat c"] n [OF c] u [OF c] that by simp
  qed
  moreover have "of_nat c \<noteq> BBLOCK e demo_sb" if "c < 100" "e < 100" "\<not> used demo_sb (fview st) c" for c e
  proof
    assume "of_nat c = BBLOCK e demo_sb"
    then have "unat (of_nat c :: u32) = 45" using B [OF that(2)] by simp
    then show False using n [OF that(1)] u [OF that(1)] that(3) by simp
  qed
  ultimately have "free_ok 29 st" unfolding free_ok_def sz S by blast
  moreover have "lhn (f_log st) = 0" using b(1) by (simp add: st_def idle_log_def)
  ultimately show thesis using that t S v l by blast
qed


end
