(* ===== verification/Spec2Isabelle.thy ===== *)
theory Spec2Isabelle
  imports Raid_Example Raid_Layout Pair_Protocol Repair_Protocol Sys_Raid Virtio_Safety Virtio_Init Pipe_Protocol Fs_Block
begin

text \<open>
  Verification of the RAID disk management system built into xv6, and of the kernel parts below and beside it.

  The program. A RISC-V teaching kernel (src/kernel) whose block devices 1 to \<open>DISKS\<close> form a RAID array. A
  system call (sysraid.c) reads or writes one virtual block; raid.c dispatches to the level that is set
  (raid0.c, raid1.c, raid0_1.c, raid4.c, raid5.c), which transfers physical blocks with virtio_disk.c and
  saves the array's metadata in the last block of the disks. The levels allocate pages with kalloc.c and
  synchronise with spin and sleep locks. User memory is reached through the page tables of vm.c. Beside the
  array there is the file system's disk, used through a block cache (bio.c) and a redo log (log.c), and the pipes.

  Conventions (Kernel_Prelude). Stateful functions take the state and return a \<open>result\<close>: \<open>Ok\<close> with the new
  state, \<open>Panic\<close> with its message, \<open>Blocked\<close> where one thread alone would sleep forever, \<open>Fault\<close> for an access
  through a null or wild pointer. C integers that can wrap are words; the others are \<open>nat\<close> or \<open>int\<close>.

  Components.
    \<^item> Locks: spinlock.c and sleeplock.c, with the nesting of \<open>push_off\<close> and \<open>pop_off\<close>.
    \<^item> Kalloc: kalloc.c, the free list threaded through the free pages.
    \<^item> Raid_Meta, Raid_Layout, Raid_Boot: raid.h, the size of \<open>struct RAIDMeta\<close>, \<open>writeraidmeta\<close>, \<open>loadraid\<close>.
    \<^item> Raid_Ops, Raid_Top, Raid_Pair: raid.c. Raid0, Raid1, Raid0_1, Raid4, Raid5: the levels.
      Raid_Mirror and Raid_Parity, Raid_Stripe hold what the mirrored and the parity levels share.
    \<^item> Raid_Spec: the abstract array (written blocks and failed disks) and the locales \<open>raid_array\<close>,
      \<open>mirror_layout\<close>, \<open>parity_layout\<close>, \<open>raid_level\<close>; every level interprets them, and the fault tolerance
      theorems of this theory are the facts of these interpretations.
    \<^item> Pair_Protocol, Repair_Protocol: the same code run by any number of threads, as step relations: readers,
      writers and repairs of a mirrored pair, and writers and repairs of the parity levels.
    \<^item> String_Lib: string.c on a byte-addressed memory. Kernel_Words: 64-bit words and their bytes.
    \<^item> Page_Table, Vm: vm.c, Sv39 page tables in physical memory. Vm_Copy, Vm_Space, Vm_Fork: the effect of
      each function on the page table seen as a tree, on the pages it owns and on the free list. Vm_User: the
      same seen by a process.
    \<^item> Bio, Bio_Cache: bio.c, the cache of disk blocks with its least recently used list. Log, Log_Steps,
      Log_Crash, Log_Recovery, Log_Txn: log.c, the redo log; the state records the sequence of disk writes, and a
      power failure leaves the effect of a first part of it.

    \<^item> Fs_Block: fs.c up to the inodes, the super block and the bitmap; the rules for blocks held in a transaction.
    \<^item> Sys_Raid: sysraid.c and the argument fetching of syscall.c; the system calls as a process sees them.
    \<^item> Virtio, Virtio_Init: virtio_disk.c, descriptors, rings, requests, interrupts and the initialisation of the
      device. Virtio_Protocol, Virtio_Safety: threads, interrupts and the device as a step relation.
    \<^item> Ring: ring buffers with free running counters, a locale that the available ring of the disks and the pipes
      interpret. Pipe, Pipe_Protocol: pipe.c, and any number of readers and writers of a pipe.

  What is shown. RAID: every sequence of writes, failures and repairs that the level tolerates succeeds and
  reads return what was written last; which transfers exclude each other between threads; what is lost at a
  reboot; the error results and the defects found. Memory: no page is lost or shared by growing, copying or
  freeing an address space, on the error paths too; the copies between kernel and user memory. File system
  blocks: the cache is transparent and transactions are atomic under power failures, also during recovery.
  Disk driver: it is safe for any interleaving and makes each transfer once, unless a process is killed. Pipes:
  bytes leave in the order they entered, and no wakeup is lost unless a process is killed.

  Bounds. Disks and blocks are arbitrary subject to \<open>base_ok\<close>; \<open>freewalk\<close> has a depth of 3, the depth of a
  page table, and the theorems show that it is enough. String loops that a missing NUL byte keeps from ending
  are partial functions.

  Not modelled: the other system calls, processes, inodes and directories, and the user programs; assembly,
  the console and the boot order.
\<close>

section \<open>Fault tolerance of the five levels\<close>

text \<open>C1. RAID 5: after \<open>setraidtype(RAID5)\<close> with at most one invalid disk and two free pages, every
  sequence of writes, disk failures and repairs in which at most one disk is failed at a time succeeds
  (each operation returns 0 and none panics, blocks or faults), the failed disks are those of the
  abstract array, and \<open>readraid\<close> of every block written returns the data written last.\<close>

theorem raid5_fault_tolerance:
  assumes "base_ok E s" "parity_tol (failed_disks E s)" "kmem_inv (kernel_end E) (kmem s) (pg # pg' # pgs)"
    and "legal_run E (raid5_cap E) parity_tol (start E s) ops"
  shows "\<exists>s0 s'. setraidtype E 4 s = Ok (0, s0) \<and> run_ops E (writeraid E) ops s0 = Ok (0, s') \<and>
    parity_inv E RAID5 s' \<and> failed_disks E s' = failed (fold astep ops (start E s)) \<and>
    (\<forall>v x buf. content (fold astep ops (start E s)) v = Some x \<longrightarrow>
       (\<exists>T. readraid E (int v) buf s' = Ok (0, x, s'\<lparr>tbuf := T\<rparr>)))"
  using raid5_start [OF assms(1-3)] assms(2,4) by (rule l5.run_from_start)

theorem raid5_fault_tolerance_witness:
  "\<exists>s0 s'. setraidtype (demo_E 4) 4 (demo_state 4) = Ok (0, s0) \<and>
     run_ops (demo_E 4) (writeraid (demo_E 4)) [Write 0 (fill 7), Fail 2, Write 0 (fill 9), Repair 2, Fail 4] s0 = Ok (0, s') \<and>
     failed_disks (demo_E 4) s' = {4} \<and>
     (\<exists>T. readraid (demo_E 4) 0 [] s' = Ok (0, fill 9, s'\<lparr>tbuf := T\<rparr>))"
proof -
  let ?ops = "[Write 0 (fill 7), Fail 2, Write 0 (fill 9), Repair 2, Fail 4]"
  have "legal_run (demo_E 4) (raid5_cap (demo_E 4)) parity_tol (start (demo_E 4) (demo_state 4)) ?ops"
    by (simp add: parity_tol_def diskblockn_val)
  moreover have "kmem_inv (kernel_end (demo_E 4)) (kmem (demo_state 4)) [0x80030000, 0x80031000]"
    using demo_kmem_inv by simp
  ultimately obtain s0 s' where s: "setraidtype (demo_E 4) 4 (demo_state 4) = Ok (0, s0)"
    "run_ops (demo_E 4) (writeraid (demo_E 4)) ?ops s0 = Ok (0, s')" "failed_disks (demo_E 4) s' = {4}"
    "\<And>v x buf. (Map.empty(0 \<mapsto> fill 7, 0 \<mapsto> fill 9)) v = Some x \<Longrightarrow>
       \<exists>T. readraid (demo_E 4) (int v) buf s' = Ok (0, x, s'\<lparr>tbuf := T\<rparr>)"
    using raid5_fault_tolerance [of "demo_E 4" "demo_state 4" "0x80030000" "0x80031000" "[]" ?ops]
    by (auto simp: parity_tol_def)
  from s(1-3) s(4) [of 0 "fill 9" "[]"] show ?thesis by auto
qed

text \<open>C3. RAID 4, under the same conditions as RAID 5: every sequence of writes, failures and repairs with at most
  one failed disk at a time succeeds, and reads return the data written last.\<close>

theorem raid4_fault_tolerance:
  assumes "base_ok E s" "parity_tol (failed_disks E s)" "kmem_inv (kernel_end E) (kmem s) (pg # pg' # pgs)"
    and "legal_run E (raid4_cap E) parity_tol (start E s) ops"
  shows "\<exists>s0 s'. setraidtype E 3 s = Ok (0, s0) \<and> run_ops E (writeraid E) ops s0 = Ok (0, s') \<and>
    parity_inv E RAID4 s' \<and> failed_disks E s' = failed (fold astep ops (start E s)) \<and>
    (\<forall>v x buf. content (fold astep ops (start E s)) v = Some x \<longrightarrow>
       (\<exists>T. readraid E (int v) buf s' = Ok (0, x, s'\<lparr>tbuf := T\<rparr>)))"
  using raid4_start [OF assms(1-3)] assms(2,4) by (rule l4.run_from_start)

theorem raid4_fault_tolerance_witness:
  "\<exists>s0 s'. setraidtype (demo_E 4) 3 (demo_state 4) = Ok (0, s0) \<and>
     run_ops (demo_E 4) (writeraid (demo_E 4)) [Write 0 (fill 7), Fail 2, Write 0 (fill 9), Repair 2, Fail 4] s0 = Ok (0, s') \<and>
     failed_disks (demo_E 4) s' = {4} \<and>
     (\<exists>T. readraid (demo_E 4) 0 [] s' = Ok (0, fill 9, s'\<lparr>tbuf := T\<rparr>))"
proof -
  let ?ops = "[Write 0 (fill 7), Fail 2, Write 0 (fill 9), Repair 2, Fail 4]"
  have "legal_run (demo_E 4) (raid4_cap (demo_E 4)) parity_tol (start (demo_E 4) (demo_state 4)) ?ops"
    by (simp add: parity_tol_def diskblockn_val)
  moreover have "kmem_inv (kernel_end (demo_E 4)) (kmem (demo_state 4)) [0x80030000, 0x80031000]"
    using demo_kmem_inv by simp
  ultimately  obtain s0 s' where s: "setraidtype (demo_E 4) 3 (demo_state 4) = Ok (0, s0)"
    "run_ops (demo_E 4) (writeraid (demo_E 4)) ?ops s0 = Ok (0, s')" "failed_disks (demo_E 4) s' = {4}"
    "\<And>v x buf. (content (fold astep ?ops \<lparr>failed = {}, content = Map.empty\<rparr>)) v = Some x \<Longrightarrow>
       \<exists>T. readraid (demo_E 4) (int v) buf s' = Ok (0, x, s'\<lparr>tbuf := T\<rparr>)"
    using raid4_fault_tolerance [of "demo_E 4" "demo_state 4" "0x80030000" "0x80031000" "[]" ?ops]
    by (auto simp: parity_tol_def)
  from s(1-3) s(4) [of 0 "fill 9" "[]"] show ?thesis by auto
qed

text \<open>C4. RAID 1: after \<open>setraidtype(RAID1)\<close>, every sequence of writes, failures and repairs in which each pair
  keeps a valid disk succeeds, and reads return the data written last. With an odd number of disks the last
  disk is its own pair and must not fail.\<close>

theorem raid1_fault_tolerance:
  assumes "base_ok E s" "raid1_tol E (failed_disks E s)"
    and "legal_run E (raid1_cap E) (raid1_tol E) (start E s) ops"
  shows "\<exists>s0 s'. setraidtype E 1 s = Ok (0, s0) \<and> run_ops E (writeraid E) ops s0 = Ok (0, s') \<and>
    raid1_inv E s' \<and> failed_disks E s' = failed (fold astep ops (start E s)) \<and>
    (\<forall>v x buf. content (fold astep ops (start E s)) v = Some x \<longrightarrow>
       (\<exists>T. readraid E (int v) buf s' = Ok (0, x, s'\<lparr>tbuf := T\<rparr>)))"
  using raid1_start [OF assms(1)] assms(2,3) by (rule l1.run_from_start)

theorem raid1_fault_tolerance_witness:
  "\<exists>s0 s'. setraidtype (demo_E 4) 1 (demo_state 4) = Ok (0, s0) \<and>
     run_ops (demo_E 4) (writeraid (demo_E 4)) [Write 0 (fill 7), Fail 2, Fail 3, Write 0 (fill 9), Repair 2, Fail 1] s0 = Ok (0, s') \<and>
     failed_disks (demo_E 4) s' = {1, 3} \<and>
     (\<exists>T. readraid (demo_E 4) 0 [] s' = Ok (0, fill 9, s'\<lparr>tbuf := T\<rparr>))"
proof -
  let ?ops = "[Write 0 (fill 7), Fail 2, Fail 3, Write 0 (fill 9), Repair 2, Fail 1]"
  have "legal_run (demo_E 4) (raid1_cap (demo_E 4)) (raid1_tol (demo_E 4)) (start (demo_E 4) (demo_state 4)) ?ops"
    by (simp add: mirror_tol_def all_less_2 diskblockn_val)
  then  obtain s0 s' where s: "setraidtype (demo_E 4) 1 (demo_state 4) = Ok (0, s0)"
    "run_ops (demo_E 4) (writeraid (demo_E 4)) ?ops s0 = Ok (0, s')" "failed_disks (demo_E 4) s' = {1, 3}"
    "\<And>v x buf. (content (fold astep ?ops \<lparr>failed = {}, content = Map.empty\<rparr>)) v = Some x \<Longrightarrow>
       \<exists>T. readraid (demo_E 4) (int v) buf s' = Ok (0, x, s'\<lparr>tbuf := T\<rparr>)"
    using raid1_fault_tolerance [of "demo_E 4" "demo_state 4"  ?ops]
    by (auto simp: mirror_tol_def all_less_2 insert_Diff_if)
  from s(1-3) s(4) [of 0 "fill 9" "[]"] show ?thesis by auto
qed

text \<open>C5. RAID 0+1 with an even number of disks: every sequence of writes, failures and repairs in which each of
  the pairs \<open>k\<close>, \<open>k + DISKS / 2\<close> keeps a valid disk succeeds, and reads return the data written last.\<close>

theorem raid0_1_fault_tolerance:
  assumes "base_ok E s" "even (DISKS E)" "raid0_1_tol E (failed_disks E s)"
    and "legal_run E (raid0_1_cap E) (raid0_1_tol E) (start E s) ops"
  shows "\<exists>s0 s'. setraidtype E 2 s = Ok (0, s0) \<and> run_ops E (writeraid E) ops s0 = Ok (0, s') \<and>
    raid0_1_inv E s' \<and> failed_disks E s' = failed (fold astep ops (start E s)) \<and>
    (\<forall>v x buf. content (fold astep ops (start E s)) v = Some x \<longrightarrow>
       (\<exists>T. readraid E (int v) buf s' = Ok (0, x, s'\<lparr>tbuf := T\<rparr>)))"
  using raid0_1_start [OF assms(1,2)] assms(3,4) by (rule l01.run_from_start)

theorem raid0_1_fault_tolerance_witness:
  "\<exists>s0 s'. setraidtype (demo_E 4) 2 (demo_state 4) = Ok (0, s0) \<and>
     run_ops (demo_E 4) (writeraid (demo_E 4)) [Write 0 (fill 7), Fail 1, Fail 2, Write 0 (fill 9), Repair 1, Fail 3] s0 = Ok (0, s') \<and>
     failed_disks (demo_E 4) s' = {3, 2} \<and>
     (\<exists>T. readraid (demo_E 4) 0 [] s' = Ok (0, fill 9, s'\<lparr>tbuf := T\<rparr>))"
proof -
  let ?ops = "[Write 0 (fill 7), Fail 1, Fail 2, Write 0 (fill 9), Repair 1, Fail 3]"
  have "legal_run (demo_E 4) (raid0_1_cap (demo_E 4)) (raid0_1_tol (demo_E 4)) (start (demo_E 4) (demo_state 4)) ?ops"
    by (simp add: mirror_tol_def all_less_2 diskblockn_val)
  then  obtain s0 s' where s: "setraidtype (demo_E 4) 2 (demo_state 4) = Ok (0, s0)"
    "run_ops (demo_E 4) (writeraid (demo_E 4)) ?ops s0 = Ok (0, s')" "failed_disks (demo_E 4) s' = {3, 2}"
    "\<And>v x buf. (content (fold astep ?ops \<lparr>failed = {}, content = Map.empty\<rparr>)) v = Some x \<Longrightarrow>
       \<exists>T. readraid (demo_E 4) (int v) buf s' = Ok (0, x, s'\<lparr>tbuf := T\<rparr>)"
    using raid0_1_fault_tolerance [of "demo_E 4" "demo_state 4"  ?ops]
    by (auto simp: mirror_tol_def all_less_2 insert_Diff_if)
  from s(1-3) s(4) [of 0 "fill 9" "[]"] show ?thesis by auto
qed

text \<open>C6. RAID 0 while no disk fails: every sequence of writes (and repairs of healthy disks) succeeds, and reads
  return the data written last.\<close>

theorem raid0_fault_tolerance:
  assumes "base_ok E s" "raid0_tol (failed_disks E s)"
    and "legal_run E (raid0_cap E) raid0_tol (start E s) ops"
  shows "\<exists>s0 s'. setraidtype E 0 s = Ok (0, s0) \<and> run_ops E (writeraid E) ops s0 = Ok (0, s') \<and>
    raid0_inv E s' \<and> failed_disks E s' = failed (fold astep ops (start E s)) \<and>
    (\<forall>v x buf. content (fold astep ops (start E s)) v = Some x \<longrightarrow>
       (\<exists>T. readraid E (int v) buf s' = Ok (0, x, s'\<lparr>tbuf := T\<rparr>)))"
  using raid0_start [OF assms(1)] assms(2,3) by (rule l0.run_from_start)

theorem raid0_fault_tolerance_witness:
  "\<exists>s0 s'. setraidtype (demo_E 3) 0 (demo_state 3) = Ok (0, s0) \<and>
     run_ops (demo_E 3) (writeraid (demo_E 3)) [Write 0 (fill 7), Write 1 (fill 8), Repair 1, Write 0 (fill 9)] s0 = Ok (0, s') \<and>
     failed_disks (demo_E 3) s' = {} \<and>
     (\<exists>T. readraid (demo_E 3) 0 [] s' = Ok (0, fill 9, s'\<lparr>tbuf := T\<rparr>))"
proof -
  let ?ops = "[Write 0 (fill 7), Write 1 (fill 8), Repair 1, Write 0 (fill 9)]"
  have "legal_run (demo_E 3) (raid0_cap (demo_E 3)) raid0_tol (start (demo_E 3) (demo_state 3)) ?ops"
    by (simp add: raid0_tol_def diskblockn_val)
  then  obtain s0 s' where s: "setraidtype (demo_E 3) 0 (demo_state 3) = Ok (0, s0)"
    "run_ops (demo_E 3) (writeraid (demo_E 3)) ?ops s0 = Ok (0, s')" "failed_disks (demo_E 3) s' = {}"
    "\<And>v x buf. (content (fold astep ?ops \<lparr>failed = {}, content = Map.empty\<rparr>)) v = Some x \<Longrightarrow>
       \<exists>T. readraid (demo_E 3) (int v) buf s' = Ok (0, x, s'\<lparr>tbuf := T\<rparr>)"
    using raid0_fault_tolerance [of "demo_E 3" "demo_state 3"  ?ops]
    by (auto simp: raid0_tol_def)
  from s(1-3) s(4) [of 0 "fill 9" "[]"] show ?thesis by auto
qed

section \<open>Frame of a write and error results\<close>

text \<open>C27. On every level a read or write of a block number below 0 or from \<open>raidblockn()\<close> on returns \<open>-1\<close> and
  changes nothing.\<close>

theorem raid_out_of_range:
  assumes "meta_ok t (raidmeta s)" "v < 0 \<or> int (raidblockn E (raidmeta s)) \<le> v"
  shows "readraid E v buf s = Ok (- 1, buf, s) \<and> writeraid E v x s = Ok (- 1, s)"
  using assms raid0_range [of s v E] raid1_range [of s v E] raid0_1_range [of s v E]
    raid4_range [of s v E] raid5_range [of s v E]
  by (cases t) (simp_all add: readraid_meta_ok writeraid_meta_ok readtable_def writetable_def meta_ok_def raidblockn_def)

theorem raid_out_of_range_witness:
  "readraid (demo_E 3) 24573 (fill 1) (demo_state 3) = Ok (- 1, fill 1, demo_state 3) \<and>
   writeraid (demo_E 3) 24573 (fill 2) (demo_state 3) = Ok (- 1, demo_state 3)"
proof -
  have "meta_ok RAID0 (raidmeta (demo_state 3))" by (simp add: demo_meta_ok)
  moreover have "int (raidblockn (demo_E 3) (raidmeta (demo_state 3))) \<le> 24573"
    by (simp add: raidblockn_def diskblockn_val)
  ultimately show ?thesis using raid_out_of_range [of RAID0 "demo_state 3" 24573 "demo_E 3" "fill 1" "fill 2"] by simp
qed

text \<open>A RAID 1 write changes block \<open>v % diskblockn()\<close> of the two disks of pair \<open>v / diskblockn()\<close> and nothing else:
  no other block (the metadata blocks included), no lock, no flag, no page. It succeeds when one of the two
  disks is valid.\<close>

theorem raid1_write_frame:
  assumes "raid1_inv E s" "raid1_tol E (failed_disks E s)" "v < raid1_cap E" "is_block x"
  shows "\<exists>s'. writeraid E (int v) x s = Ok (0, s') \<and> s' = s\<lparr>disks := disks s', tbuf := tbuf s'\<rparr> \<and>
    (\<forall>d b. b \<noteq> v mod diskblockn \<or> (d \<noteq> Suc (2 * (v div diskblockn)) \<and> d \<noteq> Suc (2 * (v div diskblockn) + 1)) \<longrightarrow>
       disks s' d b = disks s d b)"
  using r1.mirror_write_frame [OF assms] l1.inv_meta [OF assms(1)]
  by (simp add: writeraid_meta_ok writetable_def)

theorem raid1_write_frame_witness:
  "\<exists>s0 s'. setraidtype (demo_E 4) 1 (demo_state 4) = Ok (0, s0) \<and>
     writeraid (demo_E 4) 8195 (fill 5) s0 = Ok (0, s') \<and> disks s' 3 diskblockn = disks s0 3 diskblockn"
proof -
  obtain s0 where s0: "setraidtype (demo_E 4) 1 (demo_state 4) = Ok (0, s0)" "raid1_inv (demo_E 4) s0"
    "failed_disks (demo_E 4) s0 = {}"
    using demo_raid1 [of 4] by auto
  then have "raid1_tol (demo_E 4) (failed_disks (demo_E 4) s0)" by (simp add: mirror_tol_def all_less_2)
  moreover have "8195 < raid1_cap (demo_E 4)" by (simp add: diskblockn_val)
  ultimately show ?thesis
    using s0 raid1_write_frame [of "demo_E 4" s0 8195 "fill 5"] by (auto simp: diskblockn_val)
qed

text \<open>A RAID 5 write to a loaded cluster changes one block of the data disk and the block of the parity disk in
  the same row, and nothing else: no other block, no lock, no flag, no page.\<close>

theorem raid5_write_frame:
  assumes "parity_inv E RAID5 s" "parity_tol (failed_disks E s)" "v < raid5_cap E" "is_block x"
    and "get_parity (raidmeta s) = Ok p" "cluster_loaded p (v div (DISKS E - 1) div CLUSTER_SIZE)"
  shows "\<exists>s'. writeraid E (int v) x s = Ok (0, s') \<and> s' = s\<lparr>disks := disks s', tbuf := tbuf s'\<rparr> \<and>
    (\<forall>d b. b \<noteq> v div (DISKS E - 1) \<or> (d \<noteq> Suc (raid5_dsk E v) \<and> d \<noteq> Suc (raid5_par E (v div (DISKS E - 1)))) \<longrightarrow>
       disks s' d b = disks s d b)"
  using r5.parity_write_frame [OF assms] l5.inv_meta [OF assms(1)]
  by (simp add: writeraid_meta_ok writetable_def)

theorem raid5_write_frame_witness:
  "\<exists>s1 s2. writeraid (demo_E 3) 0 (fill 5) s1 = Ok (0, s2) \<and> disks s2 2 1 = disks s1 2 1"
proof -
  obtain s0 where s0: "parity_inv (demo_E 3) RAID5 s0" "failed_disks (demo_E 3) s0 = {}"
    using demo_parity(2) [of 3] by auto
  have cap: "0 < raid5_cap (demo_E 3)" by (simp add: diskblockn_val)
  obtain s1 p where s1: "parity_inv (demo_E 3) RAID5 s1" "failed_disks (demo_E 3) s1 = {}"
    "get_parity (raidmeta s1) = Ok p" "cluster_loaded p (0 div (DISKS (demo_E 3) - 1) div CLUSTER_SIZE)"
    using r5.write_law [of "demo_E 3" s0 0 "fill 1"] s0 cap by (auto simp: parity_tol_def parity_stores_def)
  obtain s2 where "writeraid (demo_E 3) 0 (fill 5) s1 = Ok (0, s2)" "disks s2 2 1 = disks s1 2 1"
    using raid5_write_frame [OF s1(1) _ _ _ s1(3,4), of "fill 5"] s1(2) cap by (auto simp: parity_tol_def)
  then show ?thesis by blast
qed

text \<open>When both disks of its pair are lost, a RAID 1 block can be neither read nor written: both calls return \<open>-1\<close>
  and leave the state as it is.\<close>

theorem raid1_pair_lost:
  assumes "raid1_inv E s" "v < raid1_cap E"
    and "\<not> valid (diskinfo (raidmeta s) (2 * (v div diskblockn)))"
    and "\<not> valid (diskinfo (raidmeta s) (2 * (v div diskblockn) + 1))"
  shows "readraid E (int v) buf s = Ok (- 1, buf, s) \<and> writeraid E (int v) x s = Ok (- 1, s)"
  using r1.mirror_lost [OF assms] l1.inv_meta [OF assms(1)]
  by (simp add: writeraid_meta_ok writetable_def readraid_meta_ok readtable_def)

theorem raid1_pair_lost_witness:
  "\<exists>s. raid1_inv (demo_E 2) s \<and> readraid (demo_E 2) 0 (fill 1) s = Ok (- 1, fill 1, s)"
proof -
  obtain s0 where s0: "raid1_inv (demo_E 2) s0" using demo_raid1 [of 2] by auto
  have "raid1_inv (demo_E 2) (set_valid 0 False (set_valid 1 False s0))"
    using s0 by (intro mirror_inv_upd(2)) auto
  then show ?thesis
    using raid1_pair_lost [of "demo_E 2" "set_valid 0 False (set_valid 1 False s0)" 0 "fill 1"]
    by (auto simp: diskblockn_val)
qed

text \<open>C29. When the data disk of a RAID 5 block and one more disk are lost, reading and writing the block return \<open>-1\<close> and
  leave the state as it is; the same holds for RAID 4.\<close>

theorem parity_two_lost:
  assumes "meta_ok t (raidmeta s)" "t = RAID4 \<and> n = v mod (DISKS E - 1) \<or> t = RAID5 \<and> n = raid5_dsk E v"
    and "v < raidblockn E (raidmeta s)" "\<not> valid (diskinfo (raidmeta s) n)"
    and "i < DISKS E" "i \<noteq> n" "\<not> valid (diskinfo (raidmeta s) i)"
  shows "readraid E (int v) buf s = Ok (- 1, buf, s) \<and> writeraid E (int v) x s = Ok (- 1, s)"
  using assms parity_two_lost_form [OF assms(4-7)]
  by (auto simp: readraid_meta_ok writeraid_meta_ok readtable_def writetable_def meta_ok_def raidblockn_def
       raid4read_form raid4write_form raid5read_form raid5write_form)

theorem parity_two_lost_witness:
  "let s = set_valid 0 False (set_valid 1 False (with_level RAID5 (RAID5Data init_parity) (demo_state 3)))
   in readraid (demo_E 3) 0 (fill 1) s = Ok (- 1, fill 1, s)"
proof -
  let ?s = "set_valid 0 False (set_valid 1 False (with_level RAID5 (RAID5Data init_parity) (demo_state 3)))"
  have "meta_ok RAID5 (raidmeta ?s)" by (simp add: meta_ok_def with_level_def)
  moreover have "raid5_dsk (demo_E 3) 0 = 1" by simp
  ultimately have "readraid (demo_E 3) (int 0) (fill 1) ?s = Ok (- 1, fill 1, ?s)"
    using parity_two_lost [of RAID5 ?s 1 0 "demo_E 3" 0 "fill 1"]
    by (simp add: raidblockn_def meta_ok_def diskblockn_val)
  then show ?thesis by (simp add: Let_def)
qed

section \<open>Booting\<close>

theorem loadraid_fresh_witness:
  "\<exists>s'. loadraid (demo_E 2) (demo_state 2) = Ok s' \<and> raid0_inv (demo_E 2) s' \<and> failed_disks (demo_E 2) s' = {}"
  by (rule loadraid_fresh)
     (simp_all add: demo_platform_ok fresh_meta_def)

text \<open>The machine with the metadata it would have written, and whose metadata reads back as that.\<close>

abbreviation demo_saved :: "nat \<Rightarrow> platform" where
  "demo_saved n \<equiv> demo_platform n (lock_all (demo_E n) 3 (demo_meta n))"

lemma demo_saved_lock_all: "lock_all (demo_saved n) p m = lock_all (demo_E n) p m"
  by (simp add: lock_all_def)

theorem writeraidmeta_reboot_witness:
  "\<exists>s1 s2. writeraidmeta (demo_saved 2) (demo_state 2) = Ok s1 \<and>
     loadraid (demo_saved 2) (s1\<lparr>raidmeta := demo_meta 0\<rparr>) = Ok s2 \<and> raidmeta s2 = demo_meta 2"
  using writeraidmeta_reboot [of "demo_saved 2" "demo_state 2" "demo_meta 0"]
  by (auto simp: demo_saved_lock_all)

theorem raidfail_2_lost_witness:
  "\<exists>s1 s2. raidfail (demo_E 2) 2 ((demo_state 2)\<lparr>disks := \<lambda>_ _. meta_block (demo_E 2) (demo_meta 2)\<rparr>) = Ok (0, s1) \<and>
     \<not> valid (diskinfo (raidmeta s1) 1) \<and>
     loadraid (demo_E 2) (s1\<lparr>raidmeta := demo_meta 0\<rparr>) = Ok s2 \<and> valid (diskinfo (raidmeta s2) 1)"
proof -
  let ?s = "(demo_state 2)\<lparr>disks := \<lambda>_ _. meta_block (demo_E 2) (demo_meta 2)\<rparr>"
  have "base_ok (demo_E 2) ?s"
    using demo_base_ok [of 2 "demo_meta 2"] demo_platform_ok [of 2 "demo_meta 2"] by (simp add: base_ok_def)
  then show ?thesis
    using raidfail_2_lost [of "demo_E 2" ?s "demo_meta 2" "demo_meta 0"]
    by auto
qed

text \<open>C32. RAID 4 after a reboot: when the first write to a cluster was the last operation that wrote metadata, the
  metadata on disk 1 says that the cluster lock is held; after \<open>loadraid\<close> a write of any block whose disk is
  valid sleeps forever on that lock.\<close>

theorem raid4_reboot_blocks:
  assumes "parity_inv E RAID4 s" "parity_tol (failed_disks E s)" "v < raid4_cap E" "is_block x" "w < raid4_cap E"
    and "get_parity (raidmeta s) = Ok p" "\<not> cluster_loaded p (v div (DISKS E - 1) div CLUSTER_SIZE)"
    and "valid (diskinfo (raidmeta s) 1)" "valid (diskinfo (raidmeta s) (w mod (DISKS E - 1)))"
    and "persists E (saved_meta E (v div (DISKS E - 1) div CLUSTER_SIZE) p s)"
  shows "\<exists>s1 s2. raid4write E (int v) x s = Ok (0, s1) \<and> loadraid E (s1\<lparr>raidmeta := m0\<rparr>) = Ok s2 \<and>
    raid4write E (int w) y s2 = Blocked"
  by (rule r4.reboot_blocks [OF assms])

text \<open>The machine on level 4 or 5, as \<open>setraidtype\<close> leaves it in memory.\<close>

abbreviation demo_level :: "nat \<Rightarrow> RAID_TYPE \<Rightarrow> RAIDData \<Rightarrow> kstate" where
  "demo_level n t d \<equiv> with_level t d (demo_state n)"

lemma demo_level_inv:
  assumes "1 \<le> n" "n \<le> 8"
  shows "parity_inv (demo_platform n m) RAID4 (demo_level n RAID4 (RAID4Data init_parity))"
    and "parity_inv (demo_platform n m) RAID5 (demo_level n RAID5 (RAID5Data init_parity))"
proof -
  have "kmem_inv (kernel_end (demo_platform n m)) (kmem (demo_state n)) [0x80030000, 0x80031000]"
    using demo_kmem_inv by simp
  then show "parity_inv (demo_platform n m) RAID4 (demo_level n RAID4 (RAID4Data init_parity))"
    "parity_inv (demo_platform n m) RAID5 (demo_level n RAID5 (RAID5Data init_parity))"
    using assms by (auto simp: parity_inv_def base_ok_with_level get_parity_def rows_zero_def)
qed

lemma saved_meta_platform: "saved_meta (demo_platform n m) c p s = saved_meta (demo_platform n m') c p s"
  by (simp add: saved_meta_def lock_all_def)

theorem raid4_reboot_blocks_witness:
  "\<exists>E s s1 s2. raid4write E 0 (fill 7) s = Ok (0, s1) \<and> loadraid E (s1\<lparr>raidmeta := demo_meta 0\<rparr>) = Ok s2 \<and>
     raid4write E 5 (fill 8) s2 = Blocked"
proof -
  let ?s = "demo_level 3 RAID4 (RAID4Data init_parity)"
  let ?M = "saved_meta (demo_E 3) 0 init_parity ?s"
  let ?E = "demo_platform 3 ?M"
  have p: "get_parity (raidmeta ?s) = Ok init_parity" by (simp add: get_parity_def)
  have "persists ?E (saved_meta ?E 0 init_parity ?s)"
    using demo_persists [of 3 ?M] saved_meta_platform [of 3 ?M] by metis
  then have "\<exists>s1 s2. raid4write ?E (int 0) (fill 7) ?s = Ok (0, s1) \<and>
      loadraid ?E (s1\<lparr>raidmeta := demo_meta 0\<rparr>) = Ok s2 \<and> raid4write ?E (int 5) (fill 8) s2 = Blocked"
    by (intro raid4_reboot_blocks [OF demo_level_inv(1) _ _ _ _ p])
       (simp_all add: parity_tol_def diskblockn_val)
  then show ?thesis by fastforce
qed

text \<open>RAID 5 after a reboot behaves like RAID 4: after a first write to a cluster and a reboot, writes sleep forever on
  the cluster lock.\<close>

theorem raid5_reboot_blocks:
  assumes "parity_inv E RAID5 s" "parity_tol (failed_disks E s)" "v < raid5_cap E" "is_block x" "w < raid5_cap E"
    and "get_parity (raidmeta s) = Ok p" "\<not> cluster_loaded p (v div (DISKS E - 1) div CLUSTER_SIZE)"
    and "valid (diskinfo (raidmeta s) 1)" "valid (diskinfo (raidmeta s) (raid5_dsk E w))"
    and "persists E (saved_meta E (v div (DISKS E - 1) div CLUSTER_SIZE) p s)"
  shows "\<exists>s1 s2. raid5write E (int v) x s = Ok (0, s1) \<and> loadraid E (s1\<lparr>raidmeta := m0\<rparr>) = Ok s2 \<and>
    raid5write E (int w) y s2 = Blocked"
  by (rule r5.reboot_blocks [OF assms])

theorem raid5_reboot_blocks_witness:
  "\<exists>E s s1 s2. raid5write E 0 (fill 7) s = Ok (0, s1) \<and> loadraid E (s1\<lparr>raidmeta := demo_meta 0\<rparr>) = Ok s2 \<and>
     raid5write E 5 (fill 8) s2 = Blocked"
proof -
  let ?s = "demo_level 3 RAID5 (RAID5Data init_parity)"
  let ?M = "saved_meta (demo_E 3) 0 init_parity ?s"
  let ?E = "demo_platform 3 ?M"
  have p: "get_parity (raidmeta ?s) = Ok init_parity" by (simp add: get_parity_def)
  have "persists ?E (saved_meta ?E 0 init_parity ?s)"
    using demo_persists [of 3 ?M] saved_meta_platform [of 3 ?M] by metis
  then have "\<exists>s1 s2. raid5write ?E (int 0) (fill 7) ?s = Ok (0, s1) \<and>
      loadraid ?E (s1\<lparr>raidmeta := demo_meta 0\<rparr>) = Ok s2 \<and> raid5write ?E (int 5) (fill 8) s2 = Blocked"
    by (intro raid5_reboot_blocks [OF demo_level_inv(2) _ _ _ _ p])
       (simp_all add: parity_tol_def diskblockn_val)
  then show ?thesis by fastforce
qed

section \<open>Destroying and re-initialising\<close>



text \<open>C35. Choosing RAID 4 or RAID 5 with more than one invalid disk returns \<open>-1\<close>, but the type and the read and
  write functions are already changed, the data of the level is not initialised and nothing is written to the disks.\<close>

theorem setraidtype_rejected:
  assumes "type = 3 \<and> t = RAID4 \<or> type = 4 \<and> t = RAID5" "invalid_count E (raidmeta s) > 1"
  shows "\<exists>s'. setraidtype E type s = Ok (- 1, s') \<and> rtype (raidmeta s') = t \<and> mread (raidmeta s') = Some t \<and>
    mwrite (raidmeta s') = Some t \<and> rdata (raidmeta s') = rdata (raidmeta s) \<and> disks s' = disks s"
  using assms by (auto simp: setraidtype_def Let_def invalid_count_def)

theorem setraidtype_rejected_witness:
  "\<exists>s'. setraidtype (demo_E 3) 3 (set_valid 0 False (set_valid 1 False (demo_state 3))) = Ok (- 1, s') \<and>
     rtype (raidmeta s') = RAID4 \<and> rdata (raidmeta s') = RAID0Data"
proof -
  let ?s = "set_valid 0 False (set_valid 1 False (demo_state 3))"
  have "invalid_count (demo_E 3) (raidmeta ?s) > 1"
    by (simp add: invalid_count_def upt_rec [of _ 3])
  moreover have "rdata (raidmeta ?s) = RAID0Data" by (simp add: demo_meta_def)
  ultimately show ?thesis using setraidtype_rejected [of 3 RAID4 "demo_E 3" ?s] by auto
qed

text \<open>With an odd number of disks, repairing the last disk of a RAID 0+1 array reads outside the array \<open>disk\<close> of a
  pair (index \<open>1 - diskn / (DISKS / 2) = -1\<close>).\<close>

theorem raid0_1_odd_repair:
  assumes "odd (DISKS E)" "3 \<le> DISKS E" "meta_ok RAID0_1 (raidmeta s)"
    and "\<not> valid (diskinfo (raidmeta s) (DISKS E - 1))"
  shows "raidrepair E (int (DISKS E)) s = Fault"
proof -
  obtain h where h: "DISKS E = 2 * h + 1" using assms(1) by (elim oddE)
  then have "DISKS E div 2 = h" "0 < h" using assms(2) by auto
  moreover have "2 * h div h = 2" "nat (2 * int h) = 2 * h" using \<open>0 < h\<close> by (simp_all add: nat_mult_distrib)
  ultimately show ?thesis
    using assms(3,4) by (simp add: raidrepair_def raidrepair_raid0_1_def meta_ok_def Let_def h)
qed

theorem raid0_1_odd_repair_witness:
  "raidrepair (demo_E 3) 3 (set_valid 2 False (demo_level 3 RAID0_1 (RAID0_1Data (\<lambda>i. init_pair i (i + 1))))) = Fault"
  using raid0_1_odd_repair [of "demo_E 3" "set_valid 2 False (demo_level 3 RAID0_1 (RAID0_1Data (\<lambda>i. init_pair i (i + 1))))"]
  by (simp add: meta_ok_def with_level_def)

text \<open>C36. A block of RAID 4 that was never written through the array reads as what is on its disk; when that disk
  fails, the read still returns 0, but with the exclusive-or of the other disks, because no parity was computed.\<close>

theorem raid4_unwritten_changes:
  "\<exists>s s1. parity_inv (demo_E 3) RAID4 s \<and>
     (\<exists>T. raid4read (demo_E 3) 0 buf s = Ok (0, fill 1, s\<lparr>tbuf := T\<rparr>)) \<and>
     raidfail (demo_E 3) 1 s = Ok (0, s1) \<and>
     (\<exists>T. raid4read (demo_E 3) 0 buf s1 = Ok (0, zero_block, s1\<lparr>tbuf := T\<rparr>))"
proof -
  let ?d = "\<lambda>d b. if d = (1 :: nat) then fill 1 else zero_block"
  let ?s = "(demo_level 3 RAID4 (RAID4Data init_parity))\<lparr>disks := ?d\<rparr>"
  have inv: "parity_inv (demo_E 3) RAID4 ?s"
    using demo_level_inv(1) [of 3 "demo_meta 3"] by (auto simp: parity_inv_def base_ok_def meta_ok_def rows_zero_def get_parity_def)
  then have b: "base_ok (demo_E 3) ?s" by (simp add: parity_inv_def)
  have nd: "\<not> isDestroyed (raidmeta ?s)" by (simp add: with_level_def)
  obtain T where T: "raidfail (demo_E 3) 1 ?s = Ok (0, (set_valid 0 False ?s)\<lparr>disks :=
      meta_disks (demo_E 3) (pid ?s) (raidmeta (set_valid 0 False ?s)) (disks ?s), tbuf := T\<rparr>)" (is "_ = Ok (0, ?s1)")
    using raidfail_Ok [OF b nd, of 0] by auto
  have tol: "parity_tol (insert 1 (failed_disks (demo_E 3) ?s))"
    by (simp add: parity_tol_def)
  have b1: "base_ok (demo_E 3) ?s1"
    using base_ok_set_valid [OF b, of 0 False] base_okD(1,6) [OF b] by (intro base_ok_disks is_block_meta_disks) auto
  have km: "kmem_inv (kernel_end (demo_E 3)) (kmem ?s1) [0x80030000, 0x80031000]"
    using demo_kmem_inv by simp
  have x: "xsum (\<lambda>i. disks ?s1 (Suc i) 0) [i \<leftarrow> [0..<DISKS (demo_E 3)]. i \<noteq> 0] = zero_block"
    by (simp add: upt_rec [of _ 3] diskblockn_val)
  have "\<exists>T. raid4read (demo_E 3) (int 0) buf ?s = Ok (0, fill 1, ?s\<lparr>tbuf := T\<rparr>)"
    using parity_read_valid [OF b, of 0 0 buf] by (subst raid4read_form) (auto simp: with_level_def diskblockn_val)
  moreover have "\<exists>T. raid4read (demo_E 3) (int 0) buf ?s1 = Ok (0, zero_block, ?s1\<lparr>tbuf := T\<rparr>)"
    using parity_read_lost [OF b1 _ _ km, of 0 0 buf] x
    by (subst raid4read_form) (auto simp: with_level_def diskblockn_val)
  ultimately show ?thesis using inv T by (intro exI [of _ ?s] exI [of _ ?s1]) auto
qed

text \<open>A RAID 4 write that needs no cluster to be loaded, with no free page: \<open>kalloc\<close> returns a null pointer, which is
  used as a buffer, and the kernel faults.\<close>

theorem raid4_write_no_memory:
  assumes "base_ok E s" "rtype (raidmeta s) = RAID4" "get_parity (raidmeta s) = Ok p" "parity_idle p"
    and "kmem_inv (kernel_end E) (kmem s) []" "v < raid4_cap E" "cluster_loaded p (v div (DISKS E - 1) div CLUSTER_SIZE)"
    and "valid (diskinfo (raidmeta s) (v mod (DISKS E - 1)))" "valid (diskinfo (raidmeta s) (DISKS E - 1))"
  shows "raid4write E (int v) x s = Fault"
  by (rule r4.write_no_memory [OF assms])

theorem raid4_write_no_memory_witness:
  "raid4write (demo_E 3) 0 (fill 1) ((demo_level 3 RAID4 (RAID4Data (init_parity\<lparr>cluster_loaded := \<lambda>_. True\<rparr>)))
     \<lparr>kmem := \<lparr>klock = initlock, freelist = 0, nextp = (\<lambda>_. 0)\<rparr>\<rparr>) = Fault"
proof -
  let ?p = "init_parity\<lparr>cluster_loaded := \<lambda>_. True\<rparr>"
  let ?s = "(demo_level 3 RAID4 (RAID4Data ?p))\<lparr>kmem := \<lparr>klock = initlock, freelist = 0, nextp = (\<lambda>_. 0)\<rparr>\<rparr>"
  have "base_ok (demo_E 3) ?s" by (intro base_ok_kmem base_ok_with_level) simp
  then have "raid4write (demo_E 3) (int 0) (fill 1) ?s = Fault"
    by (rule raid4_write_no_memory [where p = ?p])
       (simp_all add: with_level_def get_parity_def parity_idle_def init_parity_def kmem_inv_def diskblockn_val)
  then show ?thesis by simp
qed

end
